theory Spec2Isabelle
  imports Main "HOL-Library.Sublist"
begin

section \<open>Data model (entity.go, the interface declarations, the dispatcher struct)\<close>

text \<open>
  \<^verbatim>\<open>EventError\<close> of entity.go. The wrapped Go \<^verbatim>\<open>error\<close> is represented by its message.
\<close>

record EventError =
  EventName :: string
  ListenerType :: string
  Err :: string

text \<open>
  The \<^verbatim>\<open>Event\<close> interface: a routing name and a payload. The payload never takes part in
  routing; it is kept as an association list.
\<close>

record Event =
  Name :: string
  Payload :: "(string \<times> string) list"

record ListenerOptions =
  Async :: bool

text \<open>
  A value of the \<^verbatim>\<open>Listener\<close> interface. \<open>OnEvent\<close> returns \<open>None\<close> for Go's \<^verbatim>\<open>nil\<close>
  error and \<open>Some msg\<close> for a failure. \<open>Options\<close> is \<open>None\<close> when the dynamic type does
  not implement \<^verbatim>\<open>ListenerWithOptions\<close> (the type assertion of registerSingleListener
  fails). \<open>TypeName\<close> is what \<^verbatim>\<open>fmt.Sprintf("%T", listener)\<close> prints.
  A listener that panics or never returns is outside this model: \<open>OnEvent\<close> is a total
  function of the event.
\<close>

record Listener =
  ListenerEventName :: string
  OnEvent :: "Event \<Rightarrow> string option"
  Options :: "ListenerOptions option"
  TypeName :: string

text \<open>
  A Go slice \<^verbatim>\<open>[]*EventError\<close>: a backing array in memory, a length and a capacity (the
  code never reslices, so every slice starts at the first cell of its array). A cell is a
  \<^verbatim>\<open>*EventError\<close>: \<open>None\<close> is nil. Memory is the list of the arrays allocated so far.
\<close>

type_synonym cell = "EventError option"

type_synonym memory = "cell list list"

record slice =
  s_array :: nat
  s_len :: nat
  s_cap :: nat

text \<open>
  \<^verbatim>\<open>DispatchHandle\<close>: the WaitGroup is its counter, the channel \<^verbatim>\<open>done\<close> is the flag
  "closed". Handles live in a heap (a list); a \<^verbatim>\<open>*DispatchHandle\<close> is an index into it,
  and an index outside the heap plays the part of the nil pointer.
\<close>

record DispatchHandle =
  dh_wg :: int
  dh_errors :: slice
  dh_done :: bool

text \<open>
  The values that can stand in the \<^verbatim>\<open>args ...interface{}\<close> of a bus callback: a handle
  pointer, an event, or anything else.
\<close>

datatype arg = ArgHandle nat | ArgEvent Event | ArgOther

text \<open>
  The two closures that registerSingleListener builds, each with the listener it
  captures: \<^verbatim>\<open>handler\<close> and \<^verbatim>\<open>asyncHandler\<close>.
\<close>

datatype callback = Handler Listener | AsyncHandler Listener

text \<open>
  Modelled from the spec: the Topic Bus (github.com/asaskevich/EventBus, an external
  library that is not under src/), after section 6 of the specification. A subscription
  keeps its topic, its callback and whether it was made by \<^verbatim>\<open>SubscribeAsync\<close>; the bus is
  the list of subscriptions in registration order.
\<close>

record eventHandler =
  topic :: string
  callBack :: callback
  async :: bool
  transactional :: bool

text \<open>
  \<^verbatim>\<open>GoEvent\<close>. The map \<^verbatim>\<open>asyncListeners\<close> is a partial map; reading a missing key gives
  Go's zero value. Counters are unbounded integers: a count beyond the machine range
  would need more subscriptions than fit in memory.
\<close>

record GoEvent =
  ge_bus :: "eventHandler list"
  ge_wg :: int
  ge_errors :: slice
  ge_asyncListeners :: "string \<rightharpoonup> int"

text \<open>
  Goroutines that have been started and have not run yet: a callback invocation started
  by the bus for an asynchronous subscription, and the watcher started by Dispatch, first
  before its \<^verbatim>\<open>handle.wg.Wait()\<close> (\<open>GoWatch\<close>) and then between the return of that wait
  and \<^verbatim>\<open>handle.markDone()\<close> (\<open>GoMark\<close>).
\<close>

datatype goroutine = GoCall callback "arg list" | GoWatch nat | GoMark nat

text \<open>
  Observations. The log of observations is not program state: no operation reads it. It
  records, in program order, the primitive operations that the claims speak about.
\<close>

datatype counter = Global | OfHandle nat

datatype obs =
    WgAdd counter int
  | Published string "arg list"
  | OnEventCalled nat Listener Event
  | ErrorRecorded counter EventError
  | ErrorsCleared
  | Closed nat

datatype panic = NegativeCounter | CloseOfClosedChannel | NilDereference | IndexOutOfRange

record world =
  ge :: GoEvent
  heap :: "DispatchHandle list"
  arrays :: memory
  goroutines :: "goroutine list"
  trace :: "obs list"

section \<open>Primitive operations\<close>

definition observe :: "obs \<Rightarrow> world \<Rightarrow> world" where
  "observe ob w = w\<lparr>trace := trace w @ [ob]\<rparr>"

definition spawn :: "goroutine \<Rightarrow> world \<Rightarrow> world" where
  "spawn g w = w\<lparr>goroutines := goroutines w @ [g]\<rparr>"

text \<open>
  The built-ins on slices. \<^verbatim>\<open>make([]*EventError, n)\<close> allocates an array of \<open>n\<close> nil cells;
  \<^verbatim>\<open>copy(dst, src)\<close> overwrites the first \<open>min (len dst) (len src)\<close> cells of the
  destination's array; \<^verbatim>\<open>append(s, x)\<close> writes in place when there is spare capacity and
  otherwise moves the elements to a new, larger array. The new capacity is the runtime's
  choice; it is at least the length needed, and nothing below depends on more than that.
\<close>

definition read_slice :: "slice \<Rightarrow> memory \<Rightarrow> cell list" where
  "read_slice s A = take (s_len s) (A ! s_array s)"

definition make_slice :: "nat \<Rightarrow> memory \<Rightarrow> slice \<times> memory" where
  "make_slice n A = (\<lparr>s_array = length A, s_len = n, s_cap = n\<rparr>, A @ [replicate n None])"

definition copy_slice :: "slice \<Rightarrow> slice \<Rightarrow> memory \<Rightarrow> memory" where
  "copy_slice dst src A =
     (let k = min (s_len dst) (s_len src)
      in A[s_array dst := take k (A ! s_array src) @ drop k (A ! s_array dst)])"

definition growslice :: "nat \<Rightarrow> nat \<Rightarrow> nat" where
  "growslice oldCap needed = max needed (2 * oldCap)"

definition append_slice :: "slice \<Rightarrow> cell \<Rightarrow> memory \<Rightarrow> slice \<times> memory" where
  "append_slice s x A =
     (if s_len s < s_cap s then
        (s\<lparr>s_len := s_len s + 1\<rparr>, A[s_array s := (A ! s_array s)[s_len s := x]])
      else
        (let newCap = growslice (s_cap s) (s_len s + 1)
         in (\<lparr>s_array = length A, s_len = s_len s + 1, s_cap = newCap\<rparr>,
             A @ [take (s_len s) (A ! s_array s) @ [x] @ replicate (newCap - (s_len s + 1)) None])))"

text \<open>An assignment \<^verbatim>\<open>s[i] = x\<close> by a caller that holds the slice \<open>s\<close>.\<close>

definition assign_slice :: "slice \<Rightarrow> nat \<Rightarrow> cell \<Rightarrow> memory \<Rightarrow> panic + memory" where
  "assign_slice s i x A =
     (if i < s_len s then Inr (A[s_array s := (A ! s_array s)[i := x]]) else Inl IndexOutOfRange)"

text \<open>Sequencing of operations that may panic.\<close>

definition and_then :: "panic + 'a \<Rightarrow> ('a \<Rightarrow> panic + 'b) \<Rightarrow> panic + 'b" where
  "and_then r f = (case r of Inl p \<Rightarrow> Inl p | Inr x \<Rightarrow> f x)"

text \<open>
  \<^verbatim>\<open>sync.WaitGroup\<close>: \<^verbatim>\<open>Add\<close> adds the delta and panics when the counter becomes negative,
  \<^verbatim>\<open>Done\<close> is \<^verbatim>\<open>Add(-1)\<close>, \<^verbatim>\<open>Wait\<close> returns when the counter is zero.
\<close>

definition GoEvent_wg_Add :: "int \<Rightarrow> world \<Rightarrow> panic + world" where
  "GoEvent_wg_Add delta w =
     (let c = ge_wg (ge w) + delta;
          w' = observe (WgAdd Global delta) (w\<lparr>ge := (ge w)\<lparr>ge_wg := c\<rparr>\<rparr>)
      in if c < 0 then Inl NegativeCounter else Inr w')"

definition GoEvent_wg_Done :: "world \<Rightarrow> panic + world" where
  "GoEvent_wg_Done w = GoEvent_wg_Add (- 1) w"

definition DispatchHandle_wg_Add :: "nat \<Rightarrow> int \<Rightarrow> world \<Rightarrow> panic + world" where
  "DispatchHandle_wg_Add h delta w =
     (if h < length (heap w) then
        (let dh = heap w ! h;
             c = dh_wg dh + delta;
             w' = observe (WgAdd (OfHandle h) delta) (w\<lparr>heap := (heap w)[h := dh\<lparr>dh_wg := c\<rparr>]\<rparr>)
         in if c < 0 then Inl NegativeCounter else Inr w')
      else Inl NilDereference)"

definition DispatchHandle_wg_Done :: "nat \<Rightarrow> world \<Rightarrow> panic + world" where
  "DispatchHandle_wg_Done h w = DispatchHandle_wg_Add h (- 1) w"

section \<open>entity.go: the methods of DispatchHandle\<close>

text \<open>\<^verbatim>\<open>Wait\<close> returns (\<open>Some\<close>) exactly when the counter is zero; \<open>None\<close> is "still blocked".\<close>

definition DispatchHandle_Wait :: "nat \<Rightarrow> world \<Rightarrow> world option" where
  "DispatchHandle_Wait h w =
     (if h < length (heap w) \<and> dh_wg (heap w ! h) = 0 then Some w else None)"

text \<open>
  \<^verbatim>\<open>Done\<close> returns the channel; what a receiver sees of it is whether it is closed. A
  receive from a closed channel returns at once, for every receiver, and changes nothing.
\<close>

definition Done :: "nat \<Rightarrow> world \<Rightarrow> bool" where
  "Done h w = (h < length (heap w) \<and> dh_done (heap w ! h))"

definition DispatchHandle_GetErrors :: "nat \<Rightarrow> world \<Rightarrow> panic + (slice \<times> world)" where
  "DispatchHandle_GetErrors h w =
     (if h < length (heap w) then
        (let (errorsCopy, A1) = make_slice (s_len (dh_errors (heap w ! h))) (arrays w);
             A2 = copy_slice errorsCopy (dh_errors (heap w ! h)) A1
         in Inr (errorsCopy, w\<lparr>arrays := A2\<rparr>))
      else Inl NilDereference)"

definition DispatchHandle_recordError :: "nat \<Rightarrow> EventError \<Rightarrow> world \<Rightarrow> panic + world" where
  "DispatchHandle_recordError h err w =
     (if h < length (heap w) then
        (let (s, A1) = append_slice (dh_errors (heap w ! h)) (Some err) (arrays w)
         in Inr (observe (ErrorRecorded (OfHandle h) err)
                  (w\<lparr>heap := (heap w)[h := (heap w ! h)\<lparr>dh_errors := s\<rparr>], arrays := A1\<rparr>)))
      else Inl NilDereference)"

text \<open>\<^verbatim>\<open>close\<close> of a closed channel panics.\<close>

definition markDone :: "nat \<Rightarrow> world \<Rightarrow> panic + world" where
  "markDone h w =
     (if h < length (heap w) then
        (if dh_done (heap w ! h) then Inl CloseOfClosedChannel
         else Inr (observe (Closed h) (w\<lparr>heap := (heap w)[h := (heap w ! h)\<lparr>dh_done := True\<rparr>]\<rparr>)))
      else Inl NilDereference)"

section \<open>The dispatcher\<close>

definition New :: world where
  "New =
     (let (s, A) = make_slice 0 []
      in \<lparr>ge = \<lparr>ge_bus = [], ge_wg = 0, ge_errors = s, ge_asyncListeners = Map.empty\<rparr>,
          heap = [], arrays = A, goroutines = [], trace = []\<rparr>)"

definition GoEvent_recordError :: "EventError \<Rightarrow> world \<Rightarrow> world" where
  "GoEvent_recordError err w =
     (let (s, A1) = append_slice (ge_errors (ge w)) (Some err) (arrays w)
      in observe (ErrorRecorded Global err) (w\<lparr>ge := (ge w)\<lparr>ge_errors := s\<rparr>, arrays := A1\<rparr>))"

definition GetErrors :: "world \<Rightarrow> slice \<times> world" where
  "GetErrors w =
     (let (errorsCopy, A1) = make_slice (s_len (ge_errors (ge w))) (arrays w);
          A2 = copy_slice errorsCopy (ge_errors (ge w)) A1
      in (errorsCopy, w\<lparr>arrays := A2\<rparr>))"

definition ClearErrors :: "world \<Rightarrow> world" where
  "ClearErrors w =
     (let (s, A1) = make_slice 0 (arrays w)
      in observe ErrorsCleared (w\<lparr>ge := (ge w)\<lparr>ge_errors := s\<rparr>, arrays := A1\<rparr>))"

definition GoEvent_Wait :: "world \<Rightarrow> world option" where
  "GoEvent_Wait w = (if ge_wg (ge w) = 0 then Some w else None)"

text \<open>
  The closure \<^verbatim>\<open>handler\<close> of registerSingleListener. The first two arguments must be a
  handle and an event, otherwise it returns without calling the listener.
\<close>

definition handler :: "Listener \<Rightarrow> arg list \<Rightarrow> world \<Rightarrow> panic + world" where
  "handler listener args w =
     (case args of
        ArgHandle handle # ArgEvent event # _ \<Rightarrow>
          (let w1 = observe (OnEventCalled handle listener event) w in
           case OnEvent listener event of
             None \<Rightarrow> Inr w1
           | Some err \<Rightarrow>
               (let eventError = \<lparr>EventName = ListenerEventName listener,
                                  ListenerType = TypeName listener, Err = err\<rparr>
                in and_then (DispatchHandle_recordError handle eventError w1)
                     (\<lambda>w2. Inr (GoEvent_recordError eventError w2))))
      | _ \<Rightarrow> Inr w)"

text \<open>
  The closure \<^verbatim>\<open>asyncHandler\<close>. Its two deferred calls run after \<^verbatim>\<open>handler\<close>, last deferred
  first: \<^verbatim>\<open>ge.wg.Done()\<close>, then \<^verbatim>\<open>handle.wg.Done()\<close> when the first argument is a handle.
  Deferring \<^verbatim>\<open>handle.wg.Done\<close> evaluates the receiver, so a nil handle panics before
  anything else happens.
\<close>

definition asyncHandler :: "Listener \<Rightarrow> arg list \<Rightarrow> world \<Rightarrow> panic + world" where
  "asyncHandler listener args w =
     (case args of
        ArgHandle handle # _ \<Rightarrow>
          (if handle < length (heap w) then
             and_then (and_then (handler listener args w) GoEvent_wg_Done)
               (DispatchHandle_wg_Done handle)
           else Inl NilDereference)
      | _ \<Rightarrow> and_then (handler listener args w) GoEvent_wg_Done)"

fun call :: "callback \<Rightarrow> arg list \<Rightarrow> world \<Rightarrow> panic + world" where
  "call (Handler listener) args w = handler listener args w"
| "call (AsyncHandler listener) args w = asyncHandler listener args w"

text \<open>
  Modelled from the spec: the three operations of the Topic Bus (section 6).
  \<^verbatim>\<open>publish\<close> goes through the subscriptions of the topic in registration order; a
  synchronous one is called inline, an asynchronous one is started as a goroutine.
\<close>

definition Subscribe :: "string \<Rightarrow> callback \<Rightarrow> world \<Rightarrow> world" where
  "Subscribe tp fn w =
     w\<lparr>ge := (ge w)\<lparr>ge_bus := ge_bus (ge w) @
        [\<lparr>topic = tp, callBack = fn, async = False, transactional = False\<rparr>]\<rparr>\<rparr>"

definition SubscribeAsync :: "string \<Rightarrow> callback \<Rightarrow> bool \<Rightarrow> world \<Rightarrow> world" where
  "SubscribeAsync tp fn tr w =
     w\<lparr>ge := (ge w)\<lparr>ge_bus := ge_bus (ge w) @
        [\<lparr>topic = tp, callBack = fn, async = True, transactional = tr\<rparr>]\<rparr>\<rparr>"

fun doPublish :: "eventHandler list \<Rightarrow> arg list \<Rightarrow> world \<Rightarrow> panic + world" where
  "doPublish [] args w = Inr w"
| "doPublish (eh # ehs) args w =
     (if async eh then doPublish ehs args (spawn (GoCall (callBack eh) args) w)
      else and_then (call (callBack eh) args w) (doPublish ehs args))"

definition Publish :: "string \<Rightarrow> arg list \<Rightarrow> world \<Rightarrow> panic + world" where
  "Publish tp args w =
     doPublish (filter (\<lambda>eh. topic eh = tp) (ge_bus (ge w))) args
       (observe (Published tp args) w)"

definition asyncCount_of :: "(string \<rightharpoonup> int) \<Rightarrow> string \<Rightarrow> int" where
  "asyncCount_of m k = (case m k of None \<Rightarrow> 0 | Some n \<Rightarrow> n)"

definition registerSingleListener :: "Listener \<Rightarrow> world \<Rightarrow> world" where
  "registerSingleListener listener w =
     (let isAsync = (case Options listener of None \<Rightarrow> False | Some opts \<Rightarrow> Async opts);
          eventName = ListenerEventName listener
      in if isAsync then
           SubscribeAsync eventName (AsyncHandler listener) False
             (w\<lparr>ge := (ge w)\<lparr>ge_asyncListeners :=
                 (ge_asyncListeners (ge w))
                   (eventName \<mapsto> asyncCount_of (ge_asyncListeners (ge w)) eventName + 1)\<rparr>\<rparr>)
         else Subscribe eventName (Handler listener) w)"

fun RegisterListener :: "Listener list \<Rightarrow> world \<Rightarrow> world" where
  "RegisterListener [] w = w"
| "RegisterListener (listener # listeners) w =
     RegisterListener listeners (registerSingleListener listener w)"

text \<open>
  \<^verbatim>\<open>Dispatch\<close> from the call to the return, when no started goroutine runs in between: the
  fresh handle is the next heap cell; the result is the handle and the world in which the
  watcher goroutine has been started and has not run. \<open>Dispatch_under\<close>, further down, is
  the call under any schedule of the started goroutines.
\<close>

definition Dispatch :: "Event \<Rightarrow> world \<Rightarrow> panic + (nat \<times> world)" where
  "Dispatch event w =
     (let eventName = Name event;
          handle = length (heap w);
          (s, A1) = make_slice 0 (arrays w);
          w1 = w\<lparr>heap := heap w @ [\<lparr>dh_wg = 0, dh_errors = s, dh_done = False\<rparr>], arrays := A1\<rparr>;
          asyncCount = asyncCount_of (ge_asyncListeners (ge w1)) eventName;
          r2 = (if asyncCount > 0 then
                  and_then (GoEvent_wg_Add asyncCount w1) (DispatchHandle_wg_Add handle asyncCount)
                else Inr w1)
      in and_then (and_then r2 (Publish eventName [ArgHandle handle, ArgEvent event]))
           (\<lambda>w3. Inr (handle, spawn (GoWatch handle) w3)))"

section \<open>Scheduling\<close>

text \<open>
  Granularity. In the source every access to shared state is atomic by itself: a WaitGroup
  operation, an append or a copy made under the mutex of its log, an access to the table
  under its lock. The mutexes serialise the accesses they guard and do nothing else, so
  they have no counterpart here. The relation \<open>step\<close> below takes big steps: a call of a
  public operation, up to its return, is one step, and so is the body of a callback that
  the bus started on a goroutine; the watcher that Dispatch starts takes two steps, its
  wait and its close. Under \<open>step\<close> no goroutine runs while a call of Dispatch is under
  way. The section on a call of Dispatch, operation by operation, lifts that restriction:
  there the started goroutines run between the operations of the call, and
  \<open>conc_reachable\<close> is the set of the worlds of the program with that freedom. What stays
  atomic is the body of a callback invocation (the call of OnEvent, the two recordings and
  the two decrements).

  Running the goroutine at position \<open>i\<close> of the pool. \<open>None\<close>: there is none, or it is a
  watcher whose wait has not returned. A callback invocation runs to its end; a watcher
  whose counter is zero passes its wait; a watcher past its wait closes the channel.
\<close>

definition remove_nth :: "nat \<Rightarrow> 'a list \<Rightarrow> 'a list" where
  "remove_nth i xs = take i xs @ drop (Suc i) xs"

definition run :: "nat \<Rightarrow> world \<Rightarrow> (panic + world) option" where
  "run i w =
     (if i < length (goroutines w) then
        (let w1 = w\<lparr>goroutines := remove_nth i (goroutines w)\<rparr> in
         case goroutines w ! i of
           GoCall fn args \<Rightarrow> Some (call fn args w1)
         | GoWatch h \<Rightarrow>
             (case DispatchHandle_Wait h w1 of
                None \<Rightarrow> None
              | Some w2 \<Rightarrow> Some (Inr (spawn (GoMark h) w2)))
         | GoMark h \<Rightarrow> Some (markDone h w1))
      else None)"

text \<open>
  One step of the program: a public operation that changes the world, or a started
  goroutine that runs. The worlds the program can be in are those that steps lead to from
  \<open>New\<close>.
\<close>

inductive step :: "world \<Rightarrow> world \<Rightarrow> bool" where
  s_Register: "step w (RegisterListener ls w)"
| s_Dispatch: "Dispatch e w = Inr (h, w') \<Longrightarrow> step w w'"
| s_Clear: "step w (ClearErrors w)"
| s_GetErrors: "step w (snd (GetErrors w))"
| s_HandleGetErrors: "DispatchHandle_GetErrors h w = Inr (s, w') \<Longrightarrow> step w w'"
| s_Run: "run i w = Some (Inr w') \<Longrightarrow> step w w'"

inductive reachable :: "world \<Rightarrow> bool" where
  r_New: "reachable New"
| r_step: "reachable w \<Longrightarrow> step w w' \<Longrightarrow> reachable w'"

text \<open>\<open>steps w w'\<close>: the program can get from \<open>w\<close> to \<open>w'\<close>.\<close>

inductive steps :: "world \<Rightarrow> world \<Rightarrow> bool" where
  steps_refl: "steps w w"
| steps_step: "steps w w1 \<Longrightarrow> step w1 w2 \<Longrightarrow> steps w w2"

text \<open>What a reader of the two kinds of error log finds in them.\<close>

definition global_log :: "world \<Rightarrow> cell list" where
  "global_log w = read_slice (ge_errors (ge w)) (arrays w)"

definition handle_log :: "nat \<Rightarrow> world \<Rightarrow> cell list" where
  "handle_log h w = read_slice (dh_errors (heap w ! h)) (arrays w)"

section \<open>Invariants of the reachable worlds\<close>

fun is_call :: "goroutine \<Rightarrow> bool" where
  "is_call (GoCall _ _) = True"
| "is_call _ = False"

fun call_of :: "nat \<Rightarrow> goroutine \<Rightarrow> bool" where
  "call_of h (GoCall _ (ArgHandle h' # _)) = (h' = h)"
| "call_of h _ = False"

fun watcher_of :: "nat \<Rightarrow> goroutine \<Rightarrow> bool" where
  "watcher_of h (GoWatch h') = (h' = h)"
| "watcher_of h (GoMark h') = (h' = h)"
| "watcher_of h _ = False"

fun marker_of :: "nat \<Rightarrow> goroutine \<Rightarrow> bool" where
  "marker_of h (GoMark h') = (h' = h)"
| "marker_of h _ = False"

text \<open>A started goroutine is well formed for a heap of \<open>n\<close> handles.\<close>

fun gor_ok :: "nat \<Rightarrow> goroutine \<Rightarrow> bool" where
  "gor_ok n (GoCall (AsyncHandler l) [ArgHandle h, ArgEvent e]) =
     (h < n \<and> ListenerEventName l = Name e)"
| "gor_ok n (GoCall _ _) = False"
| "gor_ok n (GoWatch h) = (h < n)"
| "gor_ok n (GoMark h) = (h < n)"

text \<open>A subscription made by registerSingleListener: the asynchronous closure is
  subscribed asynchronously, the plain one synchronously, each on the topic that is the
  listener's event name.\<close>

definition sub_ok :: "eventHandler \<Rightarrow> bool" where
  "sub_ok eh =
     (case callBack eh of
        Handler l \<Rightarrow> \<not> async eh \<and> ListenerEventName l = topic eh
      | AsyncHandler l \<Rightarrow> async eh \<and> ListenerEventName l = topic eh)"

definition asyncSubs :: "string \<Rightarrow> eventHandler list \<Rightarrow> eventHandler list" where
  "asyncSubs name ehs = filter (\<lambda>eh. async eh \<and> topic eh = name) ehs"

definition inv_bus :: "world \<Rightarrow> bool" where
  "inv_bus w \<longleftrightarrow> (\<forall>eh \<in> set (ge_bus (ge w)). sub_ok eh)"

definition inv_table :: "world \<Rightarrow> bool" where
  "inv_table w \<longleftrightarrow>
     (\<forall>name. asyncCount_of (ge_asyncListeners (ge w)) name =
              int (length (asyncSubs name (ge_bus (ge w)))))"

definition inv_pool :: "world \<Rightarrow> bool" where
  "inv_pool w \<longleftrightarrow> (\<forall>g \<in> set (goroutines w). gor_ok (length (heap w)) g)"

definition inv_count :: "world \<Rightarrow> bool" where
  "inv_count w \<longleftrightarrow> ge_wg (ge w) = int (length (filter is_call (goroutines w)))"

definition inv_cell :: "world \<Rightarrow> nat \<Rightarrow> bool" where
  "inv_cell w h \<longleftrightarrow>
     dh_wg (heap w ! h) = int (length (filter (call_of h) (goroutines w))) \<and>
     length (filter (watcher_of h) (goroutines w)) = (if dh_done (heap w ! h) then 0 else 1) \<and>
     ((dh_done (heap w ! h) \<or> (\<exists>g \<in> set (goroutines w). marker_of h g)) \<longrightarrow>
        dh_wg (heap w ! h) = 0)"

definition invariant :: "world \<Rightarrow> bool" where
  "invariant w \<longleftrightarrow>
     inv_bus w \<and> inv_table w \<and> inv_pool w \<and> inv_count w \<and>
     (\<forall>h < length (heap w). inv_cell w h)"

text \<open>\<open>quiet w w'\<close>: the step from \<open>w\<close> to \<open>w'\<close> leaves the bus, the table, both kinds of
  counter, the completion flags and the number of handles as they are.\<close>

definition quiet :: "world \<Rightarrow> world \<Rightarrow> bool" where
  "quiet w w' \<longleftrightarrow>
     ge_bus (ge w') = ge_bus (ge w) \<and> ge_wg (ge w') = ge_wg (ge w) \<and>
     ge_asyncListeners (ge w') = ge_asyncListeners (ge w) \<and>
     length (heap w') = length (heap w) \<and>
     (\<forall>h < length (heap w). dh_wg (heap w' ! h) = dh_wg (heap w ! h) \<and>
                            dh_done (heap w' ! h) = dh_done (heap w ! h))"

definition mkError :: "Listener \<Rightarrow> string \<Rightarrow> EventError" where
  "mkError l err = \<lparr>EventName = ListenerEventName l, ListenerType = TypeName l, Err = err\<rparr>"

text \<open>The callback invocations that a publication of \<open>e\<close> with handle \<open>h\<close> starts.\<close>

definition started :: "Event \<Rightarrow> nat \<Rightarrow> world \<Rightarrow> goroutine list" where
  "started e h w =
     map (\<lambda>eh. GoCall (callBack eh) [ArgHandle h, ArgEvent e])
       (filter async (filter (\<lambda>eh. topic eh = Name e) (ge_bus (ge w))))"

text \<open>
  The error logs in memory: the dispatcher's slice first, then the handles' slices in heap
  order. Memory is well formed for a list of slices when each of them lies in an
  allocated array whose size is its capacity, and no two of them share an array.
\<close>

definition logs :: "world \<Rightarrow> slice list" where
  "logs w = ge_errors (ge w) # map dh_errors (heap w)"

definition slice_ok :: "memory \<Rightarrow> slice \<Rightarrow> bool" where
  "slice_ok A s \<longleftrightarrow> s_array s < length A \<and> s_len s \<le> s_cap s \<and> length (A ! s_array s) = s_cap s"

definition mem_ok :: "memory \<Rightarrow> slice list \<Rightarrow> bool" where
  "mem_ok A ss \<longleftrightarrow> (\<forall>s \<in> set ss. slice_ok A s) \<and> distinct (map s_array ss)"

text \<open>\<open>mem_inv extra w\<close>: the logs of \<open>w\<close>, together with the slices \<open>extra\<close> that callers
  hold (the results of earlier \<^verbatim>\<open>GetErrors\<close> calls), are well formed.\<close>

definition mem_inv :: "slice list \<Rightarrow> world \<Rightarrow> bool" where
  "mem_inv extra w \<longleftrightarrow> mem_ok (arrays w) (extra @ logs w)"


text \<open>
  What one invocation of a listener with handle \<open>h\<close> and event \<open>e\<close> appends to an error
  log, and what it adds to the observations.
\<close>

definition failure_of :: "Listener \<Rightarrow> Event \<Rightarrow> cell list" where
  "failure_of l e = (case OnEvent l e of None \<Rightarrow> [] | Some err \<Rightarrow> [Some (mkError l err)])"

definition handler_obs :: "nat \<Rightarrow> Listener \<Rightarrow> Event \<Rightarrow> obs list" where
  "handler_obs h l e =
     OnEventCalled h l e #
     (case OnEvent l e of
        None \<Rightarrow> []
      | Some err \<Rightarrow> [ErrorRecorded (OfHandle h) (mkError l err), ErrorRecorded Global (mkError l err)])"

fun listener_of :: "callback \<Rightarrow> Listener" where
  "listener_of (Handler l) = l"
| "listener_of (AsyncHandler l) = l"

definition sync_failures :: "Event \<Rightarrow> eventHandler list \<Rightarrow> cell list" where
  "sync_failures e ehs =
     concat (map (\<lambda>eh. failure_of (listener_of (callBack eh)) e) (filter (\<lambda>eh. \<not> async eh) ehs))"

definition sync_obs :: "nat \<Rightarrow> Event \<Rightarrow> eventHandler list \<Rightarrow> obs list" where
  "sync_obs h e ehs =
     concat (map (\<lambda>eh. handler_obs h (listener_of (callBack eh)) e) (filter (\<lambda>eh. \<not> async eh) ehs))"

text \<open>
  \<open>recorded extra h new w w'\<close>: from \<open>w\<close> to \<open>w'\<close> the cells \<open>new\<close> were appended to the
  dispatcher's log and to the log of handle \<open>h\<close>, and nothing else happened to the logs, to
  the slices \<open>extra\<close>, the counters, the flags, the bus or the table.
\<close>

definition recorded :: "slice list \<Rightarrow> nat \<Rightarrow> cell list \<Rightarrow> world \<Rightarrow> world \<Rightarrow> bool" where
  "recorded extra h new w w' \<longleftrightarrow>
     quiet w w' \<and> mem_inv extra w' \<and>
     (\<forall>r \<in> set extra. read_slice r (arrays w') = read_slice r (arrays w)) \<and>
     global_log w' = global_log w @ new \<and>
     (\<forall>k < length (heap w). handle_log k w' = handle_log k w @ (if k = h then new else []))"

text \<open>The failures that the observations tell of: per handle, and since the last clearing.\<close>

fun obs_failures :: "obs \<Rightarrow> (nat \<times> cell) list" where
  "obs_failures (OnEventCalled h l e) = map (Pair h) (failure_of l e)"
| "obs_failures _ = []"

definition failures_of_handle :: "nat \<Rightarrow> obs list \<Rightarrow> cell list" where
  "failures_of_handle h tr = map snd (filter (\<lambda>p. fst p = h) (concat (map obs_failures tr)))"

fun is_clear :: "obs \<Rightarrow> bool" where
  "is_clear ErrorsCleared = True"
| "is_clear _ = False"

definition since_clear :: "obs list \<Rightarrow> obs list" where
  "since_clear tr = rev (takeWhile (\<lambda>ob. \<not> is_clear ob) (rev tr))"

definition all_failures :: "obs list \<Rightarrow> cell list" where
  "all_failures tr = map snd (concat (map obs_failures tr))"

definition failures_since_clear :: "obs list \<Rightarrow> cell list" where
  "failures_since_clear tr = all_failures (since_clear tr)"

fun is_WgAdd :: "obs \<Rightarrow> bool" where
  "is_WgAdd (WgAdd _ _) = True"
| "is_WgAdd _ = False"

fun closed_of :: "nat \<Rightarrow> obs \<Rightarrow> bool" where
  "closed_of h (Closed h') = (h' = h)"
| "closed_of h _ = False"

text \<open>The handles that an observation mentions; they all exist.\<close>

fun arg_handles :: "arg \<Rightarrow> nat list" where
  "arg_handles (ArgHandle h) = [h]"
| "arg_handles _ = []"

fun counter_handles :: "counter \<Rightarrow> nat list" where
  "counter_handles (OfHandle h) = [h]"
| "counter_handles Global = []"

fun obs_handles :: "obs \<Rightarrow> nat list" where
  "obs_handles (WgAdd c _) = counter_handles c"
| "obs_handles (Published _ args) = concat (map arg_handles args)"
| "obs_handles (OnEventCalled h _ _) = [h]"
| "obs_handles (ErrorRecorded c _) = counter_handles c"
| "obs_handles ErrorsCleared = []"
| "obs_handles (Closed h) = [h]"

definition obs_ok :: "nat \<Rightarrow> obs \<Rightarrow> bool" where
  "obs_ok n ob \<longleftrightarrow> (\<forall>h \<in> set (obs_handles ob). h < n)"

definition inv_trace :: "world \<Rightarrow> bool" where
  "inv_trace w \<longleftrightarrow>
     (\<forall>ob \<in> set (trace w). obs_ok (length (heap w)) ob) \<and>
     (\<forall>h < length (heap w).
        length (filter (closed_of h) (trace w)) = (if dh_done (heap w ! h) then 1 else 0))"

definition inv_logs :: "world \<Rightarrow> bool" where
  "inv_logs w \<longleftrightarrow>
     global_log w = failures_since_clear (trace w) \<and>
     (\<forall>h < length (heap w). handle_log h w = failures_of_handle h (trace w))"


text \<open>The subscriptions that a publication on a topic goes through.\<close>

definition subscribers :: "string \<Rightarrow> world \<Rightarrow> eventHandler list" where
  "subscribers tp w = filter (\<lambda>eh. topic eh = tp) (ge_bus (ge w))"

text \<open>The observations that a call of Dispatch adds when it reads the count \<open>n\<close> and
  creates handle \<open>h\<close>.\<close>

definition dispatch_obs :: "int \<Rightarrow> nat \<Rightarrow> Event \<Rightarrow> world \<Rightarrow> obs list" where
  "dispatch_obs n h e w =
     (if 0 < n then [WgAdd Global n, WgAdd (OfHandle h) n] else []) @
     Published (Name e) [ArgHandle h, ArgEvent e] # sync_obs h e (subscribers (Name e) w)"


text \<open>A receive \<^verbatim>\<open><-handle.Done()\<close>: it returns, and changes nothing, when the channel is
  closed; until then it blocks (\<open>None\<close>).\<close>

definition receive_Done :: "nat \<Rightarrow> world \<Rightarrow> world option" where
  "receive_Done h w = (if Done h w then Some w else None)"

text \<open>The execution mode that registerSingleListener resolves for a listener.\<close>

definition isAsync :: "Listener \<Rightarrow> bool" where
  "isAsync listener = (case Options listener of None \<Rightarrow> False | Some opts \<Rightarrow> Async opts)"

section \<open>The fixtures of the test file\<close>

text \<open>
  \<^verbatim>\<open>TestEvent\<close>, \<^verbatim>\<open>testSyncListener\<close>, \<^verbatim>\<open>testAsyncListener\<close> and \<^verbatim>\<open>testErrorListener\<close> of the
  package's tests, and the failing asynchronous listener of the scenario in section 8 of
  the specification.
\<close>

definition TestEvent :: "string \<Rightarrow> Event" where
  "TestEvent d = \<lparr>Name = ''test.event'', Payload = [(''data'', d)]\<rparr>"

definition testSyncListener :: Listener where
  "testSyncListener = \<lparr>ListenerEventName = ''test.event'', OnEvent = (\<lambda>event. None),
     Options = None, TypeName = ''*goevent.testSyncListener''\<rparr>"

definition testAsyncListener :: Listener where
  "testAsyncListener = \<lparr>ListenerEventName = ''test.event'', OnEvent = (\<lambda>event. None),
     Options = Some \<lparr>Async = True\<rparr>, TypeName = ''*goevent.testAsyncListener''\<rparr>"

definition testErrorListener :: Listener where
  "testErrorListener = \<lparr>ListenerEventName = ''test.event'',
     OnEvent = (\<lambda>event. Some ''test error''),
     Options = None, TypeName = ''*goevent.testErrorListener''\<rparr>"

definition boomListener :: Listener where
  "boomListener = \<lparr>ListenerEventName = ''test.event'', OnEvent = (\<lambda>event. Some ''boom''),
     Options = Some \<lparr>Async = True\<rparr>, TypeName = ''*goevent.boomListener''\<rparr>"

text \<open>The world after \<^verbatim>\<open>evt.RegisterListener(ls...)\<close> and \<^verbatim>\<open>evt.Dispatch(e)\<close> on a new
  dispatcher.\<close>

definition dispatched :: "Listener list \<Rightarrow> Event \<Rightarrow> world" where
  "dispatched ls e = snd (projr (Dispatch e (RegisterListener ls New)))"

text \<open>The world after the goroutine at position \<open>i\<close> has run (the same world when there is
  none that can run).\<close>

definition ran :: "nat \<Rightarrow> world \<Rightarrow> world" where
  "ran i w = (case run i w of Some (Inr w') \<Rightarrow> w' | _ \<Rightarrow> w)"

section \<open>A call of Dispatch, operation by operation\<close>

text \<open>
  The goroutines that a call of Dispatch starts run concurrently with the rest of the
  call, and so do those that earlier calls have started. To follow them, the call is cut
  at its operations on shared state, in the order of the source: \<^verbatim>\<open>ge.wg.Add\<close> (line 135),
  \<^verbatim>\<open>handle.wg.Add\<close> (line 136), the start of \<^verbatim>\<open>ge.bus.Publish\<close> (line 140), each
  subscription that the publication serves, the return of the publication, the \<^verbatim>\<open>go\<close>
  statement (line 143) and the return (line 148). Before each of them the scheduler may
  let any started goroutine run. A position tells which operation of the call comes next.
\<close>

datatype position =
    AtAddGlobal
  | AtAddHandle
  | AtPublish
  | InPublish "eventHandler list"
  | AtGo
  | AtReturn

text \<open>
  Lines 120 to 131 of Dispatch: the event's name, the new handle (the next heap cell, with
  a new empty error log) and the count read from the table. The result is the handle, the
  count and the world in which the handle exists.
\<close>

definition Dispatch_enter :: "Event \<Rightarrow> world \<Rightarrow> nat \<times> int \<times> world" where
  "Dispatch_enter event w =
     (let eventName = Name event;
          handle = length (heap w);
          (s, A1) = make_slice 0 (arrays w);
          w1 = w\<lparr>heap := heap w @ [\<lparr>dh_wg = 0, dh_errors = s, dh_done = False\<rparr>], arrays := A1\<rparr>;
          asyncCount = asyncCount_of (ge_asyncListeners (ge w1)) eventName
      in (handle, asyncCount, w1))"

text \<open>
  Modelled from the spec: what \<^verbatim>\<open>publish\<close> does for one subscription (section 6): a
  synchronous callback is called inline, an asynchronous one is started as a goroutine.
\<close>

definition deliver :: "eventHandler \<Rightarrow> arg list \<Rightarrow> world \<Rightarrow> panic + world" where
  "deliver eh args w =
     (if async eh then Inr (spawn (GoCall (callBack eh) args) w)
      else call (callBack eh) args w)"

text \<open>
  The operation of the call at a position, and the position that follows. The
  publication first takes the subscriptions of the topic as they are at that moment, then
  serves them one by one.
\<close>

fun Dispatch_step :: "Event \<Rightarrow> nat \<Rightarrow> int \<Rightarrow> position \<Rightarrow> world \<Rightarrow> panic + (position \<times> world)" where
  "Dispatch_step event handle asyncCount AtAddGlobal w =
     (if asyncCount > 0 then
        and_then (GoEvent_wg_Add asyncCount w) (\<lambda>w'. Inr (AtAddHandle, w'))
      else Inr (AtPublish, w))"
| "Dispatch_step event handle asyncCount AtAddHandle w =
     and_then (DispatchHandle_wg_Add handle asyncCount w) (\<lambda>w'. Inr (AtPublish, w'))"
| "Dispatch_step event handle asyncCount AtPublish w =
     Inr (InPublish (filter (\<lambda>eh. topic eh = Name event) (ge_bus (ge w))),
          observe (Published (Name event) [ArgHandle handle, ArgEvent event]) w)"
| "Dispatch_step event handle asyncCount (InPublish (eh # ehs)) w =
     and_then (deliver eh [ArgHandle handle, ArgEvent event] w) (\<lambda>w'. Inr (InPublish ehs, w'))"
| "Dispatch_step event handle asyncCount (InPublish []) w = Inr (AtGo, w)"
| "Dispatch_step event handle asyncCount AtGo w = Inr (AtReturn, spawn (GoWatch handle) w)"
| "Dispatch_step event handle asyncCount AtReturn w = Inr (AtReturn, w)"

text \<open>
  A schedule is the list of the scheduler's choices while the call is under way: the
  caller's next operation, or the started goroutine at a position of the pool.
  \<open>Dispatch_run\<close> follows a schedule from a position of the call. \<open>None\<close>: the schedule
  cannot be followed (it picks a goroutine that is not there or a watcher that is still
  blocked, it goes on after the return, or it ends before the return);
  \<open>Some (Inl p)\<close>: a panic; \<open>Some (Inr w')\<close>: the call returns in the world \<open>w'\<close>.
\<close>

datatype turn = Own | Other nat

fun Dispatch_run ::
  "Event \<Rightarrow> nat \<Rightarrow> int \<Rightarrow> turn list \<Rightarrow> position \<Rightarrow> world \<Rightarrow> (panic + world) option" where
  "Dispatch_run event handle asyncCount [] pos w = (if pos = AtReturn then Some (Inr w) else None)"
| "Dispatch_run event handle asyncCount (Own # ts) pos w =
     (if pos = AtReturn then None
      else case Dispatch_step event handle asyncCount pos w of
             Inl p \<Rightarrow> Some (Inl p)
           | Inr (pos', w1) \<Rightarrow> Dispatch_run event handle asyncCount ts pos' w1)"
| "Dispatch_run event handle asyncCount (Other i # ts) pos w =
     (case run i w of
        None \<Rightarrow> None
      | Some (Inl p) \<Rightarrow> Some (Inl p)
      | Some (Inr w1) \<Rightarrow> Dispatch_run event handle asyncCount ts pos w1)"

text \<open>
  A call of Dispatch under a schedule. The schedule made of the caller's own operations
  only gives the result of \<open>Dispatch\<close> (lemma \<open>Dispatch_alone\<close>).
\<close>

definition Dispatch_under :: "turn list \<Rightarrow> Event \<Rightarrow> world \<Rightarrow> (panic + nat \<times> world) option" where
  "Dispatch_under ts event w =
     (let (handle, asyncCount, w1) = Dispatch_enter event w
      in case Dispatch_run event handle asyncCount ts AtAddGlobal w1 of
           None \<Rightarrow> None
         | Some (Inl p) \<Rightarrow> Some (Inl p)
         | Some (Inr w') \<Rightarrow> Some (Inr (handle, w')))"

text \<open>
  The worlds of the program when the goroutines run concurrently with the calls of
  Dispatch: a step is a step as before, or a call of Dispatch under some schedule. The
  callers' operations are sequential among themselves: one caller registers, dispatches,
  reads and clears the logs.
\<close>

inductive conc_step :: "world \<Rightarrow> world \<Rightarrow> bool" where
  cs_step: "step w w' \<Longrightarrow> conc_step w w'"
| cs_Dispatch: "Dispatch_under ts e w = Some (Inr (h, w')) \<Longrightarrow> conc_step w w'"

inductive conc_reachable :: "world \<Rightarrow> bool" where
  cr_New: "conc_reachable New"
| cr_step: "conc_reachable w \<Longrightarrow> conc_step w w' \<Longrightarrow> conc_reachable w'"

text \<open>
  A world in the middle of a call of Dispatch with handle \<open>h\<close>. The watcher of \<open>h\<close> has not
  been started, and the counters are ahead of the started callback invocations: by \<open>dg\<close>
  for the dispatcher and by \<open>dh\<close> for the handle, the increments for which the
  publication has not started its goroutine yet.
\<close>

definition inflight :: "nat \<Rightarrow> int \<Rightarrow> int \<Rightarrow> world \<Rightarrow> bool" where
  "inflight h dg dh w \<longleftrightarrow>
     inv_bus w \<and> inv_table w \<and> inv_pool w \<and> h < length (heap w) \<and> 0 \<le> dg \<and> 0 \<le> dh \<and>
     ge_wg (ge w) = int (length (filter is_call (goroutines w))) + dg \<and>
     (\<forall>k < length (heap w). k \<noteq> h \<longrightarrow> inv_cell w k) \<and>
     dh_wg (heap w ! h) = int (length (filter (call_of h) (goroutines w))) + dh \<and>
     filter (watcher_of h) (goroutines w) = [] \<and> \<not> dh_done (heap w ! h)"

fun owed :: "int \<Rightarrow> position \<Rightarrow> int \<times> int" where
  "owed n AtAddGlobal = (0, 0)"
| "owed n AtAddHandle = (n, 0)"
| "owed n AtPublish = (n, n)"
| "owed n (InPublish ehs) = (int (length (filter async ehs)), int (length (filter async ehs)))"
| "owed n AtGo = (0, 0)"
| "owed n AtReturn = (0, 0)"

fun position_ok :: "Event \<Rightarrow> int \<Rightarrow> position \<Rightarrow> bool" where
  "position_ok e n (InPublish ehs) = (\<forall>eh \<in> set ehs. sub_ok eh \<and> topic eh = Name e)"
| "position_ok e n AtAddHandle = (0 < n)"
| "position_ok e n _ = True"

text \<open>The errors that have arrived in a log, in the order of their arrival.\<close>

fun arrival :: "counter \<Rightarrow> obs \<Rightarrow> cell list" where
  "arrival c (ErrorRecorded c' err) = (if c' = c then [Some err] else [])"
| "arrival c _ = []"

definition arrived :: "counter \<Rightarrow> obs list \<Rightarrow> cell list" where
  "arrived c tr = concat (map (arrival c) tr)"

definition inv_arrival :: "world \<Rightarrow> bool" where
  "inv_arrival w \<longleftrightarrow>
     global_log w = arrived Global (since_clear (trace w)) \<and>
     (\<forall>h < length (heap w). handle_log h w = arrived (OfHandle h) (trace w))"

text \<open>
  The state of a call of Dispatch with handle \<open>h\<close> and count \<open>n\<close> at a position: what holds
  of every world between two operations of the call.
\<close>

definition good :: "Event \<Rightarrow> nat \<Rightarrow> int \<Rightarrow> position \<Rightarrow> world \<Rightarrow> bool" where
  "good e h n pos w \<longleftrightarrow>
     mem_inv [] w \<and> inv_trace w \<and> inv_logs w \<and> inv_arrival w \<and> h < length (heap w) \<and>
     n = int (length (asyncSubs (Name e) (ge_bus (ge w)))) \<and> position_ok e n pos \<and>
     (if pos = AtReturn then invariant w
      else inflight h (fst (owed n pos)) (snd (owed n pos)) w)"

text \<open>The listener invocations made with a handle so far, and those made or started.\<close>

fun invoked_with :: "nat \<Rightarrow> obs \<Rightarrow> bool" where
  "invoked_with h (OnEventCalled h' _ _) = (h' = h)"
| "invoked_with h _ = False"


text \<open>An addition of a positive number to a counter; a publication.\<close>

fun is_increment :: "obs \<Rightarrow> bool" where
  "is_increment (WgAdd _ d) = (0 < d)"
| "is_increment _ = False"

fun is_publication :: "obs \<Rightarrow> bool" where
  "is_publication (Published _ _) = True"
| "is_publication _ = False"

text \<open>
  What a run of a started goroutine needs from the world: the goroutine is well formed,
  and the counters that a callback invocation decrements are positive.
\<close>

definition runnable :: "world \<Rightarrow> bool" where
  "runnable w \<longleftrightarrow>
     inv_pool w \<and>
     (\<forall>g \<in> set (goroutines w). is_call g \<longrightarrow> 0 < ge_wg (ge w)) \<and>
     (\<forall>g \<in> set (goroutines w). \<forall>k < length (heap w). call_of k g \<longrightarrow> 0 < dh_wg (heap w ! k))"

text \<open>The observations that the run of a started goroutine adds, and the goroutine that
  takes its place in the pool.\<close>

fun gor_obs :: "goroutine \<Rightarrow> obs list" where
  "gor_obs (GoCall (AsyncHandler l) [ArgHandle h, ArgEvent e]) =
     handler_obs h l e @ [WgAdd Global (- 1), WgAdd (OfHandle h) (- 1)]"
| "gor_obs (GoMark h) = [Closed h]"
| "gor_obs _ = []"

fun gor_next :: "goroutine \<Rightarrow> goroutine list" where
  "gor_next (GoWatch h) = [GoMark h]"
| "gor_next _ = []"

text \<open>The observations that the caller's operation at a position adds, and the
  goroutines that it starts.\<close>

fun own_obs :: "Event \<Rightarrow> nat \<Rightarrow> int \<Rightarrow> position \<Rightarrow> obs list" where
  "own_obs e h n AtAddGlobal = (if 0 < n then [WgAdd Global n] else [])"
| "own_obs e h n AtAddHandle = [WgAdd (OfHandle h) n]"
| "own_obs e h n AtPublish = [Published (Name e) [ArgHandle h, ArgEvent e]]"
| "own_obs e h n (InPublish (eh # ehs)) =
     (if async eh then [] else handler_obs h (listener_of (callBack eh)) e)"
| "own_obs e h n _ = []"

fun own_spawn :: "Event \<Rightarrow> nat \<Rightarrow> position \<Rightarrow> goroutine list" where
  "own_spawn e h (InPublish (eh # ehs)) =
     (if async eh then [GoCall (callBack eh) [ArgHandle h, ArgEvent e]] else [])"
| "own_spawn e h AtGo = [GoWatch h]"
| "own_spawn e h _ = []"

text \<open>
  At a position of a call of Dispatch with handle \<open>h\<close> and count \<open>n\<close>: whether the
  publication is still to come, the additions to the counters that the call still has to
  make, and the subscriptions that the publication still has to serve.
\<close>

fun before_publish :: "position \<Rightarrow> bool" where
  "before_publish AtAddGlobal = True"
| "before_publish AtAddHandle = True"
| "before_publish AtPublish = True"
| "before_publish _ = False"

fun pending_adds :: "nat \<Rightarrow> int \<Rightarrow> position \<Rightarrow> obs list" where
  "pending_adds h n AtAddGlobal = (if 0 < n then [WgAdd Global n, WgAdd (OfHandle h) n] else [])"
| "pending_adds h n AtAddHandle = [WgAdd (OfHandle h) n]"
| "pending_adds h n _ = []"

fun to_serve :: "Event \<Rightarrow> position \<Rightarrow> world \<Rightarrow> eventHandler list" where
  "to_serve e (InPublish ehs) w = ehs"
| "to_serve e AtGo w = []"
| "to_serve e AtReturn w = []"
| "to_serve e _ w = subscribers (Name e) w"

text \<open>The world in which \<^verbatim>\<open>evt.Dispatch(e)\<close> returns under a schedule, after
  \<^verbatim>\<open>evt.RegisterListener(ls...)\<close> on a new dispatcher.\<close>

definition dispatched_under :: "turn list \<Rightarrow> Listener list \<Rightarrow> Event \<Rightarrow> world" where
  "dispatched_under ts ls e =
     (case Dispatch_under ts e (RegisterListener ls New) of
        Some (Inr (h, w')) \<Rightarrow> w'
      | _ \<Rightarrow> RegisterListener ls New)"


section \<open>Memory: slices and their arrays\<close>

lemma mem_ok_sub:
  "mem_ok A ss \<Longrightarrow> set ss' \<subseteq> set ss \<Longrightarrow> distinct (map s_array ss') \<Longrightarrow> mem_ok A ss'"
  by (auto simp: mem_ok_def)

lemma slice_ok_grow: "slice_ok A s \<Longrightarrow> slice_ok (A @ B) s"
  by (simp add: slice_ok_def nth_append)

lemma read_slice_grow: "s_array s < length A \<Longrightarrow> read_slice s (A @ B) = read_slice s A"
  by (simp add: read_slice_def nth_append)

lemma read_slice_other:
  "s_array s \<noteq> a \<Longrightarrow> read_slice s (A[a := arr]) = read_slice s A"
  by (simp add: read_slice_def)

lemma slice_ok_other:
  "slice_ok A s \<Longrightarrow> s_array s \<noteq> a \<Longrightarrow> slice_ok (A[a := arr]) s"
  by (simp add: slice_ok_def)

text \<open>A freshly allocated array belongs to no slice of a well-formed memory.\<close>

lemma mem_ok_fresh: "mem_ok A ss \<Longrightarrow> s \<in> set ss \<Longrightarrow> s_array s \<noteq> length A"
  by (auto simp: mem_ok_def slice_ok_def)

lemma mem_ok_distinct:
  "mem_ok A ss \<Longrightarrow> i < length ss \<Longrightarrow> j < length ss \<Longrightarrow> i \<noteq> j \<Longrightarrow>
   s_array (ss ! i) \<noteq> s_array (ss ! j)"
  by (auto simp: mem_ok_def distinct_conv_nth)

lemma distinct_map_update:
  assumes "distinct (map f xs)" and "\<forall>j < length xs. j \<noteq> i \<longrightarrow> f (xs ! j) \<noteq> f y"
  shows "distinct (map f (xs[i := y]))"
proof -
  have "f y \<notin> set (map f xs) - {map f xs ! i}"
  proof
    assume "f y \<in> set (map f xs) - {map f xs ! i}"
    then obtain j where j: "j < length xs" "f y = f (xs ! j)" "f (xs ! j) \<noteq> map f xs ! i"
      by (auto simp: in_set_conv_nth)
    then have "j \<noteq> i" by auto
    with assms(2) j show False by auto
  qed
  with assms(1) have "distinct ((map f xs)[i := f y])" by (rule distinct_list_update)
  then show ?thesis by (simp add: map_update)
qed

lemma make_slice_ok:
  assumes ok: "mem_ok A ss" and mk: "make_slice n A = (s, A')"
  shows "mem_ok A' (ss @ [s])"
    and "mem_ok A' (s # ss)"
    and "i < length ss \<Longrightarrow> mem_ok A' (ss[i := s])"
    and "\<forall>r \<in> set ss. read_slice r A' = read_slice r A"
    and "read_slice s A' = replicate n None"
    and "s_len s = n" and "s_array s = length A" and "length A' = Suc (length A)"
proof -
  from mk have s: "s = \<lparr>s_array = length A, s_len = n, s_cap = n\<rparr>"
    and A': "A' = A @ [replicate n None]"
    by (simp_all add: make_slice_def)
  have new: "slice_ok A' s" by (simp add: s A' slice_ok_def)
  have old: "\<forall>r \<in> set ss. slice_ok A' r \<and> s_array r \<noteq> s_array s"
  proof
    fix r assume "r \<in> set ss"
    with ok have r: "slice_ok A r" by (simp add: mem_ok_def)
    then have "slice_ok A' r" unfolding A' by (rule slice_ok_grow)
    moreover from r have "s_array r \<noteq> s_array s" by (simp add: s slice_ok_def)
    ultimately show "slice_ok A' r \<and> s_array r \<noteq> s_array s" ..
  qed
  from ok have d: "distinct (map s_array ss)" by (simp add: mem_ok_def)
  show "mem_ok A' (ss @ [s])" using new old d by (auto simp: mem_ok_def)
  show "mem_ok A' (s # ss)" using new old d by (auto simp: mem_ok_def)
  show "mem_ok A' (ss[i := s])" if "i < length ss"
  proof -
    have "distinct (map s_array (ss[i := s]))"
      using d old by (intro distinct_map_update) auto
    moreover have "\<forall>r \<in> set (ss[i := s]). slice_ok A' r"
      using new old by (auto dest!: subsetD [OF set_update_subset_insert])
    ultimately show ?thesis by (simp add: mem_ok_def)
  qed
  show "\<forall>r \<in> set ss. read_slice r A' = read_slice r A"
    using ok by (auto simp: A' mem_ok_def slice_ok_def read_slice_grow)
  show "read_slice s A' = replicate n None" by (simp add: s A' read_slice_def)
  show "s_len s = n" "s_array s = length A" "length A' = Suc (length A)" by (simp_all add: s A')
qed

lemma append_slice_ok:
  assumes ok: "mem_ok A ss" and i: "i < length ss" and ap: "append_slice (ss ! i) x A = (s', A')"
  shows "mem_ok A' (ss[i := s'])"
    and "read_slice s' A' = read_slice (ss ! i) A @ [x]"
    and "\<forall>j < length ss. j \<noteq> i \<longrightarrow> read_slice (ss ! j) A' = read_slice (ss ! j) A"
    and "length A \<le> length A'"
proof -
  let ?s = "ss ! i"
  from ok i have si: "slice_ok A ?s" by (simp add: mem_ok_def)
  from ok have d: "distinct (map s_array ss)" by (simp add: mem_ok_def)
  have others: "\<forall>j < length ss. j \<noteq> i \<longrightarrow> slice_ok A (ss ! j) \<and> s_array (ss ! j) \<noteq> s_array ?s"
    using ok i by (auto simp: mem_ok_def dest: mem_ok_distinct [OF ok])
  have "mem_ok A' (ss[i := s']) \<and> read_slice s' A' = read_slice ?s A @ [x] \<and>
    (\<forall>j < length ss. j \<noteq> i \<longrightarrow> read_slice (ss ! j) A' = read_slice (ss ! j) A) \<and>
    length A \<le> length A'"
  proof (cases "s_len ?s < s_cap ?s")
    case True
    with ap have s': "s' = ?s\<lparr>s_len := s_len ?s + 1\<rparr>"
      and A': "A' = A[s_array ?s := (A ! s_array ?s)[s_len ?s := x]]"
      by (simp_all add: append_slice_def)
    have new: "slice_ok A' s'" using si True by (simp add: s' A' slice_ok_def)
    have dd: "distinct (map s_array (ss[i := s']))"
      using d others by (intro distinct_map_update) (auto simp: s')
    have "\<forall>r \<in> set (ss[i := s']). slice_ok A' r"
    proof
      fix r assume "r \<in> set (ss[i := s'])"
      then obtain j where j: "j < length ss" "r = (ss[i := s']) ! j"
        by (auto simp: in_set_conv_nth)
      show "slice_ok A' r"
      proof (cases "j = i")
        case True with j new show ?thesis by simp
      next
        case False with j others show ?thesis by (simp add: A' slice_ok_other)
      qed
    qed
    with dd have 1: "mem_ok A' (ss[i := s'])" by (simp add: mem_ok_def)
    have 2: "read_slice s' A' = read_slice ?s A @ [x]"
      using si True by (simp add: s' A' read_slice_def slice_ok_def take_Suc_conv_app_nth)
    have 3: "\<forall>j < length ss. j \<noteq> i \<longrightarrow> read_slice (ss ! j) A' = read_slice (ss ! j) A"
      using others by (simp add: A' read_slice_other)
    have 4: "length A \<le> length A'" by (simp add: A')
    from 1 2 3 4 show ?thesis by blast
  next
    case False
    let ?c = "growslice (s_cap ?s) (s_len ?s + 1)"
    from False ap have s': "s' = \<lparr>s_array = length A, s_len = s_len ?s + 1, s_cap = ?c\<rparr>"
      and A': "A' = A @ [take (s_len ?s) (A ! s_array ?s) @ [x] @ replicate (?c - (s_len ?s + 1)) None]"
      by (simp_all add: append_slice_def Let_def)
    have c: "s_len ?s + 1 \<le> ?c" by (simp add: growslice_def)
    have l: "s_len ?s \<le> length (A ! s_array ?s)" using si by (simp add: slice_ok_def)
    have new: "slice_ok A' s'" using c l by (simp add: s' A' slice_ok_def)
    have dd: "distinct (map s_array (ss[i := s']))"
      using d others by (intro distinct_map_update) (auto simp: s' slice_ok_def)
    have "\<forall>r \<in> set (ss[i := s']). slice_ok A' r"
    proof
      fix r assume "r \<in> set (ss[i := s'])"
      then obtain j where j: "j < length ss" "r = (ss[i := s']) ! j"
        by (auto simp: in_set_conv_nth)
      show "slice_ok A' r"
      proof (cases "j = i")
        case True with j new show ?thesis by simp
      next
        case False with j others show ?thesis by (simp add: A' slice_ok_grow)
      qed
    qed
    with dd have 1: "mem_ok A' (ss[i := s'])" by (simp add: mem_ok_def)
    have 2: "read_slice s' A' = read_slice ?s A @ [x]"
      using l by (simp add: s' A' read_slice_def)
    have 3: "\<forall>j < length ss. j \<noteq> i \<longrightarrow> read_slice (ss ! j) A' = read_slice (ss ! j) A"
      using others by (simp add: A' read_slice_grow slice_ok_def)
    have 4: "length A \<le> length A'" by (simp add: A')
    from 1 2 3 4 show ?thesis by blast
  qed
then show "mem_ok A' (ss[i := s'])"
    and "read_slice s' A' = read_slice (ss ! i) A @ [x]"
    and "\<forall>j < length ss. j \<noteq> i \<longrightarrow> read_slice (ss ! j) A' = read_slice (ss ! j) A"
    and "length A \<le> length A'"
    by blast+
qed

lemma copy_slice_ok:
  assumes ok: "mem_ok A ss" and i: "i < length ss" and j: "j < length ss" and ij: "i \<noteq> j"
    and len: "s_len (ss ! i) = s_len (ss ! j)"
  shows "mem_ok (copy_slice (ss ! i) (ss ! j) A) ss"
    and "read_slice (ss ! i) (copy_slice (ss ! i) (ss ! j) A) = read_slice (ss ! j) A"
    and "\<forall>k < length ss. k \<noteq> i \<longrightarrow>
           read_slice (ss ! k) (copy_slice (ss ! i) (ss ! j) A) = read_slice (ss ! k) A"
proof -
  let ?d = "ss ! i" and ?s = "ss ! j"
  let ?A' = "copy_slice ?d ?s A"
  have A': "?A' = A[s_array ?d := take (s_len ?d) (A ! s_array ?s) @ drop (s_len ?d) (A ! s_array ?d)]"
    by (simp add: copy_slice_def len Let_def)
  from ok i j have oki: "slice_ok A ?d" and okj: "slice_ok A ?s" by (simp_all add: mem_ok_def)
  have ne: "\<forall>k < length ss. k \<noteq> i \<longrightarrow> s_array (ss ! k) \<noteq> s_array ?d"
    using i by (auto dest: mem_ok_distinct [OF ok])
  have newd: "slice_ok ?A' ?d"
    using oki okj len by (simp add: A' slice_ok_def)
  have "\<forall>r \<in> set ss. slice_ok ?A' r"
  proof
    fix r assume "r \<in> set ss"
    then obtain k where k: "k < length ss" "r = ss ! k" by (auto simp: in_set_conv_nth)
    show "slice_ok ?A' r"
    proof (cases "k = i")
      case True with k newd show ?thesis by simp
    next
      case False
      with k ne ok show ?thesis by (simp add: A' slice_ok_other mem_ok_def)
    qed
  qed
  with ok show "mem_ok ?A' ss" by (simp add: mem_ok_def)
  show "read_slice ?d ?A' = read_slice ?s A"
    using oki okj len by (simp add: A' read_slice_def slice_ok_def)
  show "\<forall>k < length ss. k \<noteq> i \<longrightarrow> read_slice (ss ! k) ?A' = read_slice (ss ! k) A"
    using ne by (simp add: A' read_slice_other)
qed


section \<open>The error logs in memory\<close>

lemma mem_inv_extra_read:
  "mem_inv extra w \<Longrightarrow> r \<in> set extra \<Longrightarrow> \<exists>i < length (extra @ logs w). (extra @ logs w) ! i = r \<and> i < length extra"
  by (metis in_set_conv_nth length_append nth_append trans_less_add1)

lemma GoEvent_recordError_mem:
  assumes m: "mem_inv extra w"
  shows "mem_inv extra (GoEvent_recordError err w)"
    and "global_log (GoEvent_recordError err w) = global_log w @ [Some err]"
    and "\<forall>k < length (heap w). handle_log k (GoEvent_recordError err w) = handle_log k w"
    and "\<forall>r \<in> set extra. read_slice r (arrays (GoEvent_recordError err w)) = read_slice r (arrays w)"
    and "quiet w (GoEvent_recordError err w)"
    and "goroutines (GoEvent_recordError err w) = goroutines w"
    and "trace (GoEvent_recordError err w) = trace w @ [ErrorRecorded Global err]"
proof -
  let ?ss = "extra @ logs w"
  let ?i = "length extra"
  obtain s' A' where ap: "append_slice (ge_errors (ge w)) (Some err) (arrays w) = (s', A')"
    by (cases "append_slice (ge_errors (ge w)) (Some err) (arrays w)")
  let ?w' = "GoEvent_recordError err w"
  have w': "?w' = observe (ErrorRecorded Global err) (w\<lparr>ge := (ge w)\<lparr>ge_errors := s'\<rparr>, arrays := A'\<rparr>)"
    by (simp add: GoEvent_recordError_def ap)
  have i: "?i < length ?ss" "?ss ! ?i = ge_errors (ge w)" by (simp_all add: logs_def)
  from m have ok: "mem_ok (arrays w) ?ss" by (simp add: mem_inv_def)
  from ap i(2) have ap': "append_slice (?ss ! ?i) (Some err) (arrays w) = (s', A')" by simp
  note R = append_slice_ok [OF ok i(1) ap']
  have upd: "?ss[?i := s'] = extra @ logs ?w'"
    by (simp add: w' logs_def observe_def list_update_append)
  show "mem_inv extra ?w'"
    using R(1) by (simp add: mem_inv_def upd [symmetric]) (simp add: w' observe_def)
  show "global_log ?w' = global_log w @ [Some err]"
    using R(2) i(2) by (simp add: global_log_def w' observe_def)
  show "\<forall>k < length (heap w). handle_log k ?w' = handle_log k w"
  proof (intro allI impI)
    fix k assume k: "k < length (heap w)"
    then have p: "?i + 1 + k < length ?ss" "?i + 1 + k \<noteq> ?i"
      and e: "?ss ! (?i + 1 + k) = dh_errors (heap w ! k)"
      by (simp_all add: logs_def nth_append)
    from R(3) [rule_format, OF p] show "handle_log k ?w' = handle_log k w"
      by (simp only: e) (simp add: handle_log_def w' observe_def)
  qed
  show "\<forall>r \<in> set extra. read_slice r (arrays ?w') = read_slice r (arrays w)"
  proof
    fix r assume "r \<in> set extra"
    then obtain j where j: "j < length extra" "extra ! j = r" by (auto simp: in_set_conv_nth)
    then have p: "j < length ?ss" "j \<noteq> ?i" and e: "?ss ! j = r"
      by (simp_all add: nth_append)
    from R(3) [rule_format, OF p] show "read_slice r (arrays ?w') = read_slice r (arrays w)"
      by (simp only: e) (simp add: w' observe_def)
  qed
  show "quiet w ?w'" by (simp add: quiet_def w' observe_def)
  show "goroutines ?w' = goroutines w" by (simp add: w' observe_def)
  show "trace ?w' = trace w @ [ErrorRecorded Global err]" by (simp add: w' observe_def)
qed


lemma DispatchHandle_recordError_mem:
  assumes m: "mem_inv extra w" and h: "h < length (heap w)"
  shows "\<exists>w'. DispatchHandle_recordError h err w = Inr w' \<and> mem_inv extra w' \<and>
           global_log w' = global_log w \<and>
           (\<forall>k < length (heap w). handle_log k w' = handle_log k w @ (if k = h then [Some err] else [])) \<and>
           (\<forall>r \<in> set extra. read_slice r (arrays w') = read_slice r (arrays w)) \<and>
           quiet w w' \<and> goroutines w' = goroutines w \<and>
           trace w' = trace w @ [ErrorRecorded (OfHandle h) err]"
proof -
  let ?ss = "extra @ logs w"
  let ?i = "length extra + 1 + h"
  obtain s' A' where ap: "append_slice (dh_errors (heap w ! h)) (Some err) (arrays w) = (s', A')"
    by (cases "append_slice (dh_errors (heap w ! h)) (Some err) (arrays w)")
  define w' where "w' = observe (ErrorRecorded (OfHandle h) err)
      (w\<lparr>heap := (heap w)[h := (heap w ! h)\<lparr>dh_errors := s'\<rparr>], arrays := A'\<rparr>)"
  have res: "DispatchHandle_recordError h err w = Inr w'"
    using h by (simp add: DispatchHandle_recordError_def ap w'_def)
  have i: "?i < length ?ss" and ei: "?ss ! ?i = dh_errors (heap w ! h)"
    using h by (simp_all add: logs_def nth_append)
  from m have ok: "mem_ok (arrays w) ?ss" by (simp add: mem_inv_def)
  from ap ei have ap': "append_slice (?ss ! ?i) (Some err) (arrays w) = (s', A')" by simp
  note R = append_slice_ok [OF ok i ap']
  have upd: "?ss[?i := s'] = extra @ logs w'"
    by (simp add: w'_def logs_def observe_def list_update_append map_update)
  have 1: "mem_inv extra w'"
    using R(1) by (simp add: mem_inv_def upd [symmetric]) (simp add: w'_def observe_def)
  have 2: "global_log w' = global_log w"
  proof -
    have p: "length extra < length ?ss" "length extra \<noteq> ?i"
      and e: "?ss ! length extra = ge_errors (ge w)"
      by (simp_all add: logs_def)
    from R(3) [rule_format, OF p] show ?thesis
      by (simp only: e) (simp add: global_log_def w'_def observe_def)
  qed
  have 3: "\<forall>k < length (heap w). handle_log k w' = handle_log k w @ (if k = h then [Some err] else [])"
  proof (intro allI impI)
    fix k assume k: "k < length (heap w)"
    show "handle_log k w' = handle_log k w @ (if k = h then [Some err] else [])"
    proof (cases "k = h")
      case True
      with R(2) h show ?thesis by (simp only: ei) (simp add: handle_log_def w'_def observe_def)
    next
      case False
      with k have p: "length extra + 1 + k < length ?ss" "length extra + 1 + k \<noteq> ?i"
        and e: "?ss ! (length extra + 1 + k) = dh_errors (heap w ! k)"
        by (simp_all add: logs_def nth_append)
      from R(3) [rule_format, OF p] False show ?thesis
        by (simp only: e) (simp add: handle_log_def w'_def observe_def)
    qed
  qed
  have 4: "\<forall>r \<in> set extra. read_slice r (arrays w') = read_slice r (arrays w)"
  proof
    fix r assume "r \<in> set extra"
    then obtain j where j: "j < length extra" "extra ! j = r" by (auto simp: in_set_conv_nth)
    then have p: "j < length ?ss" "j \<noteq> ?i" and e: "?ss ! j = r"
      by (simp_all add: nth_append)
    from R(3) [rule_format, OF p] show "read_slice r (arrays w') = read_slice r (arrays w)"
      by (simp only: e) (simp add: w'_def observe_def)
  qed
  have 5: "quiet w w'" using h by (auto simp: quiet_def w'_def observe_def nth_list_update)
  have 6: "goroutines w' = goroutines w" "trace w' = trace w @ [ErrorRecorded (OfHandle h) err]"
    by (simp_all add: w'_def observe_def)
  from res 1 2 3 4 5 6 show ?thesis by blast
qed

text \<open>What an invocation of the listener adds to a log, and to the observations.\<close>

lemma quiet_length: "quiet w w' \<Longrightarrow> length (heap w') = length (heap w)"
  by (simp add: quiet_def)


section \<open>Effects of the operations\<close>

lemma handler_malformed:
  "\<not> (\<exists>h e rest. args = ArgHandle h # ArgEvent e # rest) \<Longrightarrow> handler l args w = Inr w"
  by (auto simp: handler_def split: list.splits arg.splits)

lemma quiet_refl: "quiet w w"
  by (simp add: quiet_def)

lemma quiet_trans: "quiet w w1 \<Longrightarrow> quiet w1 w2 \<Longrightarrow> quiet w w2"
  by (simp add: quiet_def)

lemma quiet_observe: "quiet w (observe ob w)"
  by (simp add: quiet_def observe_def)

lemma quiet_spawn: "quiet w (spawn g w)"
  by (simp add: quiet_def spawn_def)

lemma quiet_invariant:
  "quiet w w' \<Longrightarrow> goroutines w' = goroutines w \<Longrightarrow> invariant w \<Longrightarrow> invariant w'"
  unfolding quiet_def invariant_def inv_bus_def inv_table_def inv_pool_def inv_count_def
    inv_cell_def
  by auto

lemma recorded_refl: "mem_inv extra w \<Longrightarrow> recorded extra h [] w w"
  by (simp add: recorded_def quiet_refl)

lemma recorded_trans:
  assumes "recorded extra h n1 w w1" and "recorded extra h n2 w1 w2"
  shows "recorded extra h (n1 @ n2) w w2"
proof -
  from assms have l: "length (heap w1) = length (heap w)" by (simp add: recorded_def quiet_def)
  from assms have "quiet w w2" by (auto simp: recorded_def intro: quiet_trans)
  with assms l show ?thesis by (simp add: recorded_def)
qed

lemma recorded_observe:
  "recorded extra h new w w' \<Longrightarrow> recorded extra h new w (observe ob w')"
  by (simp add: recorded_def observe_def quiet_def mem_inv_def logs_def global_log_def
      handle_log_def)

lemma recorded_spawn:
  "recorded extra h new w w' \<Longrightarrow> recorded extra h new w (spawn g w')"
  by (simp add: recorded_def spawn_def quiet_def mem_inv_def logs_def global_log_def
      handle_log_def)

lemma handler_effect:
  assumes m: "mem_inv extra w" and h: "h < length (heap w)"
  shows "\<exists>w'. handler l (ArgHandle h # ArgEvent e # rest) w = Inr w' \<and>
           recorded extra h (failure_of l e) w w' \<and> goroutines w' = goroutines w \<and>
           trace w' = trace w @ handler_obs h l e"
proof (cases "OnEvent l e")
  case None
  let ?w1 = "observe (OnEventCalled h l e) w"
  have "handler l (ArgHandle h # ArgEvent e # rest) w = Inr ?w1"
    using None by (simp add: handler_def)
  moreover have "recorded extra h (failure_of l e) w ?w1"
    using recorded_observe [OF recorded_refl [OF m]] None by (simp add: failure_of_def)
  moreover have "goroutines ?w1 = goroutines w" "trace ?w1 = trace w @ handler_obs h l e"
    using None by (simp_all add: observe_def handler_obs_def)
  ultimately show ?thesis by blast
next
  case (Some err)
  let ?ee = "mkError l err"
  let ?w1 = "observe (OnEventCalled h l e) w"
  have r1: "recorded extra h [] w ?w1" by (rule recorded_observe [OF recorded_refl [OF m]])
  then have m1: "mem_inv extra ?w1" and h1: "h < length (heap ?w1)"
    using h by (simp_all add: recorded_def observe_def)
  from DispatchHandle_recordError_mem [OF m1 h1, of ?ee] obtain w2 where
    w2: "DispatchHandle_recordError h ?ee ?w1 = Inr w2" "mem_inv extra w2"
      "global_log w2 = global_log ?w1"
      "\<forall>k < length (heap ?w1). handle_log k w2 = handle_log k ?w1 @ (if k = h then [Some ?ee] else [])"
      "\<forall>r \<in> set extra. read_slice r (arrays w2) = read_slice r (arrays ?w1)"
      "quiet ?w1 w2" "goroutines w2 = goroutines ?w1"
      "trace w2 = trace ?w1 @ [ErrorRecorded (OfHandle h) ?ee]"
    by blast
  let ?w3 = "GoEvent_recordError ?ee w2"
  note G = GoEvent_recordError_mem [OF w2(2), of ?ee]
  have res: "handler l (ArgHandle h # ArgEvent e # rest) w = Inr ?w3"
    using Some w2(1) by (simp add: handler_def Let_def and_then_def mkError_def)
  have l2: "length (heap w2) = length (heap w)" using w2(6) by (simp add: quiet_def observe_def)
  have q: "quiet w ?w3"
    using quiet_trans [OF quiet_trans [OF quiet_observe w2(6)] G(5)] .
  have "recorded extra h (failure_of l e) w ?w3"
    unfolding recorded_def
  proof (intro conjI)
    show "quiet w ?w3" by (rule q)
    show "mem_inv extra ?w3" by (rule G(1))
    show "\<forall>r \<in> set extra. read_slice r (arrays ?w3) = read_slice r (arrays w)"
      using G(4) w2(5) by (simp add: observe_def)
    show "global_log ?w3 = global_log w @ failure_of l e"
      using G(2) w2(3) Some by (simp add: failure_of_def global_log_def observe_def)
    show "\<forall>k < length (heap w). handle_log k ?w3 = handle_log k w @ (if k = h then failure_of l e else [])"
      using G(3) w2(4) l2 Some by (simp add: failure_of_def handle_log_def observe_def)
  qed
  moreover have "goroutines ?w3 = goroutines w" using G(6) w2(7) by (simp add: observe_def)
  moreover have "trace ?w3 = trace w @ handler_obs h l e"
    using G(7) w2(8) Some by (simp add: observe_def handler_obs_def)
  ultimately show ?thesis using res by blast
qed

lemma handler_quiet:
  assumes "\<forall>h e rest. args = ArgHandle h # ArgEvent e # rest \<longrightarrow> h < length (heap w)"
    and "mem_inv [] w"
  shows "\<exists>w'. handler l args w = Inr w' \<and> quiet w w' \<and> goroutines w' = goroutines w"
proof (cases "\<exists>h e rest. args = ArgHandle h # ArgEvent e # rest")
  case False
  then show ?thesis by (simp add: handler_malformed quiet_refl)
next
  case True
  then obtain h e rest where a: "args = ArgHandle h # ArgEvent e # rest" by blast
  with assms have h: "h < length (heap w)" by simp
  from handler_effect [OF assms(2) h, of l e rest] a show ?thesis
    by (auto simp: recorded_def)
qed


lemma sub_ok_async:
  "sub_ok eh \<Longrightarrow> async eh \<Longrightarrow> \<exists>l. callBack eh = AsyncHandler l \<and> ListenerEventName l = topic eh"
  by (cases "callBack eh") (simp_all add: sub_ok_def)

lemma sub_ok_sync:
  "sub_ok eh \<Longrightarrow> \<not> async eh \<Longrightarrow> \<exists>l. callBack eh = Handler l \<and> ListenerEventName l = topic eh"
  by (cases "callBack eh") (simp_all add: sub_ok_def)

lemma doPublish_effect:
  assumes "\<forall>eh \<in> set ehs. sub_ok eh" and "h < length (heap w)" and "mem_inv extra w"
  shows "\<exists>w'. doPublish ehs [ArgHandle h, ArgEvent e] w = Inr w' \<and>
           recorded extra h (sync_failures e ehs) w w' \<and>
           goroutines w' = goroutines w @
             map (\<lambda>eh. GoCall (callBack eh) [ArgHandle h, ArgEvent e]) (filter async ehs) \<and>
           trace w' = trace w @ sync_obs h e ehs"
  using assms
proof (induction ehs arbitrary: w)
  case Nil
  then show ?case by (simp add: recorded_refl sync_failures_def sync_obs_def)
next
  case (Cons eh ehs)
  show ?case
  proof (cases "async eh")
    case True
    let ?w1 = "spawn (GoCall (callBack eh) [ArgHandle h, ArgEvent e]) w"
    have r1: "recorded extra h [] w ?w1"
      by (rule recorded_spawn [OF recorded_refl [OF Cons.prems(3)]])
    then have "h < length (heap ?w1)" "mem_inv extra ?w1"
      using Cons.prems by (simp_all add: spawn_def recorded_def)
    with Cons.IH [of ?w1] Cons.prems obtain w' where
      w': "doPublish ehs [ArgHandle h, ArgEvent e] ?w1 = Inr w'"
        "recorded extra h (sync_failures e ehs) ?w1 w'"
        "goroutines w' = goroutines ?w1 @
           map (\<lambda>eh. GoCall (callBack eh) [ArgHandle h, ArgEvent e]) (filter async ehs)"
        "trace w' = trace ?w1 @ sync_obs h e ehs"
      by auto
    from recorded_trans [OF r1 w'(2)] have "recorded extra h (sync_failures e (eh # ehs)) w w'"
      using True by (simp add: sync_failures_def)
    with True w' show ?thesis by (simp add: spawn_def sync_obs_def)
  next
    case False
    from Cons.prems have "sub_ok eh" by simp
    with False obtain l where l: "callBack eh = Handler l" by (blast dest: sub_ok_sync)
    from handler_effect [OF Cons.prems(3,2), of l e "[]"] obtain w1 where
      w1: "handler l [ArgHandle h, ArgEvent e] w = Inr w1" "recorded extra h (failure_of l e) w w1"
        "goroutines w1 = goroutines w" "trace w1 = trace w @ handler_obs h l e"
      by blast
    then have "h < length (heap w1)" "mem_inv extra w1"
      using Cons.prems by (simp_all add: recorded_def quiet_def)
    with Cons.IH [of w1] Cons.prems obtain w' where
      w': "doPublish ehs [ArgHandle h, ArgEvent e] w1 = Inr w'"
        "recorded extra h (sync_failures e ehs) w1 w'"
        "goroutines w' = goroutines w1 @
           map (\<lambda>eh. GoCall (callBack eh) [ArgHandle h, ArgEvent e]) (filter async ehs)"
        "trace w' = trace w1 @ sync_obs h e ehs"
      by auto
    from recorded_trans [OF w1(2) w'(2)] have "recorded extra h (sync_failures e (eh # ehs)) w w'"
      using False l by (simp add: sync_failures_def)
    with False l w1 w' show ?thesis by (simp add: and_then_def sync_obs_def)
  qed
qed


lemma Dispatch_effect:
  assumes bus: "inv_bus w"
    and n: "0 \<le> asyncCount_of (ge_asyncListeners (ge w)) (Name e)"
    and c: "0 \<le> ge_wg (ge w)"
    and m: "mem_inv extra w"
  shows "\<exists>w'. Dispatch e w = Inr (length (heap w), w') \<and>
           ge_bus (ge w') = ge_bus (ge w) \<and>
           ge_asyncListeners (ge w') = ge_asyncListeners (ge w) \<and>
           ge_wg (ge w') = ge_wg (ge w) + asyncCount_of (ge_asyncListeners (ge w)) (Name e) \<and>
           length (heap w') = Suc (length (heap w)) \<and>
           (\<forall>h < length (heap w). dh_wg (heap w' ! h) = dh_wg (heap w ! h) \<and>
                                  dh_done (heap w' ! h) = dh_done (heap w ! h)) \<and>
           dh_wg (heap w' ! length (heap w)) = asyncCount_of (ge_asyncListeners (ge w)) (Name e) \<and>
           \<not> dh_done (heap w' ! length (heap w)) \<and>
           goroutines w' = goroutines w @ started e (length (heap w)) w @ [GoWatch (length (heap w))] \<and>
           mem_inv extra w' \<and>
           (\<forall>r \<in> set extra. read_slice r (arrays w') = read_slice r (arrays w)) \<and>
           global_log w' = global_log w @ sync_failures e (subscribers (Name e) w) \<and>
           (\<forall>k < length (heap w). handle_log k w' = handle_log k w) \<and>
           handle_log (length (heap w)) w' = sync_failures e (subscribers (Name e) w) \<and>
           trace w' = trace w @
             dispatch_obs (asyncCount_of (ge_asyncListeners (ge w)) (Name e)) (length (heap w)) e w"
proof -
  let ?h = "length (heap w)"
  let ?n = "asyncCount_of (ge_asyncListeners (ge w)) (Name e)"
  let ?subs = "subscribers (Name e) w"
  obtain s A1 where mk: "make_slice 0 (arrays w) = (s, A1)" by (cases "make_slice 0 (arrays w)")
  let ?w1 = "w\<lparr>heap := heap w @ [\<lparr>dh_wg = 0, dh_errors = s, dh_done = False\<rparr>], arrays := A1\<rparr>"
  let ?r2 = "if ?n > 0 then and_then (GoEvent_wg_Add ?n ?w1) (DispatchHandle_wg_Add ?h ?n) else Inr ?w1"
  let ?adds = "if 0 < ?n then [WgAdd Global ?n, WgAdd (OfHandle ?h) ?n] else []"
  from m have ok: "mem_ok (arrays w) (extra @ logs w)" by (simp add: mem_inv_def)
  note M = make_slice_ok [OF ok mk]
  have "\<exists>w2. ?r2 = Inr w2 \<and> ge_bus (ge w2) = ge_bus (ge w) \<and>
    ge_asyncListeners (ge w2) = ge_asyncListeners (ge w) \<and> ge_wg (ge w2) = ge_wg (ge w) + ?n \<and>
    heap w2 = heap w @ [\<lparr>dh_wg = ?n, dh_errors = s, dh_done = False\<rparr>] \<and>
    goroutines w2 = goroutines w \<and> arrays w2 = A1 \<and> ge_errors (ge w2) = ge_errors (ge w) \<and>
    trace w2 = trace w @ ?adds"
  proof (cases "?n > 0")
    case True
    with c show ?thesis
      by (simp add: and_then_def GoEvent_wg_Add_def DispatchHandle_wg_Add_def Let_def observe_def)
  next
    case False
    with n have "?n = 0" by simp
    then show ?thesis by simp
  qed
  then obtain w2 where w2: "?r2 = Inr w2" "ge_bus (ge w2) = ge_bus (ge w)"
    "ge_asyncListeners (ge w2) = ge_asyncListeners (ge w)" "ge_wg (ge w2) = ge_wg (ge w) + ?n"
    "heap w2 = heap w @ [\<lparr>dh_wg = ?n, dh_errors = s, dh_done = False\<rparr>]"
    "goroutines w2 = goroutines w" "arrays w2 = A1" "ge_errors (ge w2) = ge_errors (ge w)"
    "trace w2 = trace w @ ?adds"
    by blast
  have logs2: "extra @ logs w2 = (extra @ logs w) @ [s]" using w2 by (simp add: logs_def)
  have m2: "mem_inv extra w2" using M(1) w2(7) by (simp add: mem_inv_def logs2)
  have ex2: "\<forall>r \<in> set extra. read_slice r (arrays w2) = read_slice r (arrays w)"
    using M(4) w2(7) by simp
  have g2: "global_log w2 = global_log w"
    using M(4) w2(7,8) by (simp add: global_log_def logs_def)
  have hl2: "\<forall>k < ?h. handle_log k w2 = handle_log k w"
    using M(4) w2(5,7) by (simp add: handle_log_def logs_def nth_append)
  have new2: "handle_log ?h w2 = []"
    using M(5) w2(5,7) by (simp add: handle_log_def)
  let ?w2' = "observe (Published (Name e) [ArgHandle ?h, ArgEvent e]) w2"
  have h: "?h < length (heap ?w2')" using w2 by (simp add: observe_def)
  have m2': "mem_inv extra ?w2'" using m2 by (simp add: mem_inv_def observe_def logs_def)
  have subs2: "filter (\<lambda>eh. topic eh = Name e) (ge_bus (ge w2)) = ?subs"
    using w2(2) by (simp add: subscribers_def)
  have "\<forall>eh \<in> set ?subs. sub_ok eh" using bus by (simp add: inv_bus_def subscribers_def)
  from doPublish_effect [OF this h m2', of e] obtain w3 where
    w3: "doPublish ?subs [ArgHandle ?h, ArgEvent e] ?w2' = Inr w3"
      "recorded extra ?h (sync_failures e ?subs) ?w2' w3"
      "goroutines w3 = goroutines ?w2' @
         map (\<lambda>eh. GoCall (callBack eh) [ArgHandle ?h, ArgEvent e]) (filter async ?subs)"
      "trace w3 = trace ?w2' @ sync_obs ?h e ?subs"
    by blast
  from w3(2) have q: "quiet w2 w3" and m3: "mem_inv extra w3"
    and ex3: "\<forall>r \<in> set extra. read_slice r (arrays w3) = read_slice r (arrays w2)"
    and g3: "global_log w3 = global_log w2 @ sync_failures e ?subs"
    and hl3: "\<forall>k < length (heap w2). handle_log k w3 =
                handle_log k w2 @ (if k = ?h then sync_failures e ?subs else [])"
    by (simp_all add: recorded_def quiet_def observe_def global_log_def handle_log_def)
  have "Dispatch e w =
      and_then (and_then ?r2 (Publish (Name e) [ArgHandle ?h, ArgEvent e]))
        (\<lambda>w3. Inr (?h, spawn (GoWatch ?h) w3))"
    by (simp add: Dispatch_def Let_def mk)
  also have "\<dots> = Inr (?h, spawn (GoWatch ?h) w3)"
    by (simp only: w2(1)) (simp add: and_then_def Publish_def subs2 w3(1))
  finally have D: "Dispatch e w = Inr (?h, spawn (GoWatch ?h) w3)" .
  let ?w' = "spawn (GoWatch ?h) w3"
  have 1: "ge_bus (ge ?w') = ge_bus (ge w)" "ge_asyncListeners (ge ?w') = ge_asyncListeners (ge w)"
    "ge_wg (ge ?w') = ge_wg (ge w) + ?n" "length (heap ?w') = Suc ?h"
    using q w2 by (simp_all add: spawn_def quiet_def)
  have 2: "\<forall>h < ?h. dh_wg (heap ?w' ! h) = dh_wg (heap w ! h) \<and>
                     dh_done (heap ?w' ! h) = dh_done (heap w ! h)"
    "dh_wg (heap ?w' ! ?h) = ?n" "\<not> dh_done (heap ?w' ! ?h)"
    using q w2 by (simp_all add: spawn_def quiet_def nth_append)
  have 3: "goroutines ?w' = goroutines w @ started e ?h w @ [GoWatch ?h]"
    using w3(3) w2(6) by (simp add: spawn_def observe_def started_def subscribers_def)
  have 4: "mem_inv extra ?w'" using m3 by (simp add: mem_inv_def spawn_def logs_def)
  have 5: "\<forall>r \<in> set extra. read_slice r (arrays ?w') = read_slice r (arrays w)"
    using ex3 ex2 by (simp add: spawn_def)
  have 6: "global_log ?w' = global_log w @ sync_failures e ?subs"
    using g3 g2 by (simp add: spawn_def global_log_def)
  have 7: "\<forall>k < ?h. handle_log k ?w' = handle_log k w"
    using hl3 hl2 w2(5) by (simp add: spawn_def handle_log_def)
  have 8: "handle_log ?h ?w' = sync_failures e ?subs"
    using hl3 new2 w2(5) by (simp add: spawn_def handle_log_def)
  have 9: "trace ?w' = trace w @ dispatch_obs ?n ?h e w"
    using w3(4) w2(9) by (simp add: spawn_def observe_def dispatch_obs_def)
  from D 1 2 3 4 5 6 7 8 9 show ?thesis by blast
qed

lemma asyncHandler_effect:
  assumes m: "mem_inv extra w" and h: "h < length (heap w)" and g: "0 < ge_wg (ge w)"
    and c: "0 < dh_wg (heap w ! h)"
  shows "\<exists>w1. handler l (ArgHandle h # ArgEvent e # rest) w = Inr w1 \<and>
           recorded extra h (failure_of l e) w w1 \<and> goroutines w1 = goroutines w \<and>
           trace w1 = trace w @ handler_obs h l e \<and>
           asyncHandler l (ArgHandle h # ArgEvent e # rest) w =
             Inr (w1\<lparr>ge := (ge w1)\<lparr>ge_wg := ge_wg (ge w1) - 1\<rparr>,
                    heap := (heap w1)[h := (heap w1 ! h)\<lparr>dh_wg := dh_wg (heap w1 ! h) - 1\<rparr>],
                    trace := trace w1 @ [WgAdd Global (- 1), WgAdd (OfHandle h) (- 1)]\<rparr>)"
proof -
  from handler_effect [OF m h, of l e rest] obtain w1 where
    w1: "handler l (ArgHandle h # ArgEvent e # rest) w = Inr w1"
      "recorded extra h (failure_of l e) w w1" "goroutines w1 = goroutines w"
      "trace w1 = trace w @ handler_obs h l e"
    by blast
  from w1(2) h g c have "h < length (heap w1)" "0 < ge_wg (ge w1)" "0 < dh_wg (heap w1 ! h)"
    by (simp_all add: recorded_def quiet_def)
  then have "asyncHandler l (ArgHandle h # ArgEvent e # rest) w =
      Inr (w1\<lparr>ge := (ge w1)\<lparr>ge_wg := ge_wg (ge w1) - 1\<rparr>,
             heap := (heap w1)[h := (heap w1 ! h)\<lparr>dh_wg := dh_wg (heap w1 ! h) - 1\<rparr>],
             trace := trace w1 @ [WgAdd Global (- 1), WgAdd (OfHandle h) (- 1)]\<rparr>)"
    using h
    by (simp add: asyncHandler_def w1(1) and_then_def GoEvent_wg_Done_def GoEvent_wg_Add_def
        DispatchHandle_wg_Done_def DispatchHandle_wg_Add_def Let_def observe_def)
  with w1 show ?thesis by blast
qed

lemma snapshot_effect:
  assumes ok: "mem_ok A (extra @ ss)" and j: "j < length ss"
    and mk: "make_slice (s_len (ss ! j)) A = (c, A1)"
  shows "mem_ok (copy_slice c (ss ! j) A1) (c # extra @ ss)"
    and "read_slice c (copy_slice c (ss ! j) A1) = read_slice (ss ! j) A"
    and "\<forall>r \<in> set (extra @ ss). read_slice r (copy_slice c (ss ! j) A1) = read_slice r A"
proof -
  let ?all = "c # extra @ ss"
  let ?j = "Suc (length extra + j)"
  note M = make_slice_ok [OF ok mk]
  have p: "0 < length ?all" "?j < length ?all" "0 \<noteq> ?j" using j by simp_all
  have e: "?all ! 0 = c" "?all ! ?j = ss ! j" by (simp_all add: nth_append)
  have len: "s_len (?all ! 0) = s_len (?all ! ?j)" using M(6) by (simp add: nth_append)
  note C = copy_slice_ok [OF M(2) p len]
  from C(1) show "mem_ok (copy_slice c (ss ! j) A1) ?all" by (simp only: e)
  have "ss ! j \<in> set (extra @ ss)" using j by simp
  with M(4) have "read_slice (ss ! j) A1 = read_slice (ss ! j) A" by blast
  with C(2) show "read_slice c (copy_slice c (ss ! j) A1) = read_slice (ss ! j) A"
    by (simp only: e)
  show "\<forall>r \<in> set (extra @ ss). read_slice r (copy_slice c (ss ! j) A1) = read_slice r A"
  proof
    fix r assume r: "r \<in> set (extra @ ss)"
    then obtain k where k: "k < length (extra @ ss)" "(extra @ ss) ! k = r"
      by (metis in_set_conv_nth)
    then have q: "Suc k < length ?all" "Suc k \<noteq> 0" and ek: "?all ! Suc k = r" by simp_all
    from C(3) [rule_format, OF q] have "read_slice r (copy_slice c (ss ! j) A1) = read_slice r A1"
      by (simp only: e ek)
    with M(4) r show "read_slice r (copy_slice c (ss ! j) A1) = read_slice r A" by simp
  qed
qed

lemma GetErrors_effect:
  assumes m: "mem_inv extra w"
  shows "mem_inv (fst (GetErrors w) # extra) (snd (GetErrors w))"
    and "read_slice (fst (GetErrors w)) (arrays (snd (GetErrors w))) = global_log w"
    and "\<forall>r \<in> set extra. read_slice r (arrays (snd (GetErrors w))) = read_slice r (arrays w)"
    and "global_log (snd (GetErrors w)) = global_log w"
    and "\<forall>k < length (heap w). handle_log k (snd (GetErrors w)) = handle_log k w"
    and "\<exists>A. snd (GetErrors w) = w\<lparr>arrays := A\<rparr>"
proof -
  obtain c A1 where mk: "make_slice (s_len (ge_errors (ge w))) (arrays w) = (c, A1)"
    by (cases "make_slice (s_len (ge_errors (ge w))) (arrays w)")
  let ?A2 = "copy_slice c (ge_errors (ge w)) A1"
  have G: "GetErrors w = (c, w\<lparr>arrays := ?A2\<rparr>)" by (simp add: GetErrors_def mk Let_def)
  from m have ok: "mem_ok (arrays w) (extra @ logs w)" by (simp add: mem_inv_def)
  have j: "0 < length (logs w)" and e: "logs w ! 0 = ge_errors (ge w)" by (simp_all add: logs_def)
  from mk e have mk': "make_slice (s_len (logs w ! 0)) (arrays w) = (c, A1)" by simp
  note S = snapshot_effect [OF ok j mk', unfolded e]
  show "mem_inv (fst (GetErrors w) # extra) (snd (GetErrors w))"
    using S(1) by (simp add: G mem_inv_def logs_def)
  show "read_slice (fst (GetErrors w)) (arrays (snd (GetErrors w))) = global_log w"
    using S(2) by (simp add: G global_log_def)
  show "\<forall>r \<in> set extra. read_slice r (arrays (snd (GetErrors w))) = read_slice r (arrays w)"
    using S(3) by (simp add: G)
  show "global_log (snd (GetErrors w)) = global_log w"
    using S(3) by (simp add: G global_log_def logs_def)
  show "\<forall>k < length (heap w). handle_log k (snd (GetErrors w)) = handle_log k w"
    using S(3) by (simp add: G handle_log_def logs_def)
  show "\<exists>A. snd (GetErrors w) = w\<lparr>arrays := A\<rparr>" by (auto simp: G)
qed

lemma DispatchHandle_GetErrors_effect:
  assumes m: "mem_inv extra w" and h: "h < length (heap w)"
  shows "\<exists>c A. DispatchHandle_GetErrors h w = Inr (c, w\<lparr>arrays := A\<rparr>) \<and>
           mem_inv (c # extra) (w\<lparr>arrays := A\<rparr>) \<and>
           read_slice c A = handle_log h w \<and>
           (\<forall>r \<in> set extra. read_slice r A = read_slice r (arrays w)) \<and>
           global_log (w\<lparr>arrays := A\<rparr>) = global_log w \<and>
           (\<forall>k < length (heap w). handle_log k (w\<lparr>arrays := A\<rparr>) = handle_log k w)"
proof -
  let ?s = "dh_errors (heap w ! h)"
  obtain c A1 where mk: "make_slice (s_len ?s) (arrays w) = (c, A1)"
    by (cases "make_slice (s_len ?s) (arrays w)")
  let ?A2 = "copy_slice c ?s A1"
  have G: "DispatchHandle_GetErrors h w = Inr (c, w\<lparr>arrays := ?A2\<rparr>)"
    using h by (simp add: DispatchHandle_GetErrors_def mk Let_def)
  from m have ok: "mem_ok (arrays w) (extra @ logs w)" by (simp add: mem_inv_def)
  have j: "Suc h < length (logs w)" and e: "logs w ! Suc h = ?s" using h by (simp_all add: logs_def)
  from mk e have mk': "make_slice (s_len (logs w ! Suc h)) (arrays w) = (c, A1)" by simp
  note S = snapshot_effect [OF ok j mk', unfolded e]
  have 1: "mem_inv (c # extra) (w\<lparr>arrays := ?A2\<rparr>)" using S(1) by (simp add: mem_inv_def logs_def)
  have 2: "read_slice c ?A2 = handle_log h w" using S(2) by (simp add: handle_log_def)
  have 3: "\<forall>r \<in> set extra. read_slice r ?A2 = read_slice r (arrays w)" using S(3) by simp
  have 4: "global_log (w\<lparr>arrays := ?A2\<rparr>) = global_log w"
    using S(3) by (simp add: global_log_def logs_def)
  have 5: "\<forall>k < length (heap w). handle_log k (w\<lparr>arrays := ?A2\<rparr>) = handle_log k w"
    using S(3) by (simp add: handle_log_def logs_def)
  from G 1 2 3 4 5 show ?thesis by blast
qed

lemma ClearErrors_effect:
  assumes m: "mem_inv extra w"
  shows "mem_inv extra (ClearErrors w)"
    and "\<forall>r \<in> set extra. read_slice r (arrays (ClearErrors w)) = read_slice r (arrays w)"
    and "global_log (ClearErrors w) = []"
    and "\<forall>k < length (heap w). handle_log k (ClearErrors w) = handle_log k w"
    and "quiet w (ClearErrors w)" and "goroutines (ClearErrors w) = goroutines w"
    and "trace (ClearErrors w) = trace w @ [ErrorsCleared]"
    and "map dh_errors (heap (ClearErrors w)) = map dh_errors (heap w)"
proof -
  obtain s A1 where mk: "make_slice 0 (arrays w) = (s, A1)" by (cases "make_slice 0 (arrays w)")
  have C: "ClearErrors w = observe ErrorsCleared (w\<lparr>ge := (ge w)\<lparr>ge_errors := s\<rparr>, arrays := A1\<rparr>)"
    by (simp add: ClearErrors_def mk)
  from m have ok: "mem_ok (arrays w) (extra @ logs w)" by (simp add: mem_inv_def)
  note M = make_slice_ok [OF ok mk]
  have upd: "(extra @ logs w)[length extra := s] = extra @ logs (ClearErrors w)"
    by (simp add: C logs_def observe_def list_update_append)
  have "length extra < length (extra @ logs w)" by (simp add: logs_def)
  from M(3) [OF this] show "mem_inv extra (ClearErrors w)"
    by (simp add: mem_inv_def upd [symmetric]) (simp add: C observe_def)
  show "\<forall>r \<in> set extra. read_slice r (arrays (ClearErrors w)) = read_slice r (arrays w)"
    using M(4) by (simp add: C observe_def)
  show "global_log (ClearErrors w) = []"
    using M(5) by (simp add: C observe_def global_log_def)
  show "\<forall>k < length (heap w). handle_log k (ClearErrors w) = handle_log k w"
    using M(4) by (simp add: C observe_def handle_log_def logs_def)
  show "quiet w (ClearErrors w)" by (simp add: C observe_def quiet_def)
  show "goroutines (ClearErrors w) = goroutines w" by (simp add: C observe_def)
  show "trace (ClearErrors w) = trace w @ [ErrorsCleared]" by (simp add: C observe_def)
  show "map dh_errors (heap (ClearErrors w)) = map dh_errors (heap w)" by (simp add: C observe_def)
qed


section \<open>The invariants hold in every reachable world\<close>

lemma length_filter_remove_nth:
  "i < length xs \<Longrightarrow>
   length (filter P (remove_nth i xs)) = length (filter P xs) - (if P (xs ! i) then 1 else 0)"
proof -
  assume i: "i < length xs"
  then have eq: "xs = take i xs @ xs ! i # drop (Suc i) xs" by (rule id_take_nth_drop)
  have "length (filter P xs) =
      length (filter P (take i xs)) + (if P (xs ! i) then 1 else 0) + length (filter P (drop (Suc i) xs))"
    by (subst eq) simp
  then show ?thesis by (simp add: remove_nth_def)
qed

lemma length_filter_pos: "i < length xs \<Longrightarrow> P (xs ! i) \<Longrightarrow> 0 < length (filter P xs)"
  by (auto simp: filter_empty_conv dest: nth_mem)

lemma int_length_filter_remove_nth:
  assumes "i < length xs"
  shows "int (length (filter P (remove_nth i xs))) =
         int (length (filter P xs)) - (if P (xs ! i) then 1 else 0)"
proof (cases "P (xs ! i)")
  case True
  with assms have "0 < length (filter P xs)" by (rule length_filter_pos)
  then have "int (length (filter P xs) - 1) = int (length (filter P xs)) - 1"
    by (metis Suc_leI One_nat_def of_nat_1 of_nat_diff)
  with True assms show ?thesis by (simp add: length_filter_remove_nth)
next
  case False
  with assms show ?thesis by (simp add: length_filter_remove_nth)
qed

lemma set_remove_nth: "set (remove_nth i xs) \<subseteq> set xs"
  by (auto simp: remove_nth_def dest: in_set_takeD in_set_dropD)

lemma gor_ok_mono: "gor_ok n g \<Longrightarrow> n \<le> m \<Longrightarrow> gor_ok m g"
  by (induction n g rule: gor_ok.induct) auto

lemma gor_ok_call:
  "gor_ok n (GoCall fn args) \<Longrightarrow>
   \<exists>l h e. fn = AsyncHandler l \<and> args = [ArgHandle h, ArgEvent e] \<and> h < n \<and>
     ListenerEventName l = Name e"
  by (erule gor_ok.elims) auto

lemma gor_ok_fresh:
  "gor_ok n g \<Longrightarrow> n \<le> h \<Longrightarrow> \<not> call_of h g \<and> \<not> watcher_of h g \<and> \<not> marker_of h g"
  by (induction n g rule: gor_ok.induct) auto

lemma pool_fresh:
  assumes "\<forall>g \<in> set gs. gor_ok n g" and "n \<le> h"
  shows "filter (call_of h) gs = []" and "filter (watcher_of h) gs = []"
    and "\<not> (\<exists>g \<in> set gs. marker_of h g)"
  using assms by (auto simp: filter_empty_conv dest: gor_ok_fresh)

lemma started_props:
  assumes "inv_bus w"
  shows "\<forall>g \<in> set (started e h w). gor_ok (Suc h) g"
    and "filter is_call (started e h w) = started e h w"
    and "filter (call_of h') (started e h w) = (if h' = h then started e h w else [])"
    and "filter (watcher_of h') (started e h w) = []"
    and "\<not> (\<exists>g \<in> set (started e h w). marker_of h' g)"
    and "length (started e h w) = length (asyncSubs (Name e) (ge_bus (ge w)))"
proof -
  show "\<forall>g \<in> set (started e h w). gor_ok (Suc h) g"
    using assms by (auto simp: started_def inv_bus_def dest!: sub_ok_async)
  show "filter is_call (started e h w) = started e h w"
    by (simp add: started_def filter_map comp_def)
  show "filter (call_of h') (started e h w) = (if h' = h then started e h w else [])"
    by (simp add: started_def filter_map comp_def)
  show "filter (watcher_of h') (started e h w) = []"
    by (simp add: started_def filter_map comp_def)
  show "\<not> (\<exists>g \<in> set (started e h w). marker_of h' g)"
    by (auto simp: started_def)
  show "length (started e h w) = length (asyncSubs (Name e) (ge_bus (ge w)))"
    by (simp add: started_def asyncSubs_def conj_commute)
qed

lemma registerSingleListener_frame:
  "heap (registerSingleListener l w) = heap w \<and> arrays (registerSingleListener l w) = arrays w \<and>
   goroutines (registerSingleListener l w) = goroutines w \<and>
   trace (registerSingleListener l w) = trace w \<and>
   ge_errors (ge (registerSingleListener l w)) = ge_errors (ge w) \<and>
   ge_wg (ge (registerSingleListener l w)) = ge_wg (ge w)"
  by (simp add: registerSingleListener_def Let_def Subscribe_def SubscribeAsync_def)

lemma RegisterListener_frame:
  "heap (RegisterListener ls w) = heap w \<and> arrays (RegisterListener ls w) = arrays w \<and>
   goroutines (RegisterListener ls w) = goroutines w \<and>
   trace (RegisterListener ls w) = trace w \<and>
   ge_errors (ge (RegisterListener ls w)) = ge_errors (ge w) \<and>
   ge_wg (ge (RegisterListener ls w)) = ge_wg (ge w)"
  by (induction ls arbitrary: w) (simp_all add: registerSingleListener_frame)

lemma invariant_New: "invariant New"
  by (simp add: invariant_def inv_bus_def inv_table_def inv_pool_def inv_count_def New_def
      asyncCount_of_def asyncSubs_def make_slice_def)

lemma mem_inv_New: "mem_inv [] New"
  by (simp add: mem_inv_def mem_ok_def slice_ok_def logs_def New_def make_slice_def)

lemma invariant_registerSingleListener:
  "invariant w \<Longrightarrow> invariant (registerSingleListener l w)"
  by (auto simp: invariant_def inv_bus_def inv_table_def inv_pool_def inv_count_def inv_cell_def
      registerSingleListener_def Let_def Subscribe_def SubscribeAsync_def
      sub_ok_def asyncSubs_def asyncCount_of_def split: option.splits)

lemma invariant_RegisterListener: "invariant w \<Longrightarrow> invariant (RegisterListener ls w)"
  by (induction ls arbitrary: w) (simp_all add: invariant_registerSingleListener)

lemma invariant_arrays: "invariant (w\<lparr>arrays := A\<rparr>) = invariant w"
  by (simp add: invariant_def inv_bus_def inv_table_def inv_pool_def inv_count_def inv_cell_def)

lemma invariant_Dispatch:
  assumes inv: "invariant w" and m: "mem_inv extra w" and D: "Dispatch e w = Inr (h, w')"
  shows "invariant w'"
proof -
  from inv have bus: "inv_bus w" and tbl: "inv_table w" and pool: "inv_pool w"
    and cnt: "inv_count w" and cells: "\<forall>h < length (heap w). inv_cell w h"
    by (simp_all add: invariant_def)
  let ?n = "asyncCount_of (ge_asyncListeners (ge w)) (Name e)"
  let ?h = "length (heap w)"
  have n: "?n = int (length (started e ?h w))"
    using tbl started_props(6) [OF bus] by (simp add: inv_table_def)
  have "0 \<le> ?n" "0 \<le> ge_wg (ge w)" using n cnt by (simp_all add: inv_count_def)
  from Dispatch_effect [OF bus this m] D have
    E: "h = ?h" "ge_bus (ge w') = ge_bus (ge w)"
       "ge_asyncListeners (ge w') = ge_asyncListeners (ge w)"
       "ge_wg (ge w') = ge_wg (ge w) + ?n"
       "length (heap w') = Suc ?h"
       "\<forall>h < ?h. dh_wg (heap w' ! h) = dh_wg (heap w ! h) \<and> dh_done (heap w' ! h) = dh_done (heap w ! h)"
       "dh_wg (heap w' ! ?h) = ?n" "\<not> dh_done (heap w' ! ?h)"
       "goroutines w' = goroutines w @ started e ?h w @ [GoWatch ?h]"
    by auto
  from pool have pool': "\<forall>g \<in> set (goroutines w). gor_ok ?h g" by (simp add: inv_pool_def)
  note fresh = pool_fresh [OF pool' order_refl]
  note st = started_props [OF bus, where e = e and h = "length (heap w)"]
  have 1: "inv_bus w'" using bus E(2) by (simp add: inv_bus_def)
  have 2: "inv_table w'" using tbl E(2,3) by (simp add: inv_table_def)
  have 3: "inv_pool w'"
    using pool' st(1) E(5,9) by (auto simp: inv_pool_def intro: gor_ok_mono)
  have 4: "inv_count w'"
    using cnt n E(4,9) st(2) by (simp add: inv_count_def)
  have 5: "inv_cell w' k" if k: "k < length (heap w')" for k
  proof (cases "k = ?h")
    case True
    then show ?thesis
      using fresh st(3-5) [where h' = "length (heap w)"] n E(7-9) by (auto simp: inv_cell_def)
  next
    case False
    with k E(5) have k': "k < ?h" by simp
    with cells E(6) have "inv_cell w k" "dh_wg (heap w' ! k) = dh_wg (heap w ! k)"
      "dh_done (heap w' ! k) = dh_done (heap w ! k)"
      by simp_all
    then show ?thesis
      using False st(3-5) [where h' = k] E(9) by (auto simp: inv_cell_def)
  qed
  show ?thesis
    unfolding invariant_def using 1 2 3 4 5 by blast
qed

lemma run_call:
  assumes inv: "invariant w" and m: "mem_inv extra w" and i: "i < length (goroutines w)"
    and g: "goroutines w ! i = GoCall fn args"
  shows "\<exists>l h e w1. fn = AsyncHandler l \<and> args = [ArgHandle h, ArgEvent e] \<and>
           h < length (heap w) \<and> ListenerEventName l = Name e \<and>
           handler l args (w\<lparr>goroutines := remove_nth i (goroutines w)\<rparr>) = Inr w1 \<and>
           recorded extra h (failure_of l e) w w1 \<and>
           goroutines w1 = remove_nth i (goroutines w) \<and>
           trace w1 = trace w @ handler_obs h l e \<and>
           run i w =
             Some (Inr (w1\<lparr>ge := (ge w1)\<lparr>ge_wg := ge_wg (ge w1) - 1\<rparr>,
                    heap := (heap w1)[h := (heap w1 ! h)\<lparr>dh_wg := dh_wg (heap w1 ! h) - 1\<rparr>],
                    trace := trace w1 @ [WgAdd Global (- 1), WgAdd (OfHandle h) (- 1)]\<rparr>))"
proof -
  from inv have pool: "inv_pool w" and cnt: "inv_count w"
    and cells: "\<forall>h < length (heap w). inv_cell w h"
    by (simp_all add: invariant_def)
  from pool i g have "gor_ok (length (heap w)) (GoCall fn args)"
    by (metis inv_pool_def nth_mem)
  then obtain l h e where a: "fn = AsyncHandler l" "args = [ArgHandle h, ArgEvent e]"
    "h < length (heap w)" and nm: "ListenerEventName l = Name e"
    by (blast dest: gor_ok_call)
  let ?w0 = "w\<lparr>goroutines := remove_nth i (goroutines w)\<rparr>"
  have "0 < length (filter is_call (goroutines w))"
    by (rule length_filter_pos [OF i]) (simp add: g)
  then have gpos: "0 < ge_wg (ge ?w0)" using cnt by (simp add: inv_count_def)
  have "0 < length (filter (call_of h) (goroutines w))"
    by (rule length_filter_pos [OF i]) (simp add: g a)
  then have cpos: "0 < dh_wg (heap ?w0 ! h)" using cells a(3) by (simp add: inv_cell_def)
  have hv: "h < length (heap ?w0)" using a(3) by simp
  have m0: "mem_inv extra ?w0" using m by (simp add: mem_inv_def logs_def)
  from asyncHandler_effect [OF m0 hv gpos cpos, of l e "[]"] obtain w1 where
    w1: "handler l [ArgHandle h, ArgEvent e] ?w0 = Inr w1"
      "recorded extra h (failure_of l e) ?w0 w1"
      "goroutines w1 = goroutines ?w0" "trace w1 = trace ?w0 @ handler_obs h l e"
      "asyncHandler l [ArgHandle h, ArgEvent e] ?w0 =
         Inr (w1\<lparr>ge := (ge w1)\<lparr>ge_wg := ge_wg (ge w1) - 1\<rparr>,
                heap := (heap w1)[h := (heap w1 ! h)\<lparr>dh_wg := dh_wg (heap w1 ! h) - 1\<rparr>],
                trace := trace w1 @ [WgAdd Global (- 1), WgAdd (OfHandle h) (- 1)]\<rparr>)"
    by blast
  from w1(2) have r: "recorded extra h (failure_of l e) w w1"
    by (simp add: recorded_def quiet_def global_log_def handle_log_def)
  have "run i w = Some (asyncHandler l [ArgHandle h, ArgEvent e] ?w0)"
    using i g a by (simp add: run_def Let_def)
  with a nm w1 r show ?thesis by simp
qed

lemma run_watch:
  assumes "i < length (goroutines w)" and "goroutines w ! i = GoWatch h"
    and "run i w = Some (Inr w')"
  shows "h < length (heap w)" and "dh_wg (heap w ! h) = 0"
    and "w' = w\<lparr>goroutines := remove_nth i (goroutines w) @ [GoMark h]\<rparr>"
  using assms by (auto simp: run_def Let_def DispatchHandle_Wait_def spawn_def split: if_splits)

lemma run_mark:
  assumes "i < length (goroutines w)" and "goroutines w ! i = GoMark h"
    and "run i w = Some (Inr w')"
  shows "h < length (heap w)" and "\<not> dh_done (heap w ! h)"
    and "w' = w\<lparr>goroutines := remove_nth i (goroutines w),
                 heap := (heap w)[h := (heap w ! h)\<lparr>dh_done := True\<rparr>],
                 trace := trace w @ [Closed h]\<rparr>"
  using assms by (auto simp: run_def Let_def markDone_def observe_def split: if_splits)

lemma run_index: "run i w = Some r \<Longrightarrow> i < length (goroutines w)"
  by (simp add: run_def split: if_splits)

lemma invariant_run:
  assumes inv: "invariant w" and m: "mem_inv extra w" and r: "run i w = Some (Inr w')"
  shows "invariant w'"
proof -
  from inv have bus: "inv_bus w" and tbl: "inv_table w" and pool: "inv_pool w"
    and cnt: "inv_count w" and cells: "\<forall>h < length (heap w). inv_cell w h"
    by (simp_all add: invariant_def)
  from r have i: "i < length (goroutines w)" by (rule run_index)
  let ?gs = "goroutines w"
  let ?gs' = "remove_nth i ?gs"
  have sub: "set ?gs' \<subseteq> set ?gs" by (rule set_remove_nth)
  note len = length_filter_remove_nth [OF i]
  note ilen = int_length_filter_remove_nth [OF i]
  show ?thesis
  proof (cases "?gs ! i")
    case (GoCall fn args)
    from run_call [OF inv m i GoCall] r obtain l h e w1 where
      a: "fn = AsyncHandler l" "args = [ArgHandle h, ArgEvent e]" "h < length (heap w)"
        "recorded extra h (failure_of l e) w w1" "goroutines w1 = ?gs'"
      and w': "w' = w1\<lparr>ge := (ge w1)\<lparr>ge_wg := ge_wg (ge w1) - 1\<rparr>,
                heap := (heap w1)[h := (heap w1 ! h)\<lparr>dh_wg := dh_wg (heap w1 ! h) - 1\<rparr>],
                trace := trace w1 @ [WgAdd Global (- 1), WgAdd (OfHandle h) (- 1)]\<rparr>"
      by auto
    from a(4) have q: "quiet w w1" by (simp add: recorded_def)
    have pos: "0 < length (filter is_call ?gs)" "0 < length (filter (call_of h) ?gs)"
      by (rule length_filter_pos [OF i], simp add: GoCall a)+
    have 1: "inv_bus w'" using bus q by (simp add: w' inv_bus_def quiet_def)
    have 2: "inv_table w'" using tbl q by (simp add: w' inv_table_def quiet_def)
    have 3: "inv_pool w'" using pool q a(5) sub by (auto simp: w' inv_pool_def quiet_def)
    have 4: "inv_count w'"
      using cnt q a(5) GoCall by (simp add: w' inv_count_def quiet_def ilen)
    have 5: "inv_cell w' k" if k: "k < length (heap w')" for k
    proof -
      from k q have k': "k < length (heap w)" by (simp add: w' quiet_def)
      with cells have c: "inv_cell w k" by simp
      have same: "dh_done (heap w' ! k) = dh_done (heap w ! k)"
        "dh_wg (heap w' ! k) = dh_wg (heap w ! k) - (if k = h then 1 else 0)"
        using k' a(3) q by (auto simp: w' quiet_def nth_list_update)
      have calls: "int (length (filter (call_of k) (goroutines w'))) =
          int (length (filter (call_of k) ?gs)) - (if k = h then 1 else 0)"
        using a(1,2,5) GoCall by (auto simp: w' ilen)
      have watch: "length (filter (watcher_of k) (goroutines w')) = length (filter (watcher_of k) ?gs)"
        using a(5) GoCall by (simp add: w' len)
      have mark: "(\<exists>g \<in> set (goroutines w'). marker_of k g) \<longrightarrow> (\<exists>g \<in> set ?gs. marker_of k g)"
        using a(5) sub by (auto simp: w')
      show ?thesis
      proof (cases "k = h")
        case True
        with c pos(2) have "\<not> dh_done (heap w ! k)" "\<not> (\<exists>g \<in> set ?gs. marker_of k g)"
          by (auto simp: inv_cell_def)
        with c same calls watch mark pos(2) True show ?thesis
          by (auto simp: inv_cell_def)
      next
        case False
        with c same calls watch mark show ?thesis by (auto simp: inv_cell_def)
      qed
    qed
    show ?thesis unfolding invariant_def using 1 2 3 4 5 by blast
  next
    case (GoWatch h)
    note W = run_watch [OF i GoWatch r]
    note h = W(1,2) and w' = W(3)
    have 1: "inv_bus w'" using bus by (simp add: w' inv_bus_def)
    have 2: "inv_table w'" using tbl by (simp add: w' inv_table_def)
    have 3: "inv_pool w'" using pool sub h by (auto simp: w' inv_pool_def)
    have 4: "inv_count w'" using cnt GoWatch by (simp add: w' inv_count_def len)
    have 5: "inv_cell w' k" if k: "k < length (heap w')" for k
    proof -
      from k have k': "k < length (heap w)" by (simp add: w')
      with cells have c: "inv_cell w k" by simp
      have calls: "length (filter (call_of k) (goroutines w')) = length (filter (call_of k) ?gs)"
        using GoWatch by (simp add: w' len)
      have wpos: "0 < length (filter (watcher_of h) ?gs)"
        by (rule length_filter_pos [OF i]) (simp add: GoWatch)
      have watch: "length (filter (watcher_of k) (goroutines w')) = length (filter (watcher_of k) ?gs)"
        using GoWatch wpos by (auto simp: w' len)
      have mark: "(\<exists>g \<in> set (goroutines w'). marker_of k g) \<longrightarrow>
          k = h \<or> (\<exists>g \<in> set ?gs. marker_of k g)"
        using sub by (auto simp: w')
      from c calls watch mark h show ?thesis by (auto simp: inv_cell_def w')
    qed
    show ?thesis unfolding invariant_def using 1 2 3 4 5 by blast
  next
    case (GoMark h)
    note W = run_mark [OF i GoMark r]
    note h = W(1,2) and w' = W(3)
    have 1: "inv_bus w'" using bus by (simp add: w' inv_bus_def)
    have 2: "inv_table w'" using tbl by (simp add: w' inv_table_def)
    have 3: "inv_pool w'" using pool sub by (auto simp: w' inv_pool_def)
    have 4: "inv_count w'" using cnt GoMark by (simp add: w' inv_count_def len)
    have 5: "inv_cell w' k" if k: "k < length (heap w')" for k
    proof -
      from k have k': "k < length (heap w)" by (simp add: w')
      with cells have c: "inv_cell w k" by simp
      have calls: "length (filter (call_of k) (goroutines w')) = length (filter (call_of k) ?gs)"
        using GoMark by (simp add: w' len)
      have watch: "length (filter (watcher_of k) (goroutines w')) =
          length (filter (watcher_of k) ?gs) - (if k = h then 1 else 0)"
        using GoMark by (auto simp: w' len)
      have mark: "(\<exists>g \<in> set (goroutines w'). marker_of k g) \<longrightarrow> (\<exists>g \<in> set ?gs. marker_of k g)"
        using sub by (auto simp: w')
      have m: "\<exists>g \<in> set ?gs. marker_of h g"
        using i GoMark by (metis marker_of.simps(1) nth_mem)
      show ?thesis
      proof (cases "k = h")
        case True
        with c m calls watch h show ?thesis by (auto simp: inv_cell_def w')
      next
        case False
        with c calls watch mark k' show ?thesis by (auto simp: inv_cell_def w')
      qed
    qed
    show ?thesis unfolding invariant_def using 1 2 3 4 5 by blast
  qed
qed

lemma invariant_step:
  assumes "invariant w" and "mem_inv extra w" and "step w w'"
  shows "invariant w'"
  using assms(3)
proof cases
  case (s_Register ls)
  with assms show ?thesis by (simp add: invariant_RegisterListener)
next
  case (s_Dispatch e h)
  with assms show ?thesis by (blast intro: invariant_Dispatch)
next
  case s_Clear
  from ClearErrors_effect(5,6) [OF assms(2)] assms(1) show ?thesis
    unfolding s_Clear by (rule quiet_invariant)
next
  case s_GetErrors
  from GetErrors_effect(6) [OF assms(2)] assms(1) show ?thesis
    unfolding s_GetErrors by (auto simp: invariant_arrays)
next
  case (s_HandleGetErrors h s)
  then have "h < length (heap w)" by (simp add: DispatchHandle_GetErrors_def split: if_splits)
  from DispatchHandle_GetErrors_effect [OF assms(2) this] s_HandleGetErrors assms(1)
  show ?thesis by (auto simp: invariant_arrays)
next
  case (s_Run i)
  with assms show ?thesis by (blast intro: invariant_run)
qed

lemma map_update_same: "(map f xs)[i := f (xs ! i)] = map f xs"
  by (cases "i < length xs") (auto simp: list_eq_iff_nth_eq nth_list_update)

lemma mem_inv_tail: "mem_inv (c # extra) w \<Longrightarrow> mem_inv extra w"
  by (auto simp: mem_inv_def mem_ok_def)

text \<open>No step touches a slice that a caller holds.\<close>

lemma mem_step:
  assumes inv: "invariant w" and m: "mem_inv extra w" and s: "step w w'"
  shows "mem_inv extra w' \<and> (\<forall>r \<in> set extra. read_slice r (arrays w') = read_slice r (arrays w))"
  using s
proof cases
  case (s_Register ls)
  with m RegisterListener_frame [of ls w] show ?thesis by (simp add: mem_inv_def logs_def)
next
  case (s_Dispatch e h)
  from inv have bus: "inv_bus w" and "inv_table w" "inv_count w" by (simp_all add: invariant_def)
  then have "0 \<le> asyncCount_of (ge_asyncListeners (ge w)) (Name e)" "0 \<le> ge_wg (ge w)"
    by (simp_all add: inv_table_def inv_count_def)
  from Dispatch_effect [OF bus this m] s_Dispatch show ?thesis by auto
next
  case s_Clear
  with ClearErrors_effect(1,2) [OF m] show ?thesis by simp
next
  case s_GetErrors
  with GetErrors_effect(1,3) [OF m] show ?thesis by (auto dest: mem_inv_tail)
next
  case (s_HandleGetErrors h s)
  then have "h < length (heap w)" by (simp add: DispatchHandle_GetErrors_def split: if_splits)
  from DispatchHandle_GetErrors_effect [OF m this] s_HandleGetErrors show ?thesis
    by (auto dest: mem_inv_tail)
next
  case (s_Run i)
  then have i: "i < length (goroutines w)" by (rule run_index)
  show ?thesis
  proof (cases "goroutines w ! i")
    case (GoCall fn args)
    from run_call [OF inv m i GoCall] s_Run obtain l h e w1 where
      a: "recorded extra h (failure_of l e) w w1"
      and w': "w' = w1\<lparr>ge := (ge w1)\<lparr>ge_wg := ge_wg (ge w1) - 1\<rparr>,
                heap := (heap w1)[h := (heap w1 ! h)\<lparr>dh_wg := dh_wg (heap w1 ! h) - 1\<rparr>],
                trace := trace w1 @ [WgAdd Global (- 1), WgAdd (OfHandle h) (- 1)]\<rparr>"
      by auto
    have "logs w' = logs w1" by (simp add: w' logs_def map_update map_update_same)
    with a show ?thesis by (simp add: recorded_def mem_inv_def w')
  next
    case (GoWatch h)
    from run_watch(3) [OF i GoWatch s_Run] m show ?thesis by (simp add: mem_inv_def logs_def)
  next
    case (GoMark h)
    from run_mark(3) [OF i GoMark s_Run] m show ?thesis
      by (simp add: mem_inv_def logs_def map_update map_update_same)
  qed
qed

lemma reachable_invariant: "reachable w \<Longrightarrow> invariant w \<and> mem_inv [] w"
proof (induction rule: reachable.induct)
  case r_New
  show ?case by (simp add: invariant_New mem_inv_New)
next
  case (r_step w w')
  then show ?case by (blast intro: invariant_step dest: mem_step)
qed


section \<open>The observations and the logs\<close>

lemma failures_of_handle_append:
  "failures_of_handle k (tr @ tr') = failures_of_handle k tr @ failures_of_handle k tr'"
  by (simp add: failures_of_handle_def)

lemma all_failures_append: "all_failures (tr @ tr') = all_failures tr @ all_failures tr'"
  by (simp add: all_failures_def)

lemma since_clear_append:
  assumes "\<forall>ob \<in> set tr'. \<not> is_clear ob"
  shows "since_clear (tr @ tr') = since_clear tr @ tr'"
proof -
  have "takeWhile (\<lambda>ob. \<not> is_clear ob) (rev tr' @ rev tr) =
      rev tr' @ takeWhile (\<lambda>ob. \<not> is_clear ob) (rev tr)"
    by (rule takeWhile_append2) (use assms in auto)
  then show ?thesis by (simp add: since_clear_def)
qed

lemma since_clear_cleared: "since_clear (tr @ [ErrorsCleared]) = []"
  by (simp add: since_clear_def)

lemma failures_since_clear_append:
  "\<forall>ob \<in> set tr'. \<not> is_clear ob \<Longrightarrow>
   failures_since_clear (tr @ tr') = failures_since_clear tr @ all_failures tr'"
  by (simp add: failures_since_clear_def since_clear_append all_failures_append)

lemma handler_obs_props:
  shows "failures_of_handle k (handler_obs h l e) = (if k = h then failure_of l e else [])"
    and "all_failures (handler_obs h l e) = failure_of l e"
    and "\<forall>ob \<in> set (handler_obs h l e). \<not> is_clear ob \<and> \<not> is_WgAdd ob \<and> \<not> closed_of k ob"
    and "h < n \<Longrightarrow> \<forall>ob \<in> set (handler_obs h l e). obs_ok n ob"
  by (auto simp: handler_obs_def failures_of_handle_def all_failures_def failure_of_def
      obs_ok_def split: option.splits)

lemma sync_Cons:
  shows "sync_obs h e (eh # ehs) =
           (if async eh then [] else handler_obs h (listener_of (callBack eh)) e) @ sync_obs h e ehs"
    and "sync_failures e (eh # ehs) =
           (if async eh then [] else failure_of (listener_of (callBack eh)) e) @ sync_failures e ehs"
  by (simp_all add: sync_obs_def sync_failures_def)

lemma sync_Nil: "sync_obs h e [] = []" "sync_failures e [] = []"
  by (simp_all add: sync_obs_def sync_failures_def)

lemma failures_nil: "failures_of_handle k [] = []" "all_failures [] = []"
  by (simp_all add: failures_of_handle_def all_failures_def)

lemma sync_obs_props:
  shows "failures_of_handle k (sync_obs h e ehs) = (if k = h then sync_failures e ehs else [])"
    and "all_failures (sync_obs h e ehs) = sync_failures e ehs"
    and "\<forall>ob \<in> set (sync_obs h e ehs). \<not> is_clear ob \<and> \<not> is_WgAdd ob \<and> \<not> closed_of k ob"
    and "h < n \<Longrightarrow> \<forall>ob \<in> set (sync_obs h e ehs). obs_ok n ob"
proof -
  note nil = failures_nil
  show "failures_of_handle k (sync_obs h e ehs) = (if k = h then sync_failures e ehs else [])"
    by (induction ehs)
      (simp_all add: sync_Nil sync_Cons failures_of_handle_append handler_obs_props(1) nil)
  show "all_failures (sync_obs h e ehs) = sync_failures e ehs"
    by (induction ehs)
      (simp_all add: sync_Nil sync_Cons all_failures_append handler_obs_props(2) nil)
  show "\<forall>ob \<in> set (sync_obs h e ehs). \<not> is_clear ob \<and> \<not> is_WgAdd ob \<and> \<not> closed_of k ob"
    using handler_obs_props(3) by (induction ehs) (simp_all add: sync_Nil sync_Cons ball_Un)
  show "\<forall>ob \<in> set (sync_obs h e ehs). obs_ok n ob" if "h < n"
    using handler_obs_props(4) [OF that] by (induction ehs) (simp_all add: sync_Nil sync_Cons ball_Un)
qed

lemma dispatch_obs_props:
  shows "failures_of_handle k (dispatch_obs c h e w) =
           (if k = h then sync_failures e (subscribers (Name e) w) else [])"
    and "all_failures (dispatch_obs c h e w) = sync_failures e (subscribers (Name e) w)"
    and "\<forall>ob \<in> set (dispatch_obs c h e w). \<not> is_clear ob \<and> \<not> closed_of k ob"
    and "\<forall>ob \<in> set (dispatch_obs c h e w). obs_ok (Suc h) ob"
proof -
  have split: "dispatch_obs c h e w =
      ((if 0 < c then [WgAdd Global c, WgAdd (OfHandle h) c] else []) @
       [Published (Name e) [ArgHandle h, ArgEvent e]]) @ sync_obs h e (subscribers (Name e) w)"
    by (simp add: dispatch_obs_def)
  show "failures_of_handle k (dispatch_obs c h e w) =
           (if k = h then sync_failures e (subscribers (Name e) w) else [])"
    unfolding split failures_of_handle_append sync_obs_props(1)
    by (auto simp: failures_of_handle_def)
  show "all_failures (dispatch_obs c h e w) = sync_failures e (subscribers (Name e) w)"
    unfolding split all_failures_append sync_obs_props(2)
    by (auto simp: all_failures_def)
  show "\<forall>ob \<in> set (dispatch_obs c h e w). \<not> is_clear ob \<and> \<not> closed_of k ob"
    using sync_obs_props(3) [of h e "subscribers (Name e) w" k] by (auto simp: dispatch_obs_def)
  show "\<forall>ob \<in> set (dispatch_obs c h e w). obs_ok (Suc h) ob"
    using sync_obs_props(4) [of h "Suc h" e "subscribers (Name e) w"]
    by (auto simp: dispatch_obs_def obs_ok_def)
qed

lemma obs_ok_mono: "obs_ok n ob \<Longrightarrow> n \<le> m \<Longrightarrow> obs_ok m ob"
  by (auto simp: obs_ok_def)

lemma obs_ok_fresh:
  assumes "\<forall>ob \<in> set tr. obs_ok n ob" and "n \<le> h"
  shows "filter (closed_of h) tr = []" and "failures_of_handle h tr = []"
proof -
  have "\<not> closed_of h ob \<and> filter (\<lambda>p. fst p = h) (obs_failures ob) = []"
    if "ob \<in> set tr" for ob
  proof -
    from that assms have "obs_ok n ob" by blast
    with assms(2) show ?thesis by (cases ob) (auto simp: filter_empty_conv obs_ok_def)
  qed
  then show "filter (closed_of h) tr = []" "failures_of_handle h tr = []"
    by (auto simp: filter_empty_conv failures_of_handle_def)
qed

lemma inv_obs_New: "inv_trace New \<and> inv_logs New"
  by (simp add: inv_trace_def inv_logs_def New_def make_slice_def global_log_def read_slice_def
      failures_since_clear_def since_clear_def all_failures_def)

lemma obs_step:
  assumes inv: "invariant w" and m: "mem_inv [] w" and t: "inv_trace w" and l: "inv_logs w"
    and s: "step w w'"
  shows "inv_trace w' \<and> inv_logs w'"
proof -
  from t have ok: "\<forall>ob \<in> set (trace w). obs_ok (length (heap w)) ob"
    and cl: "\<forall>h < length (heap w).
        length (filter (closed_of h) (trace w)) = (if dh_done (heap w ! h) then 1 else 0)"
    by (simp_all add: inv_trace_def)
  from l have gl: "global_log w = failures_since_clear (trace w)"
    and hl: "\<forall>h < length (heap w). handle_log h w = failures_of_handle h (trace w)"
    by (simp_all add: inv_logs_def)
  from s show ?thesis
  proof cases
    case (s_Register ls)
    with t l RegisterListener_frame [of ls w] show ?thesis
      by (simp add: inv_trace_def inv_logs_def global_log_def handle_log_def)
  next
    case (s_Dispatch e h)
    let ?h = "length (heap w)"
    let ?n = "asyncCount_of (ge_asyncListeners (ge w)) (Name e)"
    let ?new = "dispatch_obs ?n ?h e w"
    from inv have bus: "inv_bus w" and "inv_table w" "inv_count w" by (simp_all add: invariant_def)
    then have "0 \<le> ?n" "0 \<le> ge_wg (ge w)" by (simp_all add: inv_table_def inv_count_def)
    from Dispatch_effect [OF bus this m] s_Dispatch have
      E: "length (heap w') = Suc ?h"
        "\<forall>k < ?h. dh_done (heap w' ! k) = dh_done (heap w ! k)"
        "\<not> dh_done (heap w' ! ?h)"
        "global_log w' = global_log w @ sync_failures e (subscribers (Name e) w)"
        "\<forall>k < ?h. handle_log k w' = handle_log k w"
        "handle_log ?h w' = sync_failures e (subscribers (Name e) w)"
        "trace w' = trace w @ ?new"
      by auto
    note P = dispatch_obs_props
    note fresh = obs_ok_fresh [OF ok order_refl]
    have 1: "\<forall>ob \<in> set (trace w'). obs_ok (length (heap w')) ob"
      using ok P(4) by (auto simp: E(1,7) intro: obs_ok_mono)
    have 2: "length (filter (closed_of k) (trace w')) = (if dh_done (heap w' ! k) then 1 else 0)"
      if "k < length (heap w')" for k
    proof -
      have none: "filter (closed_of k) ?new = []" using P(3) by (auto simp: filter_empty_conv)
      show ?thesis
      proof (cases "k = ?h")
        case True
        with fresh(1) E(3) none show ?thesis by (simp add: E(7))
      next
        case False
        with that E(1) have "k < ?h" by simp
        with cl E(2) none show ?thesis by (simp add: E(7))
      qed
    qed
    have 3: "global_log w' = failures_since_clear (trace w')"
      using gl P(2,3) by (simp add: E(4,7) failures_since_clear_append)
    have 4: "handle_log k w' = failures_of_handle k (trace w')" if "k < length (heap w')" for k
    proof (cases "k = ?h")
      case True
      with fresh(2) P(1) show ?thesis by (simp add: E(6,7) failures_of_handle_append)
    next
      case False
      with that E(1) have "k < ?h" by simp
      with hl E(5) P(1) False show ?thesis by (simp add: E(7) failures_of_handle_append)
    qed
    from 1 2 3 4 show ?thesis by (simp add: inv_trace_def inv_logs_def)
  next
    case s_Clear
    note C = ClearErrors_effect [OF m]
    from C(5) have q: "length (heap w') = length (heap w)"
      "\<forall>k < length (heap w). dh_done (heap w' ! k) = dh_done (heap w ! k)"
      by (simp_all add: s_Clear quiet_def)
    have "inv_trace w'"
      using ok cl q C(7) by (simp add: inv_trace_def s_Clear obs_ok_def)
    moreover have "inv_logs w'"
      using hl q C(3,4,7)
      by (simp add: inv_logs_def s_Clear failures_since_clear_def since_clear_cleared
          failures_nil failures_of_handle_append) (simp add: failures_of_handle_def)
    ultimately show ?thesis ..
  next
    case s_GetErrors
    note G = GetErrors_effect [OF m]
    from G(6) obtain A where A: "w' = w\<lparr>arrays := A\<rparr>" unfolding s_GetErrors by blast
    have "inv_trace w'" using t by (simp add: A inv_trace_def)
    moreover have "inv_logs w'"
      using l G(4,5) unfolding s_GetErrors [symmetric] by (simp add: inv_logs_def) (simp add: A)
    ultimately show ?thesis ..
  next
    case (s_HandleGetErrors h c)
    then have "h < length (heap w)" by (simp add: DispatchHandle_GetErrors_def split: if_splits)
    from DispatchHandle_GetErrors_effect [OF m this] s_HandleGetErrors obtain A where
      A: "w' = w\<lparr>arrays := A\<rparr>" "global_log w' = global_log w"
        "\<forall>k < length (heap w). handle_log k w' = handle_log k w"
      by auto
    have "inv_trace w'" using t by (simp add: A(1) inv_trace_def)
    moreover have "inv_logs w'" using l A(2,3) by (simp add: inv_logs_def) (simp add: A(1))
    ultimately show ?thesis ..
  next
    case (s_Run i)
    then have i: "i < length (goroutines w)" by (rule run_index)
    show ?thesis
    proof (cases "goroutines w ! i")
      case (GoCall fn args)
      from run_call [OF inv m i GoCall] s_Run obtain l h e w1 where
        a: "h < length (heap w)" "recorded [] h (failure_of l e) w w1"
          "trace w1 = trace w @ handler_obs h l e"
        and w': "w' = w1\<lparr>ge := (ge w1)\<lparr>ge_wg := ge_wg (ge w1) - 1\<rparr>,
                  heap := (heap w1)[h := (heap w1 ! h)\<lparr>dh_wg := dh_wg (heap w1 ! h) - 1\<rparr>],
                  trace := trace w1 @ [WgAdd Global (- 1), WgAdd (OfHandle h) (- 1)]\<rparr>"
        by auto
      let ?new = "handler_obs h l e @ [WgAdd Global (- 1), WgAdd (OfHandle h) (- 1)]"
      from a(2) have q: "length (heap w1) = length (heap w)"
        "\<forall>k < length (heap w). dh_done (heap w1 ! k) = dh_done (heap w ! k)"
        and g1: "global_log w1 = global_log w @ failure_of l e"
        and h1: "\<forall>k < length (heap w). handle_log k w1 =
                   handle_log k w @ (if k = h then failure_of l e else [])"
        by (simp_all add: recorded_def quiet_def)
      have tr: "trace w' = trace w @ ?new" by (simp add: w' a(3))
      have len: "length (heap w') = length (heap w)" by (simp add: w' q(1))
      have dn: "\<forall>k < length (heap w). dh_done (heap w' ! k) = dh_done (heap w ! k)"
        using q a(1) by (auto simp: w' nth_list_update)
      have g': "global_log w' = global_log w1" by (simp add: w' global_log_def)
      have h': "\<forall>k < length (heap w). handle_log k w' = handle_log k w1"
        using q(1) a(1) by (auto simp: w' handle_log_def nth_list_update)
      note P = handler_obs_props
      have new: "\<forall>ob \<in> set ?new. \<not> is_clear ob \<and> obs_ok (length (heap w)) ob"
        "all_failures ?new = failure_of l e"
        "\<And>k. failures_of_handle k ?new = (if k = h then failure_of l e else [])"
        "\<And>k. filter (closed_of k) ?new = []"
        using P(3) P(4) [OF a(1)] a(1)
        by (auto simp: all_failures_append failures_of_handle_append P(1,2) filter_empty_conv
            obs_ok_def)
          (simp_all add: all_failures_def failures_of_handle_def)
      have "inv_trace w'"
        using ok cl new(1,4) dn by (auto simp: inv_trace_def tr len)
      moreover have "inv_logs w'"
        using gl hl g1 h1 g' h' new(1,2,3)
        by (simp add: inv_logs_def tr len failures_since_clear_append failures_of_handle_append)
      ultimately show ?thesis ..
    next
      case (GoWatch h)
      from run_watch(3) [OF i GoWatch s_Run] t l show ?thesis
        by (simp add: inv_trace_def inv_logs_def global_log_def handle_log_def)
    next
      case (GoMark h)
      note W = run_mark [OF i GoMark s_Run]
      have tr: "trace w' = trace w @ [Closed h]" and len: "length (heap w') = length (heap w)"
        by (simp_all add: W(3))
      have dn: "\<forall>k < length (heap w). dh_done (heap w' ! k) = (k = h \<or> dh_done (heap w ! k))"
        using W(1) by (auto simp: W(3) nth_list_update)
      have g': "global_log w' = global_log w" by (simp add: W(3) global_log_def)
      have h': "\<forall>k < length (heap w). handle_log k w' = handle_log k w"
        using W(1) by (auto simp: W(3) handle_log_def nth_list_update)
      have "inv_trace w'"
        using ok cl dn W(1,2) by (auto simp: inv_trace_def tr len obs_ok_def)
      moreover have "inv_logs w'"
        using gl hl g' h'
        by (simp add: inv_logs_def tr len failures_since_clear_append failures_of_handle_append)
          (simp add: all_failures_def failures_of_handle_def)
      ultimately show ?thesis ..
    qed
  qed
qed

lemma reachable_obs: "reachable w \<Longrightarrow> inv_trace w \<and> inv_logs w"
proof (induction rule: reachable.induct)
  case r_New
  show ?case by (rule inv_obs_New)
next
  case (r_step w w')
  from r_step.hyps(1) have "invariant w" "mem_inv [] w" by (simp_all add: reachable_invariant)
  with r_step obs_step [of w w'] show ?case by blast
qed


section \<open>Goroutines that run during a call of Dispatch\<close>

lemma invariant_runnable: "invariant w \<Longrightarrow> runnable w"
proof -
  assume inv: "invariant w"
  then have pool: "inv_pool w" and cnt: "inv_count w"
    and cells: "\<forall>h < length (heap w). inv_cell w h"
    by (simp_all add: invariant_def)
  have 1: "0 < ge_wg (ge w)" if "g \<in> set (goroutines w)" "is_call g" for g
  proof -
    from that have "filter is_call (goroutines w) \<noteq> []" by (auto simp: filter_empty_conv)
    with cnt show ?thesis by (simp add: inv_count_def)
  qed
  have 2: "0 < dh_wg (heap w ! k)"
    if "g \<in> set (goroutines w)" "k < length (heap w)" "call_of k g" for g k
  proof -
    from that have "filter (call_of k) (goroutines w) \<noteq> []" by (auto simp: filter_empty_conv)
    with cells that(2) show ?thesis by (simp add: inv_cell_def)
  qed
  from pool 1 2 show ?thesis unfolding runnable_def by blast
qed

lemma inflight_runnable: "inflight h dg dh w \<Longrightarrow> runnable w"
proof -
  assume f: "inflight h dg dh w"
  then have pool: "inv_pool w"
    and cnt: "ge_wg (ge w) = int (length (filter is_call (goroutines w))) + dg"
    and cells: "\<forall>k < length (heap w). k \<noteq> h \<longrightarrow> inv_cell w k"
    and own: "dh_wg (heap w ! h) = int (length (filter (call_of h) (goroutines w))) + dh"
    and nn: "0 \<le> dg" "0 \<le> dh"
    by (simp_all add: inflight_def)
  have 1: "0 < ge_wg (ge w)" if "g \<in> set (goroutines w)" "is_call g" for g
  proof -
    from that have "filter is_call (goroutines w) \<noteq> []" by (auto simp: filter_empty_conv)
    then have "0 < length (filter is_call (goroutines w))" by simp
    with cnt nn show ?thesis by linarith
  qed
  have 2: "0 < dh_wg (heap w ! k)"
    if "g \<in> set (goroutines w)" "k < length (heap w)" "call_of k g" for g k
  proof -
    from that have ne: "filter (call_of k) (goroutines w) \<noteq> []" by (auto simp: filter_empty_conv)
    show ?thesis
    proof (cases "k = h")
      case True
      from ne have "0 < int (length (filter (call_of h) (goroutines w)))" using True by simp
      with own nn show ?thesis unfolding True by linarith
    next
      case False
      with cells that(2) have "inv_cell w k" by simp
      with ne show ?thesis by (simp add: inv_cell_def)
    qed
  qed
  from pool 1 2 show ?thesis unfolding runnable_def by blast
qed

lemma run_call_gen:
  assumes rn: "runnable w" and m: "mem_inv extra w" and i: "i < length (goroutines w)"
    and g: "goroutines w ! i = GoCall fn args"
  shows "\<exists>l h e w1. fn = AsyncHandler l \<and> args = [ArgHandle h, ArgEvent e] \<and>
           h < length (heap w) \<and> ListenerEventName l = Name e \<and>
           handler l args (w\<lparr>goroutines := remove_nth i (goroutines w)\<rparr>) = Inr w1 \<and>
           recorded extra h (failure_of l e) w w1 \<and>
           goroutines w1 = remove_nth i (goroutines w) \<and>
           trace w1 = trace w @ handler_obs h l e \<and>
           run i w =
             Some (Inr (w1\<lparr>ge := (ge w1)\<lparr>ge_wg := ge_wg (ge w1) - 1\<rparr>,
                    heap := (heap w1)[h := (heap w1 ! h)\<lparr>dh_wg := dh_wg (heap w1 ! h) - 1\<rparr>],
                    trace := trace w1 @ [WgAdd Global (- 1), WgAdd (OfHandle h) (- 1)]\<rparr>))"
proof -
  from rn have pool: "inv_pool w" by (simp add: runnable_def)
  from i g have mem: "GoCall fn args \<in> set (goroutines w)" by (metis nth_mem)
  with pool have "gor_ok (length (heap w)) (GoCall fn args)" by (simp add: inv_pool_def)
  then obtain l h e where a: "fn = AsyncHandler l" "args = [ArgHandle h, ArgEvent e]"
    "h < length (heap w)" and nm: "ListenerEventName l = Name e"
    by (blast dest: gor_ok_call)
  let ?w0 = "w\<lparr>goroutines := remove_nth i (goroutines w)\<rparr>"
  from rn have R: "\<forall>g \<in> set (goroutines w). is_call g \<longrightarrow> 0 < ge_wg (ge w)"
    "\<forall>g \<in> set (goroutines w). \<forall>k < length (heap w). call_of k g \<longrightarrow> 0 < dh_wg (heap w ! k)"
    by (simp_all add: runnable_def)
  from R(1) [rule_format, OF mem] have gpos: "0 < ge_wg (ge ?w0)" by simp
  from R(2) [rule_format, OF mem a(3)] have cpos: "0 < dh_wg (heap ?w0 ! h)" by (simp add: a)
  have hv: "h < length (heap ?w0)" using a(3) by simp
  have m0: "mem_inv extra ?w0" using m by (simp add: mem_inv_def logs_def)
  from asyncHandler_effect [OF m0 hv gpos cpos, of l e "[]"] obtain w1 where
    w1: "handler l [ArgHandle h, ArgEvent e] ?w0 = Inr w1"
      "recorded extra h (failure_of l e) ?w0 w1"
      "goroutines w1 = goroutines ?w0" "trace w1 = trace ?w0 @ handler_obs h l e"
      "asyncHandler l [ArgHandle h, ArgEvent e] ?w0 =
         Inr (w1\<lparr>ge := (ge w1)\<lparr>ge_wg := ge_wg (ge w1) - 1\<rparr>,
                heap := (heap w1)[h := (heap w1 ! h)\<lparr>dh_wg := dh_wg (heap w1 ! h) - 1\<rparr>],
                trace := trace w1 @ [WgAdd Global (- 1), WgAdd (OfHandle h) (- 1)]\<rparr>)"
    by blast
  from w1(2) have r: "recorded extra h (failure_of l e) w w1"
    by (simp add: recorded_def quiet_def global_log_def handle_log_def)
  have "run i w = Some (asyncHandler l [ArgHandle h, ArgEvent e] ?w0)"
    using i g a by (simp add: run_def Let_def)
  with a nm w1 r show ?thesis by simp
qed

text \<open>What the run of a started goroutine does to the world.\<close>

lemma run_effect:
  assumes rn: "runnable w" and m: "mem_inv extra w" and r: "run i w = Some (Inr w')"
  shows "i < length (goroutines w)"
    and "trace w' = trace w @ gor_obs (goroutines w ! i)"
    and "goroutines w' = remove_nth i (goroutines w) @ gor_next (goroutines w ! i)"
    and "length (heap w') = length (heap w)"
    and "ge_bus (ge w') = ge_bus (ge w)"
    and "ge_asyncListeners (ge w') = ge_asyncListeners (ge w)"
    and "mem_inv extra w'"
    and "\<forall>s \<in> set extra. read_slice s (arrays w') = read_slice s (arrays w)"
    and "ge_wg (ge w') = ge_wg (ge w) - (if is_call (goroutines w ! i) then 1 else 0)"
    and "\<forall>k < length (heap w). dh_wg (heap w' ! k) =
           dh_wg (heap w ! k) - (if call_of k (goroutines w ! i) then 1 else 0)"
    and "\<forall>k < length (heap w). dh_done (heap w' ! k) =
           (dh_done (heap w ! k) \<or> marker_of k (goroutines w ! i))"
proof -
  from r show i: "i < length (goroutines w)" by (rule run_index)
  let ?g = "goroutines w ! i"
  have "trace w' = trace w @ gor_obs ?g \<and>
    goroutines w' = remove_nth i (goroutines w) @ gor_next ?g \<and>
    length (heap w') = length (heap w) \<and> ge_bus (ge w') = ge_bus (ge w) \<and>
    ge_asyncListeners (ge w') = ge_asyncListeners (ge w) \<and> mem_inv extra w' \<and>
    (\<forall>s \<in> set extra. read_slice s (arrays w') = read_slice s (arrays w)) \<and>
    ge_wg (ge w') = ge_wg (ge w) - (if is_call ?g then 1 else 0) \<and>
    (\<forall>k < length (heap w). dh_wg (heap w' ! k) =
           dh_wg (heap w ! k) - (if call_of k ?g then 1 else 0)) \<and>
    (\<forall>k < length (heap w). dh_done (heap w' ! k) = (dh_done (heap w ! k) \<or> marker_of k ?g))"
  proof (cases ?g)
    case (GoCall fn args)
    from run_call_gen [OF rn m i GoCall] r obtain l h e w1 where
      a: "fn = AsyncHandler l" "args = [ArgHandle h, ArgEvent e]" "h < length (heap w)"
        "recorded extra h (failure_of l e) w w1" "goroutines w1 = remove_nth i (goroutines w)"
        "trace w1 = trace w @ handler_obs h l e"
      and w': "w' = w1\<lparr>ge := (ge w1)\<lparr>ge_wg := ge_wg (ge w1) - 1\<rparr>,
                heap := (heap w1)[h := (heap w1 ! h)\<lparr>dh_wg := dh_wg (heap w1 ! h) - 1\<rparr>],
                trace := trace w1 @ [WgAdd Global (- 1), WgAdd (OfHandle h) (- 1)]\<rparr>"
      by auto
    from a(4) have q: "quiet w w1" and m1: "mem_inv extra w1"
      and ex: "\<forall>s \<in> set extra. read_slice s (arrays w1) = read_slice s (arrays w)"
      by (simp_all add: recorded_def)
    have "logs w' = logs w1" by (simp add: w' logs_def map_update map_update_same)
    with m1 have 1: "mem_inv extra w'" by (simp add: mem_inv_def w')
    have 2: "\<forall>k < length (heap w). dh_wg (heap w' ! k) =
           dh_wg (heap w ! k) - (if call_of k ?g then 1 else 0)"
      using q a(3) by (auto simp: w' GoCall a(1,2) quiet_def nth_list_update)
    have 3: "\<forall>k < length (heap w). dh_done (heap w' ! k) = (dh_done (heap w ! k) \<or> marker_of k ?g)"
      using q a(3) by (auto simp: w' GoCall quiet_def nth_list_update)
    from q a 1 2 3 ex show ?thesis by (simp add: w' GoCall quiet_def)
  next
    case (GoWatch h)
    from run_watch(3) [OF i GoWatch r] m show ?thesis
      by (simp add: GoWatch mem_inv_def logs_def)
  next
    case (GoMark h)
    note W = run_mark [OF i GoMark r]
    have "logs w' = logs w" by (simp add: W(3) logs_def map_update map_update_same)
    with m have 1: "mem_inv extra w'" by (simp add: mem_inv_def W(3))
    have 2: "\<forall>k < length (heap w). dh_done (heap w' ! k) = (dh_done (heap w ! k) \<or> marker_of k ?g)"
      using W(1) by (auto simp: W(3) GoMark nth_list_update)
    have 3: "\<forall>k < length (heap w). dh_wg (heap w' ! k) =
           dh_wg (heap w ! k) - (if call_of k ?g then 1 else 0)"
      using W(1) by (auto simp: W(3) GoMark nth_list_update)
    from 1 2 3 show ?thesis by (simp add: W(3) GoMark)
  qed
  then show "trace w' = trace w @ gor_obs ?g"
    and "goroutines w' = remove_nth i (goroutines w) @ gor_next ?g"
    and "length (heap w') = length (heap w)" and "ge_bus (ge w') = ge_bus (ge w)"
    and "ge_asyncListeners (ge w') = ge_asyncListeners (ge w)" and "mem_inv extra w'"
    and "\<forall>s \<in> set extra. read_slice s (arrays w') = read_slice s (arrays w)"
    and "ge_wg (ge w') = ge_wg (ge w) - (if is_call ?g then 1 else 0)"
    and "\<forall>k < length (heap w). dh_wg (heap w' ! k) =
           dh_wg (heap w ! k) - (if call_of k ?g then 1 else 0)"
    and "\<forall>k < length (heap w). dh_done (heap w' ! k) = (dh_done (heap w ! k) \<or> marker_of k ?g)"
    by blast+
qed

lemma run_logs:
  assumes rn: "runnable w" and m: "mem_inv extra w" and r: "run i w = Some (Inr w')"
  shows "global_log w' = global_log w @ arrived Global (gor_obs (goroutines w ! i))"
    and "\<forall>k < length (heap w). handle_log k w' =
           handle_log k w @ arrived (OfHandle k) (gor_obs (goroutines w ! i))"
    and "all_failures (gor_obs (goroutines w ! i)) = arrived Global (gor_obs (goroutines w ! i))"
    and "\<forall>k. failures_of_handle k (gor_obs (goroutines w ! i)) =
           arrived (OfHandle k) (gor_obs (goroutines w ! i))"
proof -
  from r have i: "i < length (goroutines w)" by (rule run_index)
  let ?g = "goroutines w ! i"
  have "global_log w' = global_log w @ arrived Global (gor_obs ?g) \<and>
    (\<forall>k < length (heap w). handle_log k w' = handle_log k w @ arrived (OfHandle k) (gor_obs ?g)) \<and>
    all_failures (gor_obs ?g) = arrived Global (gor_obs ?g) \<and>
    (\<forall>k. failures_of_handle k (gor_obs ?g) = arrived (OfHandle k) (gor_obs ?g))"
  proof (cases ?g)
    case (GoCall fn args)
    from run_call_gen [OF rn m i GoCall] r obtain l h e w1 where
      a: "fn = AsyncHandler l" "args = [ArgHandle h, ArgEvent e]" "h < length (heap w)"
        "recorded extra h (failure_of l e) w w1"
      and w': "w' = w1\<lparr>ge := (ge w1)\<lparr>ge_wg := ge_wg (ge w1) - 1\<rparr>,
                heap := (heap w1)[h := (heap w1 ! h)\<lparr>dh_wg := dh_wg (heap w1 ! h) - 1\<rparr>],
                trace := trace w1 @ [WgAdd Global (- 1), WgAdd (OfHandle h) (- 1)]\<rparr>"
      by auto
    from a(4) have l1: "length (heap w1) = length (heap w)"
      and g1: "global_log w1 = global_log w @ failure_of l e"
      and h1: "\<forall>k < length (heap w). handle_log k w1 =
                 handle_log k w @ (if k = h then failure_of l e else [])"
      by (simp_all add: recorded_def quiet_def)
    have g': "global_log w' = global_log w1" by (simp add: w' global_log_def)
    have h': "\<forall>k < length (heap w). handle_log k w' = handle_log k w1"
      using l1 a(3) by (auto simp: w' handle_log_def nth_list_update)
    have ar: "arrived Global (gor_obs ?g) = failure_of l e"
      "\<And>k. arrived (OfHandle k) (gor_obs ?g) = (if k = h then failure_of l e else [])"
      "all_failures (gor_obs ?g) = failure_of l e"
      "\<And>k. failures_of_handle k (gor_obs ?g) = (if k = h then failure_of l e else [])"
      by (auto simp: GoCall a(1,2) arrived_def handler_obs_def failure_of_def all_failures_def
          failures_of_handle_def split: option.splits)
    from g1 h1 g' h' show ?thesis by (simp add: ar)
  next
    case (GoWatch h)
    from run_watch(3) [OF i GoWatch r] show ?thesis
      by (simp add: GoWatch arrived_def global_log_def handle_log_def all_failures_def
          failures_of_handle_def)
  next
    case (GoMark h)
    note W = run_mark [OF i GoMark r]
    have "\<forall>k < length (heap w). handle_log k w' = handle_log k w"
      using W(1) by (auto simp: W(3) handle_log_def nth_list_update)
    then show ?thesis
      by (simp add: GoMark arrived_def all_failures_def failures_of_handle_def)
        (simp add: W(3) global_log_def)
  qed
  then show "global_log w' = global_log w @ arrived Global (gor_obs ?g)"
    and "\<forall>k < length (heap w). handle_log k w' = handle_log k w @ arrived (OfHandle k) (gor_obs ?g)"
    and "all_failures (gor_obs ?g) = arrived Global (gor_obs ?g)"
    and "\<forall>k. failures_of_handle k (gor_obs ?g) = arrived (OfHandle k) (gor_obs ?g)"
    by blast+
qed

lemma run_enabled:
  assumes "run i w = Some (Inr w')"
  shows "\<forall>k. marker_of k (goroutines w ! i) \<longrightarrow> k < length (heap w) \<and> \<not> dh_done (heap w ! k)"
    and "\<forall>k. goroutines w ! i = GoWatch k \<longrightarrow> k < length (heap w) \<and> dh_wg (heap w ! k) = 0"
proof -
  from assms have i: "i < length (goroutines w)" by (rule run_index)
  show "\<forall>k. marker_of k (goroutines w ! i) \<longrightarrow> k < length (heap w) \<and> \<not> dh_done (heap w ! k)"
  proof (intro allI impI)
    fix k assume "marker_of k (goroutines w ! i)"
    then have "goroutines w ! i = GoMark k" by (cases "goroutines w ! i") auto
    from run_mark(1,2) [OF i this assms] show "k < length (heap w) \<and> \<not> dh_done (heap w ! k)" ..
  qed
  show "\<forall>k. goroutines w ! i = GoWatch k \<longrightarrow> k < length (heap w) \<and> dh_wg (heap w ! k) = 0"
    using run_watch(1,2) [OF i _ assms] by blast
qed

lemma arrived_append: "arrived c (tr @ tr') = arrived c tr @ arrived c tr'"
  by (simp add: arrived_def)

lemma arrived_nil: "arrived c [] = []"
  by (simp add: arrived_def)

lemma handler_obs_arrived:
  shows "arrived Global (handler_obs h l e) = failure_of l e"
    and "arrived (OfHandle k) (handler_obs h l e) = (if k = h then failure_of l e else [])"
  by (auto simp: arrived_def handler_obs_def failure_of_def split: option.splits)

text \<open>The invariants of the observations when a step appends observations and cells.\<close>

lemma obs_extend:
  assumes t: "inv_trace w" and l: "inv_logs w" and a: "inv_arrival w"
    and len: "length (heap w') = length (heap w)"
    and tr: "trace w' = trace w @ x"
    and x: "\<forall>ob \<in> set x. \<not> is_clear ob \<and> obs_ok (length (heap w)) ob"
    and dn: "\<forall>k < length (heap w).
        (if dh_done (heap w' ! k) then 1 else 0) =
        (if dh_done (heap w ! k) then 1 else 0) + length (filter (closed_of k) x)"
    and gl: "global_log w' = global_log w @ arrived Global x"
    and hl: "\<forall>k < length (heap w). handle_log k w' = handle_log k w @ arrived (OfHandle k) x"
    and af: "all_failures x = arrived Global x"
    and fh: "\<forall>k. failures_of_handle k x = arrived (OfHandle k) x"
  shows "inv_trace w' \<and> inv_logs w' \<and> inv_arrival w'"
proof -
  from x have nc: "\<forall>ob \<in> set x. \<not> is_clear ob" by blast
  have 1: "inv_trace w'"
    using t x dn by (auto simp: inv_trace_def len tr)
  have 2: "inv_logs w'"
    using l gl hl af fh nc
    by (simp add: inv_logs_def len tr failures_since_clear_append failures_of_handle_append)
  have 3: "inv_arrival w'"
    using a gl hl nc by (simp add: inv_arrival_def len tr since_clear_append arrived_append)
  from 1 2 3 show ?thesis by blast
qed

lemma gor_obs_ok:
  assumes "gor_ok n g"
  shows "\<forall>ob \<in> set (gor_obs g). \<not> is_clear ob \<and> obs_ok n ob"
    and "filter (closed_of k) (gor_obs g) = (if marker_of k g then [Closed k] else [])"
    and "filter is_increment (gor_obs g) = []"
    and "filter is_publication (gor_obs g) = []"
    and "length (filter (invoked_with k) (gor_obs g)) = (if call_of k g then 1 else 0)"
proof -
  have "(\<forall>ob \<in> set (gor_obs g). \<not> is_clear ob \<and> obs_ok n ob) \<and>
    filter (closed_of k) (gor_obs g) = (if marker_of k g then [Closed k] else []) \<and>
    filter is_increment (gor_obs g) = [] \<and> filter is_publication (gor_obs g) = [] \<and>
    length (filter (invoked_with k) (gor_obs g)) = (if call_of k g then 1 else 0)"
  proof (cases g)
    case (GoCall fn args)
    with assms obtain l h e where a: "fn = AsyncHandler l" "args = [ArgHandle h, ArgEvent e]" "h < n"
      by (blast dest: gor_ok_call)
    show ?thesis
      using a(3) by (auto simp: GoCall a(1,2) handler_obs_def obs_ok_def split: option.splits)
  next
    case (GoWatch h)
    then show ?thesis by simp
  next
    case (GoMark h)
    with assms show ?thesis by (auto simp: obs_ok_def)
  qed
  then show "\<forall>ob \<in> set (gor_obs g). \<not> is_clear ob \<and> obs_ok n ob"
    and "filter (closed_of k) (gor_obs g) = (if marker_of k g then [Closed k] else [])"
    and "filter is_increment (gor_obs g) = []"
    and "filter is_publication (gor_obs g) = []"
    and "length (filter (invoked_with k) (gor_obs g)) = (if call_of k g then 1 else 0)"
    by blast+
qed

lemma run_obs:
  assumes rn: "runnable w" and m: "mem_inv [] w" and t: "inv_trace w" and l: "inv_logs w"
    and a: "inv_arrival w" and r: "run i w = Some (Inr w')"
  shows "inv_trace w' \<and> inv_logs w' \<and> inv_arrival w'"
proof -
  note E = run_effect [OF rn m r]
  note L = run_logs [OF rn m r]
  note N = run_enabled [OF r]
  let ?g = "goroutines w ! i"
  from rn E(1) have ok: "gor_ok (length (heap w)) ?g" by (simp add: runnable_def inv_pool_def)
  note O = gor_obs_ok [OF ok]
  have dn: "\<forall>k < length (heap w).
        (if dh_done (heap w' ! k) then 1 else 0) =
        (if dh_done (heap w ! k) then 1 else 0) + length (filter (closed_of k) (gor_obs ?g))"
    using E(11) N(1) by (auto simp: O(2))
  from obs_extend [OF t l a E(4) E(2) O(1) dn L(1) L(2) L(3) L(4)] show ?thesis .
qed

text \<open>Each handle's cell of the invariant is kept by the run of a goroutine.\<close>

lemma cell_run:
  assumes rn: "runnable w" and m: "mem_inv extra w" and r: "run i w = Some (Inr w')"
    and k: "k < length (heap w)" and c: "inv_cell w k"
  shows "inv_cell w' k"
proof -
  note E = run_effect [OF rn m r]
  note N = run_enabled [OF r]
  let ?gs = "goroutines w"
  let ?g = "?gs ! i"
  note i = E(1)
  note len = length_filter_remove_nth [OF i]
  note ilen = int_length_filter_remove_nth [OF i]
  have sub: "set (remove_nth i ?gs) \<subseteq> set ?gs" by (rule set_remove_nth)
  have mem: "?g \<in> set ?gs" using i by simp
  have wg: "dh_wg (heap w' ! k) = dh_wg (heap w ! k) - (if call_of k ?g then 1 else 0)"
    and dn: "dh_done (heap w' ! k) = (dh_done (heap w ! k) \<or> marker_of k ?g)"
    using E(10,11) k by simp_all
  from c have c1: "dh_wg (heap w ! k) = int (length (filter (call_of k) ?gs))"
    and c2: "length (filter (watcher_of k) ?gs) = (if dh_done (heap w ! k) then 0 else 1)"
    and c3: "(dh_done (heap w ! k) \<or> (\<exists>g \<in> set ?gs. marker_of k g)) \<longrightarrow> dh_wg (heap w ! k) = 0"
    unfolding inv_cell_def by blast+
  show ?thesis
  proof (cases ?g)
    case (GoCall fn args)
    have 1: "dh_wg (heap w' ! k) = int (length (filter (call_of k) (goroutines w')))"
      using wg c1 by (simp add: E(3) GoCall ilen)
    have 2: "length (filter (watcher_of k) (goroutines w')) = (if dh_done (heap w' ! k) then 0 else 1)"
      using dn c2 by (simp add: E(3) GoCall len)
    have 3: "(dh_done (heap w' ! k) \<or> (\<exists>g \<in> set (goroutines w'). marker_of k g)) \<longrightarrow>
        dh_wg (heap w' ! k) = 0"
    proof
      assume "dh_done (heap w' ! k) \<or> (\<exists>g \<in> set (goroutines w'). marker_of k g)"
      with dn sub have "dh_done (heap w ! k) \<or> (\<exists>g \<in> set ?gs. marker_of k g)"
        by (auto simp: E(3) GoCall)
      with c3 have z: "dh_wg (heap w ! k) = 0" by simp
      have "\<not> call_of k ?g"
      proof
        assume "call_of k ?g"
        with rn mem k have "0 < dh_wg (heap w ! k)" by (auto simp: runnable_def)
        with z show False by simp
      qed
      with wg z show "dh_wg (heap w' ! k) = 0" by simp
    qed
    from 1 2 3 show ?thesis by (simp add: inv_cell_def)
  next
    case (GoWatch h)
    from N(2) GoWatch have z: "dh_wg (heap w ! h) = 0" by simp
    have wpos: "0 < length (filter (watcher_of h) ?gs)"
      by (rule length_filter_pos [OF i]) (simp add: GoWatch)
    have 1: "dh_wg (heap w' ! k) = int (length (filter (call_of k) (goroutines w')))"
      using wg c1 by (simp add: E(3) GoWatch len)
    have 2: "length (filter (watcher_of k) (goroutines w')) = (if dh_done (heap w' ! k) then 0 else 1)"
      using dn c2 wpos by (auto simp: E(3) GoWatch len)
    have 3: "(dh_done (heap w' ! k) \<or> (\<exists>g \<in> set (goroutines w'). marker_of k g)) \<longrightarrow>
        dh_wg (heap w' ! k) = 0"
    proof
      assume "dh_done (heap w' ! k) \<or> (\<exists>g \<in> set (goroutines w'). marker_of k g)"
      with dn sub have "k = h \<or> dh_done (heap w ! k) \<or> (\<exists>g \<in> set ?gs. marker_of k g)"
        by (auto simp: E(3) GoWatch)
      with c3 z have "dh_wg (heap w ! k) = 0" by auto
      with wg show "dh_wg (heap w' ! k) = 0" by (simp add: GoWatch)
    qed
    from 1 2 3 show ?thesis by (simp add: inv_cell_def)
  next
    case (GoMark h)
    from N(1) GoMark have nd: "\<not> dh_done (heap w ! h)" by simp
    have mk: "\<exists>g \<in> set ?gs. marker_of h g" using mem by (auto simp: GoMark intro!: bexI [of _ ?g])
    have 1: "dh_wg (heap w' ! k) = int (length (filter (call_of k) (goroutines w')))"
      using wg c1 by (simp add: E(3) GoMark len)
    have 2: "length (filter (watcher_of k) (goroutines w')) = (if dh_done (heap w' ! k) then 0 else 1)"
      using dn c2 nd by (auto simp: E(3) GoMark len)
    have 3: "(dh_done (heap w' ! k) \<or> (\<exists>g \<in> set (goroutines w'). marker_of k g)) \<longrightarrow>
        dh_wg (heap w' ! k) = 0"
    proof
      assume "dh_done (heap w' ! k) \<or> (\<exists>g \<in> set (goroutines w'). marker_of k g)"
      with dn sub have "k = h \<or> dh_done (heap w ! k) \<or> (\<exists>g \<in> set ?gs. marker_of k g)"
        by (auto simp: E(3) GoMark)
      with c3 mk have "dh_wg (heap w ! k) = 0" by auto
      with wg show "dh_wg (heap w' ! k) = 0" by (simp add: GoMark)
    qed
    from 1 2 3 show ?thesis by (simp add: inv_cell_def)
  qed
qed

lemma inflight_run:
  assumes f: "inflight h dg dh w" and m: "mem_inv extra w" and r: "run i w = Some (Inr w')"
  shows "inflight h dg dh w'"
proof -
  from f have rn: "runnable w" by (rule inflight_runnable)
  note E = run_effect [OF rn m r]
  note N = run_enabled [OF r]
  let ?gs = "goroutines w"
  let ?g = "?gs ! i"
  note i = E(1)
  note ilen = int_length_filter_remove_nth [OF i]
  have sub: "set (remove_nth i ?gs) \<subseteq> set ?gs" by (rule set_remove_nth)
  have mem: "?g \<in> set ?gs" using i by simp
  from f have bus: "inv_bus w" and tbl: "inv_table w" and pool: "inv_pool w"
    and h: "h < length (heap w)" and nn: "0 \<le> dg" "0 \<le> dh"
    and cnt: "ge_wg (ge w) = int (length (filter is_call ?gs)) + dg"
    and cells: "\<forall>k < length (heap w). k \<noteq> h \<longrightarrow> inv_cell w k"
    and own: "dh_wg (heap w ! h) = int (length (filter (call_of h) ?gs)) + dh"
    and nw: "filter (watcher_of h) ?gs = []" and nd: "\<not> dh_done (heap w ! h)"
    by (simp_all add: inflight_def)
  from nw mem have g: "\<not> watcher_of h ?g" by (auto simp: filter_empty_conv)
  then have g': "\<not> marker_of h ?g" "?g \<noteq> GoWatch h" by (cases ?g; auto)+
  from pool mem have ok: "gor_ok (length (heap w)) ?g" by (simp add: inv_pool_def)
  have nx: "filter is_call (gor_next ?g) = []" "\<And>k. filter (call_of k) (gor_next ?g) = []"
    "filter (watcher_of h) (gor_next ?g) = []" "\<forall>x \<in> set (gor_next ?g). gor_ok (length (heap w)) x"
    using g' ok by (cases ?g; auto)+
  have 1: "inv_bus w'" using bus by (simp add: inv_bus_def E(5))
  have 2: "inv_table w'" using tbl by (simp add: inv_table_def E(5,6))
  have 3: "inv_pool w'" using pool sub nx(4) by (auto simp: inv_pool_def E(3,4))
  have 4: "ge_wg (ge w') = int (length (filter is_call (goroutines w'))) + dg"
    using cnt by (simp add: E(3,9) nx ilen)
  have 5: "\<forall>k < length (heap w'). k \<noteq> h \<longrightarrow> inv_cell w' k"
    using cells cell_run [OF rn m r] by (simp add: E(4))
  have 6: "dh_wg (heap w' ! h) = int (length (filter (call_of h) (goroutines w'))) + dh"
    using own E(10) h by (simp add: E(3) nx ilen)
  have 7: "filter (watcher_of h) (goroutines w') = []"
    using nw sub by (auto simp: E(3) nx filter_empty_conv)
  have 8: "\<not> dh_done (heap w' ! h)" using nd E(11) h g' by simp
  from 1 2 3 4 5 6 7 8 h nn show ?thesis by (simp add: inflight_def E(4))
qed

lemma length_async_subs:
  "length (filter async (filter (\<lambda>eh. topic eh = name) ehs)) = length (asyncSubs name ehs)"
  by (simp add: asyncSubs_def conj_commute)

lemma inflight_frame:
  assumes "inflight h dg dh w"
    and "ge_bus (ge w') = ge_bus (ge w)" and "ge_asyncListeners (ge w') = ge_asyncListeners (ge w)"
    and "goroutines w' = goroutines w" and "length (heap w') = length (heap w)"
    and "ge_wg (ge w') = ge_wg (ge w) + (dg' - dg)"
    and "\<forall>k < length (heap w). dh_done (heap w' ! k) = dh_done (heap w ! k) \<and>
           dh_wg (heap w' ! k) = dh_wg (heap w ! k) + (if k = h then dh' - dh else 0)"
    and "0 \<le> dg'" and "0 \<le> dh'"
  shows "inflight h dg' dh' w'"
  using assms unfolding inflight_def inv_bus_def inv_table_def inv_pool_def inv_cell_def
  by auto

lemma obs_quiet:
  assumes t: "inv_trace w" and l: "inv_logs w" and a: "inv_arrival w"
    and len: "length (heap w') = length (heap w)"
    and dn: "\<forall>k < length (heap w). dh_done (heap w' ! k) = dh_done (heap w ! k)"
    and tr: "trace w' = trace w @ x"
    and x: "\<forall>ob \<in> set x. \<not> is_clear ob \<and> obs_ok (length (heap w)) ob \<and> (\<forall>k. \<not> closed_of k ob)"
    and gl: "global_log w' = global_log w @ arrived Global x"
    and hl: "\<forall>k < length (heap w). handle_log k w' = handle_log k w @ arrived (OfHandle k) x"
    and af: "all_failures x = arrived Global x"
    and fh: "\<forall>k. failures_of_handle k x = arrived (OfHandle k) x"
  shows "inv_trace w' \<and> inv_logs w' \<and> inv_arrival w'"
proof -
  from x have x1: "\<forall>ob \<in> set x. \<not> is_clear ob \<and> obs_ok (length (heap w)) ob" by blast
  from x have "\<And>k. filter (closed_of k) x = []" by (auto simp: filter_empty_conv)
  with dn have dn': "\<forall>k < length (heap w).
        (if dh_done (heap w' ! k) then 1 else 0) =
        (if dh_done (heap w ! k) then 1 else 0) + length (filter (closed_of k) x)"
    by simp
  from obs_extend [OF t l a len tr x1 dn' gl hl af fh] show ?thesis .
qed

lemma own_obs_props:
  assumes h: "h < m"
  shows "\<forall>ob \<in> set (own_obs e h n pos). \<not> is_clear ob \<and> obs_ok m ob \<and> (\<forall>k. \<not> closed_of k ob)"
    and "all_failures (own_obs e h n pos) = arrived Global (own_obs e h n pos)"
    and "\<forall>k. failures_of_handle k (own_obs e h n pos) = arrived (OfHandle k) (own_obs e h n pos)"
proof -
  have H: "\<forall>ob \<in> set (handler_obs h l e). \<not> is_clear ob \<and> obs_ok m ob \<and> (\<forall>k. \<not> closed_of k ob)"
    for l
    using handler_obs_props(3) [of h l e] handler_obs_props(4) [OF h, of l e] by blast
  have "(\<forall>ob \<in> set (own_obs e h n pos). \<not> is_clear ob \<and> obs_ok m ob \<and> (\<forall>k. \<not> closed_of k ob)) \<and>
    all_failures (own_obs e h n pos) = arrived Global (own_obs e h n pos) \<and>
    (\<forall>k. failures_of_handle k (own_obs e h n pos) = arrived (OfHandle k) (own_obs e h n pos))"
  proof (cases pos)
    case (InPublish ehs)
    show ?thesis
    proof (cases ehs)
      case Nil
      then show ?thesis
        by (simp add: InPublish all_failures_def failures_of_handle_def arrived_def)
    next
      case (Cons eh ehs')
      show ?thesis
        using H [of "listener_of (callBack eh)"]
        by (simp add: InPublish Cons handler_obs_props(1,2) handler_obs_arrived)
          (simp add: all_failures_def failures_of_handle_def arrived_def)
    qed
  qed (use h in \<open>auto simp: all_failures_def failures_of_handle_def arrived_def obs_ok_def\<close>)
  then show "\<forall>ob \<in> set (own_obs e h n pos). \<not> is_clear ob \<and> obs_ok m ob \<and> (\<forall>k. \<not> closed_of k ob)"
    and "all_failures (own_obs e h n pos) = arrived Global (own_obs e h n pos)"
    and "\<forall>k. failures_of_handle k (own_obs e h n pos) = arrived (OfHandle k) (own_obs e h n pos)"
    by blast+
qed

text \<open>The caller's operation at a position of the call: it does not panic, and it leads
  to a world that is well formed for the next position.\<close>

lemma own_step:
  assumes G: "good e h n pos w" and nr: "pos \<noteq> AtReturn"
  shows "\<exists>pos' w1. Dispatch_step e h n pos w = Inr (pos', w1) \<and> good e h n pos' w1 \<and>
           trace w1 = trace w @ own_obs e h n pos \<and>
           goroutines w1 = goroutines w @ own_spawn e h pos \<and>
           length (heap w1) = length (heap w) \<and> ge_bus (ge w1) = ge_bus (ge w) \<and>
           ge_asyncListeners (ge w1) = ge_asyncListeners (ge w) \<and>
           (\<forall>k < length (heap w). dh_done (heap w1 ! k) = dh_done (heap w ! k)) \<and>
           dh_wg (heap w1 ! h) = dh_wg (heap w ! h) + (if pos = AtAddHandle then n else 0) \<and>
           global_log w1 = global_log w @ arrived Global (own_obs e h n pos) \<and>
           (\<forall>k < length (heap w). handle_log k w1 =
              handle_log k w @ arrived (OfHandle k) (own_obs e h n pos))"
proof -
  from G have m: "mem_inv [] w" and t: "inv_trace w" and l: "inv_logs w"
    and a: "inv_arrival w" and h: "h < length (heap w)"
    and n: "n = int (length (asyncSubs (Name e) (ge_bus (ge w))))"
    and pk: "position_ok e n pos"
    and f0: "if pos = AtReturn then invariant w
             else inflight h (fst (owed n pos)) (snd (owed n pos)) w"
    unfolding good_def by blast+
  from f0 nr have f: "inflight h (fst (owed n pos)) (snd (owed n pos)) w" by metis
  note P = own_obs_props [OF h, of e n pos]
  from f have bus: "inv_bus w" and cnt: "ge_wg (ge w) =
      int (length (filter is_call (goroutines w))) + fst (owed n pos)"
    and own: "dh_wg (heap w ! h) =
      int (length (filter (call_of h) (goroutines w))) + snd (owed n pos)"
    and nn: "0 \<le> fst (owed n pos)" "0 \<le> snd (owed n pos)"
    by (simp_all add: inflight_def)
  text \<open>The operations that leave the logs and the pool as they are.\<close>
  have plain: ?thesis
    if st: "Dispatch_step e h n pos w = Inr (pos', w1)"
      and f1: "inflight h (fst (owed n pos')) (snd (owed n pos')) w1"
      and p1: "position_ok e n pos'" "pos' \<noteq> AtReturn"
      and tr: "trace w1 = trace w @ own_obs e h n pos"
      and fr: "goroutines w1 = goroutines w" "own_spawn e h pos = []"
        "ge w1 = (ge w)\<lparr>ge_wg := ge_wg (ge w1)\<rparr>" "arrays w1 = arrays w"
        "length (heap w1) = length (heap w)"
        "\<forall>k < length (heap w). dh_done (heap w1 ! k) = dh_done (heap w ! k) \<and>
            dh_errors (heap w1 ! k) = dh_errors (heap w ! k)"
        "dh_wg (heap w1 ! h) = dh_wg (heap w ! h) + (if pos = AtAddHandle then n else 0)"
        "arrived Global (own_obs e h n pos) = []"
        "\<forall>k. arrived (OfHandle k) (own_obs e h n pos) = []"
    for pos' w1
  proof -
    have ge: "ge_bus (ge w1) = ge_bus (ge w)" "ge_asyncListeners (ge w1) = ge_asyncListeners (ge w)"
      "ge_errors (ge w1) = ge_errors (ge w)"
      by (subst fr(3), simp)+
    have "map dh_errors (heap w1) = map dh_errors (heap w)"
      using fr(5,6) by (simp add: list_eq_iff_nth_eq)
    then have lg: "logs w1 = logs w" by (simp add: logs_def ge(3))
    have m1: "mem_inv [] w1" using m by (simp add: mem_inv_def lg fr(4))
    have gl: "global_log w1 = global_log w @ arrived Global (own_obs e h n pos)"
      by (simp add: global_log_def ge(3) fr(4,8))
    have hl: "\<forall>k < length (heap w). handle_log k w1 =
        handle_log k w @ arrived (OfHandle k) (own_obs e h n pos)"
      using fr(6) by (simp add: handle_log_def fr(4,9))
    have dn: "\<forall>k < length (heap w). dh_done (heap w1 ! k) = dh_done (heap w ! k)"
      using fr(6) by simp
    from obs_quiet [OF t l a fr(5) dn tr P(1) gl hl P(2) P(3)]
    have o1: "inv_trace w1" "inv_logs w1" "inv_arrival w1" by blast+
    have "good e h n pos' w1"
      using m1 o1 h n p1 f1 by (simp add: good_def fr(5) ge)
    with st tr fr(1,2,5,7) ge gl hl dn show ?thesis by simp
  qed
  show ?thesis
  proof (cases pos)
    case AtAddGlobal
    show ?thesis
    proof (cases "0 < n")
      case True
      let ?w1 = "observe (WgAdd Global n) (w\<lparr>ge := (ge w)\<lparr>ge_wg := ge_wg (ge w) + n\<rparr>\<rparr>)"
      have st: "Dispatch_step e h n pos w = Inr (AtAddHandle, ?w1)"
        using True cnt by (simp add: AtAddGlobal GoEvent_wg_Add_def Let_def and_then_def)
      have f1: "inflight h (fst (owed n AtAddHandle)) (snd (owed n AtAddHandle)) ?w1"
        using True by (intro inflight_frame [OF f]) (simp_all add: observe_def AtAddGlobal)
      show ?thesis
        by (rule plain [OF st f1])
          (use True in \<open>simp_all add: observe_def AtAddGlobal arrived_def\<close>)
    next
      case False
      with n have z: "n = 0" by simp
      have st: "Dispatch_step e h n pos w = Inr (AtPublish, w)"
        using False by (simp add: AtAddGlobal)
      have f1: "inflight h (fst (owed n AtPublish)) (snd (owed n AtPublish)) w"
        using f by (simp add: AtAddGlobal z)
      show ?thesis
        by (rule plain [OF st f1])
          (use False in \<open>simp_all add: AtAddGlobal arrived_def\<close>)
    qed
  next
    case AtAddHandle
    from pk have np: "0 < n" by (simp add: AtAddHandle)
    let ?w1 = "observe (WgAdd (OfHandle h) n)
        (w\<lparr>heap := (heap w)[h := (heap w ! h)\<lparr>dh_wg := dh_wg (heap w ! h) + n\<rparr>]\<rparr>)"
    have st: "Dispatch_step e h n pos w = Inr (AtPublish, ?w1)"
      using np own h
      by (simp add: AtAddHandle DispatchHandle_wg_Add_def Let_def and_then_def)
    have f1: "inflight h (fst (owed n AtPublish)) (snd (owed n AtPublish)) ?w1"
      using np h
      by (intro inflight_frame [OF f]) (auto simp: observe_def AtAddHandle nth_list_update)
    show ?thesis
      by (rule plain [OF st f1])
        (use h in \<open>auto simp: observe_def AtAddHandle arrived_def nth_list_update\<close>)
  next
    case AtPublish
    let ?subs = "filter (\<lambda>eh. topic eh = Name e) (ge_bus (ge w))"
    let ?w1 = "observe (Published (Name e) [ArgHandle h, ArgEvent e]) w"
    have st: "Dispatch_step e h n pos w = Inr (InPublish ?subs, ?w1)"
      by (simp add: AtPublish)
    have ow: "owed n (InPublish ?subs) = (n, n)" by (simp only: owed.simps n length_async_subs)
    have f1: "inflight h (fst (owed n (InPublish ?subs))) (snd (owed n (InPublish ?subs))) ?w1"
      unfolding ow using f
      by (intro inflight_frame [OF f]) (simp_all add: observe_def AtPublish n)
    have p1: "position_ok e n (InPublish ?subs)"
      using bus by (simp add: inv_bus_def)
    show ?thesis
      by (rule plain [OF st f1 p1]) (simp_all add: observe_def AtPublish arrived_def)
  next
    case (InPublish ehs)
    show ?thesis
    proof (cases ehs)
      case Nil
      have st: "Dispatch_step e h n pos w = Inr (AtGo, w)" by (simp add: InPublish Nil)
      have f1: "inflight h (fst (owed n AtGo)) (snd (owed n AtGo)) w"
        using f by (simp add: InPublish Nil)
      show ?thesis
        by (rule plain [OF st f1]) (simp_all add: InPublish Nil arrived_def)
    next
      case (Cons eh ehs')
      from pk have eh: "sub_ok eh" "topic eh = Name e"
        and p1: "position_ok e n (InPublish ehs')"
        by (simp_all add: InPublish Cons)
      show ?thesis
      proof (cases "async eh")
        case True
        with eh obtain l0 where l0: "callBack eh = AsyncHandler l0" "ListenerEventName l0 = Name e"
          by (auto dest: sub_ok_async)
        let ?g = "GoCall (callBack eh) [ArgHandle h, ArgEvent e]"
        let ?w1 = "spawn ?g w"
        have st: "Dispatch_step e h n pos w = Inr (InPublish ehs', ?w1)"
          using True by (simp add: InPublish Cons deliver_def and_then_def)
        have f1: "inflight h (fst (owed n (InPublish ehs'))) (snd (owed n (InPublish ehs'))) ?w1"
          using f h True
          unfolding inflight_def inv_bus_def inv_table_def inv_pool_def inv_cell_def
          by (auto simp: spawn_def InPublish Cons l0)
        have lg: "logs ?w1 = logs w" by (simp add: logs_def spawn_def)
        have m1: "mem_inv [] ?w1" using m by (simp add: mem_inv_def lg) (simp add: spawn_def)
        have ob: "own_obs e h n pos = []" using True by (simp add: InPublish Cons)
        have o1: "inv_trace ?w1" "inv_logs ?w1" "inv_arrival ?w1"
          using t l a
          by (simp_all add: inv_trace_def inv_logs_def inv_arrival_def spawn_def global_log_def
              handle_log_def)
        have "good e h n (InPublish ehs') ?w1"
          using m1 o1 h n p1 f1 by (simp add: good_def) (simp add: spawn_def)
        with st True show ?thesis
          by (simp add: ob arrived_def InPublish Cons)
            (simp add: spawn_def global_log_def handle_log_def)
      next
        case False
        with eh obtain l0 where l0: "callBack eh = Handler l0" by (auto dest: sub_ok_sync)
        from handler_effect [OF m h, of l0 e "[]"] obtain w1 where
          w1: "handler l0 [ArgHandle h, ArgEvent e] w = Inr w1"
            "recorded [] h (failure_of l0 e) w w1"
            "goroutines w1 = goroutines w" "trace w1 = trace w @ handler_obs h l0 e"
          by blast
        from w1(2) have q: "quiet w w1" and m1: "mem_inv [] w1"
          and g1: "global_log w1 = global_log w @ failure_of l0 e"
          and h1: "\<forall>k < length (heap w). handle_log k w1 =
                 handle_log k w @ (if k = h then failure_of l0 e else [])"
          by (simp_all add: recorded_def)
        have ob: "own_obs e h n pos = handler_obs h l0 e"
          using False by (simp add: InPublish Cons l0)
        have st: "Dispatch_step e h n pos w = Inr (InPublish ehs', w1)"
          using False by (simp add: InPublish Cons deliver_def and_then_def l0 w1(1))
        from q have len: "length (heap w1) = length (heap w)"
          and dn: "\<forall>k < length (heap w). dh_done (heap w1 ! k) = dh_done (heap w ! k)"
          and ge: "ge_bus (ge w1) = ge_bus (ge w)"
            "ge_asyncListeners (ge w1) = ge_asyncListeners (ge w)"
          and wg: "ge_wg (ge w1) = ge_wg (ge w)"
            "\<forall>k < length (heap w). dh_wg (heap w1 ! k) = dh_wg (heap w ! k)"
          by (simp_all add: quiet_def)
        have f1: "inflight h (fst (owed n (InPublish ehs'))) (snd (owed n (InPublish ehs'))) w1"
          using False nn wg dn
          by (intro inflight_frame [OF f ge w1(3) len]) (simp_all add: InPublish Cons)
        have gl: "global_log w1 = global_log w @ arrived Global (own_obs e h n pos)"
          using g1 by (simp add: ob handler_obs_arrived)
        have hl: "\<forall>k < length (heap w). handle_log k w1 =
            handle_log k w @ arrived (OfHandle k) (own_obs e h n pos)"
          using h1 by (simp add: ob handler_obs_arrived)
        have tr: "trace w1 = trace w @ own_obs e h n pos" by (simp add: w1(4) ob)
        from obs_quiet [OF t l a len dn tr P(1) gl hl P(2) P(3)]
        have o1: "inv_trace w1" "inv_logs w1" "inv_arrival w1" by blast+
        have "good e h n (InPublish ehs') w1"
          using m1 o1 h n p1 f1 by (simp add: good_def len ge)
        moreover have "own_spawn e h pos = []" using False by (simp add: InPublish Cons)
        ultimately show ?thesis
          using st tr w1(3) len ge dn wg(2) h gl hl by (simp add: InPublish)
      qed
    qed
  next
    case AtGo
    let ?w1 = "spawn (GoWatch h) w"
    have st: "Dispatch_step e h n pos w = Inr (AtReturn, ?w1)" by (simp add: AtGo)
    from f have F: "inv_bus w" "inv_table w" "inv_pool w"
      "ge_wg (ge w) = int (length (filter is_call (goroutines w)))"
      "\<forall>k < length (heap w). k \<noteq> h \<longrightarrow> inv_cell w k"
      "dh_wg (heap w ! h) = int (length (filter (call_of h) (goroutines w)))"
      "filter (watcher_of h) (goroutines w) = []" "\<not> dh_done (heap w ! h)"
      by (simp_all add: inflight_def AtGo)
    have nm: "\<not> (\<exists>g \<in> set (goroutines w). marker_of h g)"
    proof
      assume "\<exists>g \<in> set (goroutines w). marker_of h g"
      then obtain g where g: "g \<in> set (goroutines w)" "marker_of h g" by blast
      from g(2) have "watcher_of h g" by (cases g) auto
      with g(1) F(7) show False by (auto simp: filter_empty_conv)
    qed
    have c: "inv_cell ?w1 k" if "k < length (heap w)" for k
    proof (cases "k = h")
      case True
      with F(6,7,8) nm show ?thesis by (auto simp: inv_cell_def spawn_def)
    next
      case False
      with F(5) that have "inv_cell w k" by simp
      with False show ?thesis by (auto simp: inv_cell_def spawn_def)
    qed
    have inv: "invariant ?w1"
      unfolding invariant_def
      using F(1-4) h c
      by (auto simp: inv_bus_def inv_table_def inv_pool_def inv_count_def spawn_def)
    have lg: "logs ?w1 = logs w" by (simp add: logs_def spawn_def)
    have m1: "mem_inv [] ?w1" using m by (simp add: mem_inv_def lg) (simp add: spawn_def)
    have o1: "inv_trace ?w1" "inv_logs ?w1" "inv_arrival ?w1"
      using t l a
      by (simp_all add: inv_trace_def inv_logs_def inv_arrival_def spawn_def global_log_def
          handle_log_def)
    have "good e h n AtReturn ?w1"
      using m1 o1 h n inv by (simp add: good_def) (simp add: spawn_def)
    with st show ?thesis
      by (simp add: AtGo arrived_def) (simp add: spawn_def global_log_def handle_log_def)
  next
    case AtReturn
    with nr show ?thesis by simp
  qed
qed

lemma marker_not_done:
  assumes "invariant w \<or> inflight h dg dh w" and "GoMark k \<in> set (goroutines w)"
  shows "k < length (heap w) \<and> \<not> dh_done (heap w ! k)"
proof -
  from assms(1) have pool: "inv_pool w" by (auto simp: invariant_def inflight_def)
  with assms(2) have k: "k < length (heap w)" by (auto simp: inv_pool_def)
  from assms(2) have w: "filter (watcher_of k) (goroutines w) \<noteq> []"
    by (auto simp: filter_empty_conv intro!: bexI [of _ "GoMark k"])
  from assms(1) have "inv_cell w k"
  proof
    assume "invariant w"
    with k show ?thesis by (simp add: invariant_def)
  next
    assume f: "inflight h dg dh w"
    with w have "k \<noteq> h" by (auto simp: inflight_def)
    with f k show ?thesis by (simp add: inflight_def)
  qed
  with w have "\<not> dh_done (heap w ! k)" by (auto simp: inv_cell_def)
  with k show ?thesis ..
qed

lemma run_no_panic_gen:
  assumes wf: "invariant w \<or> inflight h dg dh w" and m: "mem_inv extra w"
  shows "run i w \<noteq> Some (Inl p)"
proof (cases "i < length (goroutines w)")
  case False
  then show ?thesis by (simp add: run_def)
next
  case i: True
  from wf have rn: "runnable w" by (auto intro: invariant_runnable inflight_runnable)
  show ?thesis
  proof (cases "goroutines w ! i")
    case (GoCall fn args)
    from run_call_gen [OF rn m i GoCall] show ?thesis by auto
  next
    case (GoWatch k)
    with i show ?thesis by (simp add: run_def Let_def split: option.splits)
  next
    case (GoMark k)
    with i have "GoMark k \<in> set (goroutines w)" by (metis nth_mem)
    from marker_not_done [OF wf this] i GoMark show ?thesis
      by (simp add: run_def Let_def markDone_def)
  qed
qed

lemma good_wf:
  "good e h n pos w \<Longrightarrow>
   invariant w \<or> inflight h (fst (owed n pos)) (snd (owed n pos)) w"
  unfolding good_def by metis

lemma good_runnable: "good e h n pos w \<Longrightarrow> runnable w"
  by (auto dest: good_wf intro: invariant_runnable inflight_runnable)

lemma good_mem: "good e h n pos w \<Longrightarrow> mem_inv [] w"
  unfolding good_def by blast

text \<open>A started goroutine that runs in the middle of a call: it does not panic, and the
  world stays well formed for the position of the call.\<close>

lemma good_run:
  assumes G: "good e h n pos w" and r: "run i w = Some r"
  shows "\<exists>w1. r = Inr w1 \<and> good e h n pos w1"
proof -
  from G have m: "mem_inv [] w" and t: "inv_trace w" and l: "inv_logs w"
    and a: "inv_arrival w" and h: "h < length (heap w)"
    and n: "n = int (length (asyncSubs (Name e) (ge_bus (ge w))))"
    and pk: "position_ok e n pos"
    and f0: "if pos = AtReturn then invariant w
             else inflight h (fst (owed n pos)) (snd (owed n pos)) w"
    unfolding good_def by blast+
  note rn = good_runnable [OF G]
  from run_no_panic_gen [OF good_wf [OF G] m, of i] r obtain w1 where w1: "r = Inr w1"
    by (cases r) auto
  with r have r1: "run i w = Some (Inr w1)" by simp
  note E = run_effect [OF rn m r1]
  from run_obs [OF rn m t l a r1] have o1: "inv_trace w1" "inv_logs w1" "inv_arrival w1"
    by blast+
  have f1: "if pos = AtReturn then invariant w1
            else inflight h (fst (owed n pos)) (snd (owed n pos)) w1"
  proof (cases "pos = AtReturn")
    case True
    with f0 have "invariant w" by simp
    from invariant_run [OF this m r1] True show ?thesis by simp
  next
    case False
    with f0 have "inflight h (fst (owed n pos)) (snd (owed n pos)) w" by metis
    from inflight_run [OF this m r1] False show ?thesis by metis
  qed
  have "good e h n pos w1"
    unfolding good_def using E(7) o1 h n pk f1 by (simp add: E(4,5))
  with w1 show ?thesis by blast
qed

text \<open>The entry of the call.\<close>

lemma Dispatch_enter_good:
  assumes inv: "invariant w" and m: "mem_inv [] w" and t: "inv_trace w" and l: "inv_logs w"
    and a: "inv_arrival w"
  shows "\<exists>w1. Dispatch_enter e w =
             (length (heap w), asyncCount_of (ge_asyncListeners (ge w)) (Name e), w1) \<and>
           good e (length (heap w)) (asyncCount_of (ge_asyncListeners (ge w)) (Name e))
             AtAddGlobal w1 \<and>
           trace w1 = trace w \<and> goroutines w1 = goroutines w \<and> ge w1 = ge w \<and>
           length (heap w1) = Suc (length (heap w)) \<and>
           (\<forall>k < length (heap w). heap w1 ! k = heap w ! k) \<and>
           dh_wg (heap w1 ! length (heap w)) = 0 \<and> \<not> dh_done (heap w1 ! length (heap w)) \<and>
           global_log w1 = global_log w \<and>
           (\<forall>k < length (heap w). handle_log k w1 = handle_log k w) \<and>
           handle_log (length (heap w)) w1 = []"
proof -
  let ?h = "length (heap w)"
  let ?n = "asyncCount_of (ge_asyncListeners (ge w)) (Name e)"
  obtain s A1 where mk: "make_slice 0 (arrays w) = (s, A1)" by (cases "make_slice 0 (arrays w)")
  let ?w1 = "w\<lparr>heap := heap w @ [\<lparr>dh_wg = 0, dh_errors = s, dh_done = False\<rparr>], arrays := A1\<rparr>"
  have en: "Dispatch_enter e w = (?h, ?n, ?w1)" by (simp add: Dispatch_enter_def Let_def mk)
  from inv have bus: "inv_bus w" and tbl: "inv_table w" and pool: "inv_pool w"
    and cnt: "inv_count w" and cells: "\<forall>h < length (heap w). inv_cell w h"
    by (simp_all add: invariant_def)
  from m have ok: "mem_ok (arrays w) ([] @ logs w)" by (simp add: mem_inv_def)
  note M = make_slice_ok [OF ok mk]
  have logs1: "[] @ logs ?w1 = ([] @ logs w) @ [s]" by (simp add: logs_def)
  have m1: "mem_inv [] ?w1" using M(1) by (simp add: mem_inv_def logs_def)
  have g1: "global_log ?w1 = global_log w"
    using M(4) by (simp add: global_log_def logs_def)
  have h1: "\<forall>k < ?h. handle_log k ?w1 = handle_log k w"
    using M(4) by (simp add: handle_log_def logs_def nth_append)
  have new1: "handle_log ?h ?w1 = []"
    using M(5) by (simp add: handle_log_def)
  from t have ok': "\<forall>ob \<in> set (trace w). obs_ok ?h ob"
    and cl: "\<forall>k < ?h. length (filter (closed_of k) (trace w)) =
               (if dh_done (heap w ! k) then 1 else 0)"
    by (simp_all add: inv_trace_def)
  note fresh = obs_ok_fresh [OF ok' order_refl]
  have t1: "inv_trace ?w1"
    unfolding inv_trace_def
  proof (intro conjI allI impI ballI)
    fix ob assume "ob \<in> set (trace ?w1)"
    with ok' show "obs_ok (length (heap ?w1)) ob" by (auto intro: obs_ok_mono)
  next
    fix k assume "k < length (heap ?w1)"
    then show "length (filter (closed_of k) (trace ?w1)) =
        (if dh_done (heap ?w1 ! k) then 1 else 0)"
      using cl fresh(1) by (cases "k = ?h") (simp_all add: nth_append)
  qed
  have arr_fresh: "arrived (OfHandle ?h) (trace w) = []"
  proof -
    have "arrival (OfHandle ?h) ob = []" if "ob \<in> set (trace w)" for ob
    proof -
      from that ok' have "obs_ok ?h ob" by blast
      then show ?thesis by (cases ob) (auto simp: obs_ok_def)
    qed
    then show ?thesis by (simp add: arrived_def)
  qed
  have l1: "inv_logs ?w1"
    unfolding inv_logs_def
  proof (intro conjI allI impI)
    show "global_log ?w1 = failures_since_clear (trace ?w1)"
      using l g1 by (simp add: inv_logs_def)
  next
    fix k assume "k < length (heap ?w1)"
    then show "handle_log k ?w1 = failures_of_handle k (trace ?w1)"
      using l h1 new1 fresh(2) by (cases "k = ?h") (simp_all add: inv_logs_def)
  qed
  have a1: "inv_arrival ?w1"
    unfolding inv_arrival_def
  proof (intro conjI allI impI)
    show "global_log ?w1 = arrived Global (since_clear (trace ?w1))"
      using a g1 by (simp add: inv_arrival_def)
  next
    fix k assume "k < length (heap ?w1)"
    then show "handle_log k ?w1 = arrived (OfHandle k) (trace ?w1)"
      using a h1 new1 arr_fresh by (cases "k = ?h") (simp_all add: inv_arrival_def)
  qed
  from pool have pool': "\<forall>g \<in> set (goroutines w). gor_ok ?h g" by (simp add: inv_pool_def)
  note pf = pool_fresh [OF pool' order_refl]
  have c1: "inv_cell ?w1 k" if "k < ?h" for k
  proof -
    from cells that have "inv_cell w k" by simp
    moreover have "heap ?w1 ! k = heap w ! k" "goroutines ?w1 = goroutines w"
      using that by (simp_all add: nth_append)
    ultimately show ?thesis unfolding inv_cell_def by metis
  qed
  have f1: "inflight ?h 0 0 ?w1"
    unfolding inflight_def
    using bus tbl pool' cnt c1 pf
    by (auto simp: inv_bus_def inv_table_def inv_pool_def inv_count_def nth_append
        intro: gor_ok_mono)
  have n: "?n = int (length (asyncSubs (Name e) (ge_bus (ge w))))"
    using tbl by (simp add: inv_table_def)
  have "good e ?h ?n AtAddGlobal ?w1"
    unfolding good_def using m1 t1 l1 a1 n f1 by simp
  with en g1 h1 new1 show ?thesis by (simp add: nth_append)
qed

text \<open>Induction over a call of Dispatch under a schedule, from the return backwards.\<close>

lemma Dispatch_run_induct [consumes 2, case_names return own other]:
  assumes "Dispatch_run e h n ts pos w = Some (Inr w')" and "good e h n pos w"
    and "good e h n AtReturn w' \<Longrightarrow> P AtReturn w'"
    and "\<And>pos w pos' w1. good e h n pos w \<Longrightarrow> pos \<noteq> AtReturn \<Longrightarrow>
           Dispatch_step e h n pos w = Inr (pos', w1) \<Longrightarrow> good e h n pos' w1 \<Longrightarrow>
           P pos' w1 \<Longrightarrow> P pos w"
    and "\<And>pos w i w1. good e h n pos w \<Longrightarrow> run i w = Some (Inr w1) \<Longrightarrow>
           good e h n pos w1 \<Longrightarrow> P pos w1 \<Longrightarrow> P pos w"
  shows "P pos w"
  using assms(1,2)
proof (induction ts arbitrary: pos w)
  case Nil
  then have "pos = AtReturn" "w = w'" by (simp_all split: if_splits)
  with Nil.prems(2) assms(3) show ?case by simp
next
  case (Cons t ts)
  show ?case
  proof (cases t)
    case Own
    with Cons.prems(1) have nr: "pos \<noteq> AtReturn" by (auto split: if_splits)
    from own_step [OF Cons.prems(2) nr] obtain pos' w1 where
      s: "Dispatch_step e h n pos w = Inr (pos', w1)" "good e h n pos' w1"
      by blast
    with Cons.prems(1) Own nr have "Dispatch_run e h n ts pos' w1 = Some (Inr w')" by simp
    from Cons.IH [OF this s(2)] have "P pos' w1" .
    from assms(4) [OF Cons.prems(2) nr s this] show ?thesis .
  next
    case (Other i)
    with Cons.prems(1) obtain r where r: "run i w = Some r"
      by (cases "run i w") simp_all
    from good_run [OF Cons.prems(2) r] obtain w1 where
      w1: "r = Inr w1" "good e h n pos w1"
      by blast
    with Cons.prems(1) Other r have "Dispatch_run e h n ts pos w1 = Some (Inr w')" by simp
    from Cons.IH [OF this w1(2)] have "P pos w1" .
    from assms(5) [OF Cons.prems(2) _ w1(2) this] r w1(1) show ?thesis by simp
  qed
qed

lemma Dispatch_run_no_panic:
  assumes "good e h n pos w"
  shows "Dispatch_run e h n ts pos w \<noteq> Some (Inl p)"
  using assms
proof (induction ts arbitrary: pos w)
  case Nil
  then show ?case by simp
next
  case (Cons t ts)
  show ?case
  proof (cases t)
    case Own
    show ?thesis
    proof (cases "pos = AtReturn")
      case True
      with Own show ?thesis by simp
    next
      case False
      from own_step [OF Cons.prems False] obtain pos' w1 where
        s: "Dispatch_step e h n pos w = Inr (pos', w1)" "good e h n pos' w1"
        by blast
      with Cons.IH [OF s(2)] Own False show ?thesis by simp
    qed
  next
    case (Other i)
    show ?thesis
    proof (cases "run i w")
      case None
      with Other show ?thesis by simp
    next
      case (Some r)
      from good_run [OF Cons.prems Some] obtain w1 where
        w1: "r = Inr w1" "good e h n pos w1"
        by blast
      with Cons.IH [OF w1(2)] Other Some show ?thesis by simp
    qed
  qed
qed

lemma Dispatch_run_good:
  assumes "Dispatch_run e h n ts pos w = Some (Inr w')" and "good e h n pos w"
  shows "good e h n AtReturn w'"
  using assms by (induction rule: Dispatch_run_induct) simp_all

text \<open>The schedule in which no started goroutine runs before the return gives the
  result of \<open>Dispatch\<close>.\<close>

lemma publish_alone:
  "Dispatch_run e h n (map (\<lambda>eh. Own) ehs @ [Own, Own]) (InPublish ehs) w =
     Some (and_then (doPublish ehs [ArgHandle h, ArgEvent e] w)
             (\<lambda>w3. Inr (spawn (GoWatch h) w3)))"
proof (induction ehs arbitrary: w)
  case Nil
  show ?case by (simp add: and_then_def)
next
  case (Cons eh ehs)
  show ?case
  proof (cases "async eh")
    case True
    with Cons [of "spawn (GoCall (callBack eh) [ArgHandle h, ArgEvent e]) w"] show ?thesis
      by (simp add: deliver_def and_then_def)
  next
    case False
    show ?thesis
    proof (cases "call (callBack eh) [ArgHandle h, ArgEvent e] w")
      case (Inl p)
      with False show ?thesis by (simp add: deliver_def and_then_def)
    next
      case (Inr w1)
      with False Cons [of w1] show ?thesis by (simp add: deliver_def and_then_def)
    qed
  qed
qed

lemma Dispatch_alone:
  "Dispatch_under
     ((if 0 < asyncCount_of (ge_asyncListeners (ge w)) (Name e) then [Own, Own] else [Own]) @
      Own # map (\<lambda>eh. Own) (subscribers (Name e) w) @ [Own, Own]) e w =
   Some (Dispatch e w)"
proof -
  let ?h = "length (heap w)"
  let ?n = "asyncCount_of (ge_asyncListeners (ge w)) (Name e)"
  let ?args = "[ArgHandle ?h, ArgEvent e]"
  let ?ts = "map (\<lambda>eh. Own) (subscribers (Name e) w) @ [Own, Own]"
  obtain s A1 where mk: "make_slice 0 (arrays w) = (s, A1)" by (cases "make_slice 0 (arrays w)")
  let ?w1 = "w\<lparr>heap := heap w @ [\<lparr>dh_wg = 0, dh_errors = s, dh_done = False\<rparr>], arrays := A1\<rparr>"
  let ?r2 = "if ?n > 0 then and_then (GoEvent_wg_Add ?n ?w1) (DispatchHandle_wg_Add ?h ?n) else Inr ?w1"
  have D: "Dispatch e w =
      and_then (and_then ?r2 (Publish (Name e) ?args)) (\<lambda>w3. Inr (?h, spawn (GoWatch ?h) w3))"
    by (simp add: Dispatch_def Let_def mk)
  have en: "Dispatch_enter e w = (?h, ?n, ?w1)" by (simp add: Dispatch_enter_def Let_def mk)
  have pub: "Dispatch_run e ?h ?n (Own # ?ts) AtPublish w2 =
      Some (and_then (Publish (Name e) ?args w2) (\<lambda>w3. Inr (spawn (GoWatch ?h) w3)))"
    if "ge_bus (ge w2) = ge_bus (ge w)" for w2
    using publish_alone [of e ?h ?n "subscribers (Name e) w"
        "observe (Published (Name e) ?args) w2"] that
    by (simp add: Publish_def subscribers_def observe_def)
  show ?thesis
  proof (cases "0 < ?n")
    case False
    have "Dispatch_run e ?h ?n ([Own] @ Own # ?ts) AtAddGlobal ?w1 =
      Dispatch_run e ?h ?n (Own # ?ts) AtPublish ?w1"
      using False by simp
    also have "\<dots> = Some (and_then (Publish (Name e) ?args ?w1) (\<lambda>w3. Inr (spawn (GoWatch ?h) w3)))"
      by (rule pub) simp
    finally have "Dispatch_run e ?h ?n ([Own] @ Own # ?ts) AtAddGlobal ?w1 =
        Some (and_then (Publish (Name e) ?args ?w1) (\<lambda>w3. Inr (spawn (GoWatch ?h) w3)))" .
    then show ?thesis
      unfolding Dispatch_under_def en D if_not_P [OF False]
      by (simp add: and_then_def split: sum.splits)
  next
    case True
    show ?thesis
    proof (cases "GoEvent_wg_Add ?n ?w1")
      case (Inl p)
      have "Dispatch_run e ?h ?n ([Own, Own] @ Own # ?ts) AtAddGlobal ?w1 = Some (Inl p)"
        using True Inl by (simp add: and_then_def)
      then show ?thesis
        unfolding Dispatch_under_def en D if_P [OF True]
        by (simp add: and_then_def Inl)
    next
      case a: (Inr wa)
      then have ba: "ge_bus (ge wa) = ge_bus (ge w)"
        by (auto simp: GoEvent_wg_Add_def Let_def observe_def split: if_splits)
      show ?thesis
      proof (cases "DispatchHandle_wg_Add ?h ?n wa")
        case (Inl p)
        have "Dispatch_run e ?h ?n ([Own, Own] @ Own # ?ts) AtAddGlobal ?w1 = Some (Inl p)"
          using True a Inl by (simp add: and_then_def)
        then show ?thesis
          unfolding Dispatch_under_def en D if_P [OF True]
          by (simp add: and_then_def a Inl)
      next
        case b: (Inr wb)
        then have bb: "ge_bus (ge wb) = ge_bus (ge w)"
          using ba by (auto simp: DispatchHandle_wg_Add_def Let_def observe_def split: if_splits)
        have "Dispatch_run e ?h ?n ([Own, Own] @ Own # ?ts) AtAddGlobal ?w1 =
          Dispatch_run e ?h ?n (Own # ?ts) AtPublish wb"
          using True a b by (simp add: and_then_def)
        also have "\<dots> = Some (and_then (Publish (Name e) ?args wb) (\<lambda>w3. Inr (spawn (GoWatch ?h) w3)))"
          by (rule pub [OF bb])
        finally have "Dispatch_run e ?h ?n ([Own, Own] @ Own # ?ts) AtAddGlobal ?w1 =
          Some (and_then (Publish (Name e) ?args wb) (\<lambda>w3. Inr (spawn (GoWatch ?h) w3)))" .
        then show ?thesis
          unfolding Dispatch_under_def en D if_P [OF True]
          by (simp add: and_then_def a b split: sum.splits)
      qed
    qed
  qed
qed

lemma inv_arrival_New: "inv_arrival New"
  by (simp add: inv_arrival_def New_def make_slice_def global_log_def read_slice_def
      since_clear_def arrived_def)

lemma Dispatch_under_good:
  assumes inv: "invariant w" and m: "mem_inv [] w" and t: "inv_trace w" and l: "inv_logs w"
    and a: "inv_arrival w" and D: "Dispatch_under ts e w = Some (Inr (h, w'))"
  shows "h = length (heap w)"
    and "good e h (asyncCount_of (ge_asyncListeners (ge w)) (Name e)) AtReturn w'"
proof -
  let ?n = "asyncCount_of (ge_asyncListeners (ge w)) (Name e)"
  from Dispatch_enter_good [OF inv m t l a, of e] obtain w1 where
    en: "Dispatch_enter e w = (length (heap w), ?n, w1)"
    and G: "good e (length (heap w)) ?n AtAddGlobal w1"
    by blast
  from D en have r: "Dispatch_run e (length (heap w)) ?n ts AtAddGlobal w1 = Some (Inr w')"
    and h: "h = length (heap w)"
    by (auto simp: Dispatch_under_def split: option.splits sum.splits)
  from h show "h = length (heap w)" .
  from Dispatch_run_good [OF r G] h show "good e h ?n AtReturn w'" by simp
qed

lemma arrival_step:
  assumes inv: "invariant w" and m: "mem_inv [] w" and t: "inv_trace w" and l: "inv_logs w"
    and a: "inv_arrival w" and s: "step w w'"
  shows "inv_arrival w'"
  using s
proof cases
  case (s_Register ls)
  with a RegisterListener_frame [of ls w] show ?thesis
    by (simp add: inv_arrival_def global_log_def handle_log_def)
next
  case (s_Dispatch e h)
  with Dispatch_alone [of w e] obtain ts where "Dispatch_under ts e w = Some (Inr (h, w'))"
    by metis
  from Dispatch_under_good(2) [OF inv m t l a this] show ?thesis by (simp add: good_def)
next
  case s_Clear
  note C = ClearErrors_effect [OF m]
  from C(5) have q: "length (heap w') = length (heap w)" by (simp add: s_Clear quiet_def)
  show ?thesis
    using a q C(3,4,7)
    by (simp add: inv_arrival_def s_Clear since_clear_cleared arrived_append arrived_nil)
      (simp add: arrived_def)
next
  case s_GetErrors
  note G = GetErrors_effect [OF m]
  from G(6) obtain A where A: "w' = w\<lparr>arrays := A\<rparr>" unfolding s_GetErrors by blast
  show ?thesis
    using a G(4,5) unfolding s_GetErrors [symmetric] by (simp add: inv_arrival_def) (simp add: A)
next
  case (s_HandleGetErrors h c)
  then have "h < length (heap w)" by (simp add: DispatchHandle_GetErrors_def split: if_splits)
  from DispatchHandle_GetErrors_effect [OF m this] s_HandleGetErrors obtain A where
    A: "w' = w\<lparr>arrays := A\<rparr>" "global_log w' = global_log w"
      "\<forall>k < length (heap w). handle_log k w' = handle_log k w"
    by auto
  show ?thesis using a A(2,3) by (simp add: inv_arrival_def) (simp add: A(1))
next
  case (s_Run i)
  from run_obs [OF invariant_runnable [OF inv] m t l a s_Run] show ?thesis by blast
qed

text \<open>The invariants hold in every world that the concurrent program reaches.\<close>

lemma conc_reachable_invariant:
  "conc_reachable w \<Longrightarrow>
   invariant w \<and> mem_inv [] w \<and> inv_trace w \<and> inv_logs w \<and> inv_arrival w"
proof (induction rule: conc_reachable.induct)
  case cr_New
  show ?case by (simp add: invariant_New mem_inv_New inv_obs_New inv_arrival_New)
next
  case (cr_step w w')
  then have I: "invariant w" "mem_inv [] w" "inv_trace w" "inv_logs w" "inv_arrival w"
    by blast+
  from cr_step.hyps(2) show ?case
  proof cases
    case cs_step
    from invariant_step [OF I(1,2) cs_step] mem_step [OF I(1,2) cs_step]
      obs_step [OF I(1,2,3,4) cs_step] arrival_step [OF I cs_step]
    show ?thesis by blast
  next
    case (cs_Dispatch ts e h)
    from Dispatch_under_good(2) [OF I cs_Dispatch] show ?thesis by (simp add: good_def)
  qed
qed

lemma reachable_conc: "reachable w \<Longrightarrow> conc_reachable w"
  by (induction rule: reachable.induct) (auto intro: cr_New cr_step cs_step)


section \<open>The claims\<close>

lemmas eval_defs = TestEvent_def testErrorListener_def testAsyncListener_def testSyncListener_def
  boomListener_def dispatched_def
  New_def registerSingleListener_def Subscribe_def SubscribeAsync_def
  Dispatch_def Publish_def handler_def asyncHandler_def
  DispatchHandle_recordError_def GoEvent_recordError_def make_slice_def append_slice_def
  copy_slice_def growslice_def read_slice_def observe_def spawn_def and_then_def
  GoEvent_wg_Add_def GoEvent_wg_Done_def DispatchHandle_wg_Add_def DispatchHandle_wg_Done_def
  asyncCount_of_def Let_def run_def remove_nth_def markDone_def DispatchHandle_Wait_def
  ClearErrors_def GetErrors_def DispatchHandle_GetErrors_def global_log_def handle_log_def
  Done_def

lemma reachable_Register: "reachable (RegisterListener ls New)"
  by (rule r_step [OF r_New s_Register])

lemma Dispatch_total:
  assumes "reachable w"
  shows "\<exists>w'. Dispatch e w = Inr (length (heap w), w')"
proof -
  from assms have inv: "invariant w" and m: "mem_inv [] w" by (simp_all add: reachable_invariant)
  from inv have bus: "inv_bus w" and "inv_table w" "inv_count w" by (simp_all add: invariant_def)
  then have "0 \<le> asyncCount_of (ge_asyncListeners (ge w)) (Name e)" "0 \<le> ge_wg (ge w)"
    by (simp_all add: inv_table_def inv_count_def)
  from Dispatch_effect [OF bus this m] show ?thesis by blast
qed

lemma reachable_Dispatch:
  assumes "reachable w"
  shows "reachable (snd (projr (Dispatch e w)))"
proof -
  from Dispatch_total [OF assms] obtain w' where "Dispatch e w = Inr (length (heap w), w')" ..
  then have "step w w'" "snd (projr (Dispatch e w)) = w'" by (auto intro: s_Dispatch)
  with assms show ?thesis by (auto intro: r_step)
qed

lemma reachable_dispatched: "reachable (dispatched ls e)"
  unfolding dispatched_def by (rule reachable_Dispatch [OF reachable_Register])

text \<open>
  C8. \<^verbatim>\<open>ClearErrors\<close> leaves the dispatcher with an empty error log: a \<^verbatim>\<open>GetErrors\<close> that
  follows it returns an empty list. It leaves every handle as it is, with the content of
  its error log, and the bus, the counter, the table of asynchronous listeners and the
  started goroutines.
\<close>

theorem ClearErrors_frame:
  assumes "reachable w"
  shows "global_log (ClearErrors w) = [] \<and>
         read_slice (fst (GetErrors (ClearErrors w))) (arrays (snd (GetErrors (ClearErrors w)))) = [] \<and>
         heap (ClearErrors w) = heap w \<and>
         (\<forall>h < length (heap w). handle_log h (ClearErrors w) = handle_log h w) \<and>
         ge_bus (ge (ClearErrors w)) = ge_bus (ge w) \<and>
         ge_wg (ge (ClearErrors w)) = ge_wg (ge w) \<and>
         ge_asyncListeners (ge (ClearErrors w)) = ge_asyncListeners (ge w) \<and>
         goroutines (ClearErrors w) = goroutines w"
proof -
  from assms have m: "mem_inv [] w" by (simp add: reachable_invariant)
  note C = ClearErrors_effect [OF m]
  from GetErrors_effect(2) [OF C(1)] C(3)
  have "read_slice (fst (GetErrors (ClearErrors w))) (arrays (snd (GetErrors (ClearErrors w)))) = []"
    by simp
  moreover have "heap (ClearErrors w) = heap w"
    by (simp add: ClearErrors_def observe_def split: prod.splits)
  ultimately show ?thesis
    using C(3,4,5,6) by (simp add: quiet_def)
qed

theorem ClearErrors_frame_witness:
  "global_log (dispatched [testErrorListener] (TestEvent ''error test 1'')) =
     [Some \<lparr>EventName = ''test.event'', ListenerType = ''*goevent.testErrorListener'',
            Err = ''test error''\<rparr>] \<and>
   global_log (ClearErrors (dispatched [testErrorListener] (TestEvent ''error test 1''))) = [] \<and>
   handle_log 0 (ClearErrors (dispatched [testErrorListener] (TestEvent ''error test 1''))) =
     [Some \<lparr>EventName = ''test.event'', ListenerType = ''*goevent.testErrorListener'',
            Err = ''test error''\<rparr>]"
proof -
  let ?w = "dispatched [testErrorListener] (TestEvent ''error test 1'')"
  have r: "reachable ?w" by (rule reachable_dispatched)
  have 1: "global_log ?w =
     [Some \<lparr>EventName = ''test.event'', ListenerType = ''*goevent.testErrorListener'',
            Err = ''test error''\<rparr>]"
    and 2: "handle_log 0 ?w =
     [Some \<lparr>EventName = ''test.event'', ListenerType = ''*goevent.testErrorListener'',
            Err = ''test error''\<rparr>]"
    and 3: "0 < length (heap ?w)"
    by (simp_all add: eval_defs)
  from ClearErrors_frame [OF r] 1 2 3 show ?thesis by simp
qed

lemma handler_table:
  "handler l args w = Inr w' \<Longrightarrow> ge_asyncListeners (ge w') = ge_asyncListeners (ge w)"
  by (auto simp: handler_def and_then_def DispatchHandle_recordError_def GoEvent_recordError_def
      observe_def Let_def split: list.splits arg.splits option.splits if_splits prod.splits)

lemma wg_table:
  "GoEvent_wg_Add d w = Inr w' \<Longrightarrow> ge_asyncListeners (ge w') = ge_asyncListeners (ge w)"
  "DispatchHandle_wg_Add h d w = Inr w' \<Longrightarrow> ge_asyncListeners (ge w') = ge_asyncListeners (ge w)"
  by (auto simp: GoEvent_wg_Add_def DispatchHandle_wg_Add_def observe_def Let_def split: if_splits)

lemma and_then_Inr: "and_then r f = Inr y \<Longrightarrow> \<exists>x. r = Inr x \<and> f x = Inr y"
  by (cases r) (simp_all add: and_then_def)

lemma asyncHandler_table:
  assumes "asyncHandler l args w = Inr w'"
  shows "ge_asyncListeners (ge w') = ge_asyncListeners (ge w)"
proof (cases "\<exists>h rest. args = ArgHandle h # rest")
  case True
  then obtain h rest where a: "args = ArgHandle h # rest" by blast
  with assms obtain w1 w2 where "handler l args w = Inr w1" "GoEvent_wg_Done w1 = Inr w2"
    "DispatchHandle_wg_Done h w2 = Inr w'"
    by (auto simp: asyncHandler_def split: if_splits dest!: and_then_Inr)
  then show ?thesis
    by (metis handler_table wg_table GoEvent_wg_Done_def DispatchHandle_wg_Done_def)
next
  case False
  with assms have "and_then (handler l args w) GoEvent_wg_Done = Inr w'"
    by (auto simp: asyncHandler_def split: list.splits arg.splits)
  then obtain w1 where "handler l args w = Inr w1" "GoEvent_wg_Done w1 = Inr w'"
    by (auto dest!: and_then_Inr)
  then show ?thesis by (metis handler_table wg_table(1) GoEvent_wg_Done_def)
qed

lemma call_table:
  "call fn args w = Inr w' \<Longrightarrow> ge_asyncListeners (ge w') = ge_asyncListeners (ge w)"
  by (cases fn) (auto dest: handler_table asyncHandler_table)

lemma doPublish_table:
  "doPublish ehs args w = Inr w' \<Longrightarrow> ge_asyncListeners (ge w') = ge_asyncListeners (ge w)"
proof (induction ehs arbitrary: w)
  case Nil
  then show ?case by simp
next
  case (Cons eh ehs)
  show ?case
  proof (cases "async eh")
    case True
    with Cons.prems Cons.IH [of "spawn (GoCall (callBack eh) args) w"] show ?thesis
      by (simp add: spawn_def)
  next
    case False
    with Cons.prems obtain w1 where "call (callBack eh) args w = Inr w1"
      "doPublish ehs args w1 = Inr w'"
      by (auto dest!: and_then_Inr)
    with Cons.IH [of w1] show ?thesis by (simp add: call_table)
  qed
qed

lemma Dispatch_table:
  assumes "Dispatch e w = Inr (h, w')"
  shows "ge_asyncListeners (ge w') = ge_asyncListeners (ge w)"
proof -
  obtain s A1 where mk: "make_slice 0 (arrays w) = (s, A1)" by (cases "make_slice 0 (arrays w)")
  let ?w1 = "w\<lparr>heap := heap w @ [\<lparr>dh_wg = 0, dh_errors = s, dh_done = False\<rparr>], arrays := A1\<rparr>"
  let ?n = "asyncCount_of (ge_asyncListeners (ge w)) (Name e)"
  let ?r2 = "if ?n > 0 then and_then (GoEvent_wg_Add ?n ?w1) (DispatchHandle_wg_Add (length (heap w)) ?n)
             else Inr ?w1"
  have eq: "Dispatch e w =
      and_then (and_then ?r2 (Publish (Name e) [ArgHandle (length (heap w)), ArgEvent e]))
        (\<lambda>w3. Inr (length (heap w), spawn (GoWatch (length (heap w))) w3))"
    by (simp add: Dispatch_def Let_def mk)
  from assms have "and_then (and_then ?r2 (Publish (Name e) [ArgHandle (length (heap w)), ArgEvent e]))
      (\<lambda>w3. Inr (length (heap w), spawn (GoWatch (length (heap w))) w3)) = Inr (h, w')"
    unfolding eq .
  then obtain w2 w3 where w2: "?r2 = Inr w2"
    and w3: "Publish (Name e) [ArgHandle (length (heap w)), ArgEvent e] w2 = Inr w3"
    and w': "w' = spawn (GoWatch (length (heap w))) w3"
    by (auto dest!: and_then_Inr)
  have "ge_asyncListeners (ge w2) = ge_asyncListeners (ge w)"
  proof (cases "?n > 0")
    case True
    with w2 obtain wa where "GoEvent_wg_Add ?n ?w1 = Inr wa"
      "DispatchHandle_wg_Add (length (heap w)) ?n wa = Inr w2"
      by (auto dest!: and_then_Inr)
    then have "ge_asyncListeners (ge w2) = ge_asyncListeners (ge ?w1)" by (metis wg_table)
    then show ?thesis by simp
  next
    case False
    with w2 show ?thesis by auto
  qed
  moreover from w3 have "ge_asyncListeners (ge w3) = ge_asyncListeners (ge w2)"
    by (auto simp: Publish_def observe_def dest!: doPublish_table)
  ultimately show ?thesis by (simp add: w' spawn_def)
qed

lemma run_table:
  assumes "run i w = Some (Inr w')"
  shows "ge_asyncListeners (ge w') = ge_asyncListeners (ge w)"
proof -
  from assms have i: "i < length (goroutines w)" by (rule run_index)
  show ?thesis
  proof (cases "goroutines w ! i")
    case (GoCall fn args)
    with assms i have "call fn args (w\<lparr>goroutines := remove_nth i (goroutines w)\<rparr>) = Inr w'"
      by (simp add: run_def Let_def)
    then show ?thesis by (auto dest: call_table)
  next
    case (GoWatch h)
    from run_watch(3) [OF i GoWatch assms] show ?thesis by simp
  next
    case (GoMark h)
    from run_mark(3) [OF i GoMark assms] show ?thesis by simp
  qed
qed

lemma registerSingleListener_table:
  "asyncCount_of (ge_asyncListeners (ge (registerSingleListener l w))) name =
   asyncCount_of (ge_asyncListeners (ge w)) name +
     (if isAsync l \<and> name = ListenerEventName l then 1 else 0)"
  by (simp add: registerSingleListener_def isAsync_def Let_def Subscribe_def SubscribeAsync_def
      asyncCount_of_def)

lemma RegisterListener_table:
  "asyncCount_of (ge_asyncListeners (ge w)) name \<le>
   asyncCount_of (ge_asyncListeners (ge (RegisterListener ls w))) name"
proof (induction ls arbitrary: w)
  case Nil
  show ?case by simp
next
  case (Cons l ls)
  have "asyncCount_of (ge_asyncListeners (ge w)) name \<le>
      asyncCount_of (ge_asyncListeners (ge (registerSingleListener l w))) name"
    by (simp add: registerSingleListener_table)
  also note Cons.IH [of "registerSingleListener l w"]
  finally show ?case by simp
qed

lemma other_table:
  "ge_asyncListeners (ge (ClearErrors w)) = ge_asyncListeners (ge w)"
  "ge_asyncListeners (ge (snd (GetErrors w))) = ge_asyncListeners (ge w)"
  "DispatchHandle_GetErrors h w = Inr (c, w') \<Longrightarrow> ge_asyncListeners (ge w') = ge_asyncListeners (ge w)"
  "GoEvent_Wait w = Some w' \<Longrightarrow> w' = w"
  "DispatchHandle_Wait h w = Some w' \<Longrightarrow> w' = w"
  by (auto simp: ClearErrors_def GetErrors_def DispatchHandle_GetErrors_def GoEvent_Wait_def
      DispatchHandle_Wait_def observe_def Let_def split: prod.splits if_splits)

text \<open>
  C9. Only registration writes to the table of asynchronous listeners, and only by adding
  one: registering an asynchronous listener adds one to the entry of its event name,
  registering a synchronous listener changes nothing; Dispatch, the two waits, the two
  GetErrors, ClearErrors and the started goroutines leave the table as it is. So no step
  of the program makes an entry smaller.
\<close>

theorem asyncListeners_only_grows:
  "asyncCount_of (ge_asyncListeners (ge (registerSingleListener l w))) name =
     asyncCount_of (ge_asyncListeners (ge w)) name +
       (if isAsync l \<and> name = ListenerEventName l then 1 else 0) \<and>
   (\<not> isAsync l \<longrightarrow>
      ge_asyncListeners (ge (registerSingleListener l w)) = ge_asyncListeners (ge w)) \<and>
   (\<forall>e h w'. Dispatch e w = Inr (h, w') \<longrightarrow>
      ge_asyncListeners (ge w') = ge_asyncListeners (ge w)) \<and>
   (\<forall>w'. GoEvent_Wait w = Some w' \<longrightarrow> w' = w) \<and>
   (\<forall>h w'. DispatchHandle_Wait h w = Some w' \<longrightarrow> w' = w) \<and>
   ge_asyncListeners (ge (snd (GetErrors w))) = ge_asyncListeners (ge w) \<and>
   (\<forall>h c w'. DispatchHandle_GetErrors h w = Inr (c, w') \<longrightarrow>
      ge_asyncListeners (ge w') = ge_asyncListeners (ge w)) \<and>
   ge_asyncListeners (ge (ClearErrors w)) = ge_asyncListeners (ge w) \<and>
   (\<forall>i w'. run i w = Some (Inr w') \<longrightarrow> ge_asyncListeners (ge w') = ge_asyncListeners (ge w)) \<and>
   (\<forall>w'. step w w' \<longrightarrow>
      asyncCount_of (ge_asyncListeners (ge w)) name \<le> asyncCount_of (ge_asyncListeners (ge w')) name)"
proof -
  have sync: "\<not> isAsync l \<longrightarrow>
      ge_asyncListeners (ge (registerSingleListener l w)) = ge_asyncListeners (ge w)"
    by (simp add: registerSingleListener_def isAsync_def Let_def Subscribe_def)
  have mono: "asyncCount_of (ge_asyncListeners (ge w)) name \<le>
      asyncCount_of (ge_asyncListeners (ge w')) name" if "step w w'" for w'
    using that
  proof cases
    case (s_Register ls)
    then show ?thesis by (simp add: RegisterListener_table)
  next
    case (s_Dispatch e h)
    then show ?thesis by (simp add: Dispatch_table)
  next
    case s_Clear
    then show ?thesis by (simp add: other_table)
  next
    case s_GetErrors
    then show ?thesis by (simp add: other_table)
  next
    case (s_HandleGetErrors h s)
    then show ?thesis by (simp add: other_table(3))
  next
    case (s_Run i)
    then show ?thesis by (simp add: run_table)
  qed
  show ?thesis
    using sync mono
    by (auto simp: registerSingleListener_table other_table dest: Dispatch_table run_table)
qed

theorem asyncListeners_only_grows_witness:
  "asyncCount_of (ge_asyncListeners (ge (registerSingleListener testAsyncListener New))) ''test.event'' = 1 \<and>
   ge_asyncListeners (ge (registerSingleListener testSyncListener New)) = ge_asyncListeners (ge New) \<and>
   asyncCount_of (ge_asyncListeners (ge (dispatched [testAsyncListener] (TestEvent ''x'')))) ''test.event'' = 1 \<and>
   asyncCount_of (ge_asyncListeners (ge (ClearErrors (RegisterListener [testAsyncListener] New)))) ''test.event'' = 1"
proof -
  let ?w = "RegisterListener [testAsyncListener] New"
  have a: "isAsync testAsyncListener" "\<not> isAsync testSyncListener"
    "ListenerEventName testAsyncListener = ''test.event''"
    "asyncCount_of (ge_asyncListeners (ge New)) ''test.event'' = 0"
    by (simp_all add: isAsync_def eval_defs)
  obtain w' where D: "Dispatch (TestEvent ''x'') ?w = Inr (length (heap ?w), w')"
    using Dispatch_total [OF reachable_Register] by blast
  then have d: "dispatched [testAsyncListener] (TestEvent ''x'') = w'" by (simp add: dispatched_def)
  from asyncListeners_only_grows [of testAsyncListener New "''test.event''"] a
  have 1: "asyncCount_of (ge_asyncListeners (ge (registerSingleListener testAsyncListener New))) ''test.event'' = 1"
    by simp
  from asyncListeners_only_grows [of testSyncListener New "''test.event''"] a
  have 2: "ge_asyncListeners (ge (registerSingleListener testSyncListener New)) = ge_asyncListeners (ge New)"
    by simp
  from asyncListeners_only_grows [of testAsyncListener ?w "''test.event''"] D
  have 3: "ge_asyncListeners (ge w') = ge_asyncListeners (ge ?w)"
    and 4: "ge_asyncListeners (ge (ClearErrors ?w)) = ge_asyncListeners (ge ?w)"
    by blast+
  from 1 2 3 4 show ?thesis by (simp add: d)
qed

text \<open>
  C10. When the arguments of an adapter's callback are not a handle followed by an event
  (fewer than two arguments, or other values), the plain callback returns at once: the
  listener's OnEvent is not called, nothing is recorded in either log, nothing changes.
  The asynchronous callback then does its decrements and nothing else: the
  dispatcher's \<^verbatim>\<open>wg.Done()\<close> and, when the first argument is a handle, that handle's
  \<^verbatim>\<open>wg.Done()\<close>. With counters that are positive this leaves each of them one lower, the
  logs and the memory as they were, and adds no call of a listener to the observations.
\<close>

theorem malformed_arguments:
  assumes "\<not> (\<exists>h e rest. args = ArgHandle h # ArgEvent e # rest)"
  shows "handler l args w = Inr w \<and>
         asyncHandler l args w =
           (case args of
              ArgHandle h # _ \<Rightarrow>
                if h < length (heap w) then and_then (GoEvent_wg_Done w) (DispatchHandle_wg_Done h)
                else Inl NilDereference
            | _ \<Rightarrow> GoEvent_wg_Done w) \<and>
         (\<forall>h rest. args = ArgHandle h # rest \<and> h < length (heap w) \<and> 0 < ge_wg (ge w) \<and>
              0 < dh_wg (heap w ! h) \<longrightarrow>
            asyncHandler l args w =
              Inr (w\<lparr>ge := (ge w)\<lparr>ge_wg := ge_wg (ge w) - 1\<rparr>,
                     heap := (heap w)[h := (heap w ! h)\<lparr>dh_wg := dh_wg (heap w ! h) - 1\<rparr>],
                     trace := trace w @ [WgAdd Global (- 1), WgAdd (OfHandle h) (- 1)]\<rparr>)) \<and>
         ((\<forall>h rest. args \<noteq> ArgHandle h # rest) \<and> 0 < ge_wg (ge w) \<longrightarrow>
            asyncHandler l args w =
              Inr (w\<lparr>ge := (ge w)\<lparr>ge_wg := ge_wg (ge w) - 1\<rparr>,
                     trace := trace w @ [WgAdd Global (- 1)]\<rparr>))"
proof -
  from assms have H: "handler l args w = Inr w" by (rule handler_malformed)
  have A: "asyncHandler l args w =
           (case args of
              ArgHandle h # _ \<Rightarrow>
                if h < length (heap w) then and_then (GoEvent_wg_Done w) (DispatchHandle_wg_Done h)
                else Inl NilDereference
            | _ \<Rightarrow> GoEvent_wg_Done w)"
    using H by (auto simp: asyncHandler_def and_then_def split: list.splits arg.splits)
  have B: "asyncHandler l args w =
              Inr (w\<lparr>ge := (ge w)\<lparr>ge_wg := ge_wg (ge w) - 1\<rparr>,
                     heap := (heap w)[h := (heap w ! h)\<lparr>dh_wg := dh_wg (heap w ! h) - 1\<rparr>],
                     trace := trace w @ [WgAdd Global (- 1), WgAdd (OfHandle h) (- 1)]\<rparr>)"
    if "args = ArgHandle h # rest" "h < length (heap w)" "0 < ge_wg (ge w)"
      "0 < dh_wg (heap w ! h)" for h rest
  proof -
    have "asyncHandler l args w =
        and_then (GoEvent_wg_Done w) (DispatchHandle_wg_Done h)"
      unfolding A using that(1,2) by simp
    also from that(2-4) have "\<dots> =
        Inr (w\<lparr>ge := (ge w)\<lparr>ge_wg := ge_wg (ge w) - 1\<rparr>,
               heap := (heap w)[h := (heap w ! h)\<lparr>dh_wg := dh_wg (heap w ! h) - 1\<rparr>],
               trace := trace w @ [WgAdd Global (- 1), WgAdd (OfHandle h) (- 1)]\<rparr>)"
      by (simp add: and_then_def GoEvent_wg_Done_def GoEvent_wg_Add_def
          DispatchHandle_wg_Done_def DispatchHandle_wg_Add_def Let_def observe_def)
    finally show ?thesis .
  qed
  have C: "asyncHandler l args w =
              Inr (w\<lparr>ge := (ge w)\<lparr>ge_wg := ge_wg (ge w) - 1\<rparr>,
                     trace := trace w @ [WgAdd Global (- 1)]\<rparr>)"
    if "\<forall>h rest. args \<noteq> ArgHandle h # rest" "0 < ge_wg (ge w)"
  proof -
    have "asyncHandler l args w = GoEvent_wg_Done w"
      unfolding A using that(1) by (auto split: list.splits arg.splits)
    also from that(2) have "\<dots> =
        Inr (w\<lparr>ge := (ge w)\<lparr>ge_wg := ge_wg (ge w) - 1\<rparr>,
               trace := trace w @ [WgAdd Global (- 1)]\<rparr>)"
      by (simp add: GoEvent_wg_Done_def GoEvent_wg_Add_def Let_def observe_def)
    finally show ?thesis .
  qed
  from H A B C show ?thesis by blast
qed

text \<open>A pending asynchronous call of the world after a dispatch to \<^verbatim>\<open>testAsyncListener\<close>,
  had the bus passed the handle alone.\<close>

theorem malformed_arguments_witness:
  "handler testErrorListener [ArgHandle 0] (dispatched [testAsyncListener] (TestEvent ''x'')) =
     Inr (dispatched [testAsyncListener] (TestEvent ''x'')) \<and>
   asyncHandler testErrorListener [ArgHandle 0] (dispatched [testAsyncListener] (TestEvent ''x'')) =
     Inr ((dispatched [testAsyncListener] (TestEvent ''x''))
       \<lparr>ge := (ge (dispatched [testAsyncListener] (TestEvent ''x'')))\<lparr>ge_wg := 0\<rparr>,
        heap := [(heap (dispatched [testAsyncListener] (TestEvent ''x'')) ! 0)\<lparr>dh_wg := 0\<rparr>],
        trace := trace (dispatched [testAsyncListener] (TestEvent ''x'')) @
                 [WgAdd Global (- 1), WgAdd (OfHandle 0) (- 1)]\<rparr>) \<and>
   asyncHandler testErrorListener [ArgOther, ArgEvent (TestEvent ''x'')]
       (dispatched [testAsyncListener] (TestEvent ''x'')) =
     Inr ((dispatched [testAsyncListener] (TestEvent ''x''))
       \<lparr>ge := (ge (dispatched [testAsyncListener] (TestEvent ''x'')))\<lparr>ge_wg := 0\<rparr>,
        trace := trace (dispatched [testAsyncListener] (TestEvent ''x'')) @ [WgAdd Global (- 1)]\<rparr>)"
proof -
  let ?w = "dispatched [testAsyncListener] (TestEvent ''x'')"
  have w: "length (heap ?w) = 1" "ge_wg (ge ?w) = 1" "dh_wg (heap ?w ! 0) = 1"
    by (simp_all add: eval_defs)
  then have hp: "heap ?w = [heap ?w ! 0]" by (cases "heap ?w") simp_all
  have m1: "\<not> (\<exists>h e rest. [ArgHandle 0] = ArgHandle h # ArgEvent e # rest)"
    and m2: "\<not> (\<exists>h e rest. [ArgOther, ArgEvent (TestEvent ''x'')] = ArgHandle h # ArgEvent e # rest)"
    by simp_all
  note T1 = malformed_arguments [OF m1, of testErrorListener ?w]
  note T2 = malformed_arguments [OF m2, of testErrorListener ?w]
  from T1 have 1: "handler testErrorListener [ArgHandle 0] ?w = Inr ?w" by (rule conjunct1)
  from T1 have "\<forall>h rest. [ArgHandle 0] = ArgHandle h # rest \<and> h < length (heap ?w) \<and>
      0 < ge_wg (ge ?w) \<and> 0 < dh_wg (heap ?w ! h) \<longrightarrow>
      asyncHandler testErrorListener [ArgHandle 0] ?w =
        Inr (?w\<lparr>ge := (ge ?w)\<lparr>ge_wg := ge_wg (ge ?w) - 1\<rparr>,
               heap := (heap ?w)[h := (heap ?w ! h)\<lparr>dh_wg := dh_wg (heap ?w ! h) - 1\<rparr>],
               trace := trace ?w @ [WgAdd Global (- 1), WgAdd (OfHandle h) (- 1)]\<rparr>)"
    by (elim conjE)
  from this [rule_format, of 0 "[]"] w
  have 2: "asyncHandler testErrorListener [ArgHandle 0] ?w =
      Inr (?w\<lparr>ge := (ge ?w)\<lparr>ge_wg := ge_wg (ge ?w) - 1\<rparr>,
             heap := (heap ?w)[0 := (heap ?w ! 0)\<lparr>dh_wg := dh_wg (heap ?w ! 0) - 1\<rparr>],
             trace := trace ?w @ [WgAdd Global (- 1), WgAdd (OfHandle 0) (- 1)]\<rparr>)"
    by simp
  from T2 have "(\<forall>h rest. [ArgOther, ArgEvent (TestEvent ''x'')] \<noteq> ArgHandle h # rest) \<and>
      0 < ge_wg (ge ?w) \<longrightarrow>
      asyncHandler testErrorListener [ArgOther, ArgEvent (TestEvent ''x'')] ?w =
        Inr (?w\<lparr>ge := (ge ?w)\<lparr>ge_wg := ge_wg (ge ?w) - 1\<rparr>,
               trace := trace ?w @ [WgAdd Global (- 1)]\<rparr>)"
    by (elim conjE)
  with w
  have 3: "asyncHandler testErrorListener [ArgOther, ArgEvent (TestEvent ''x'')] ?w =
      Inr (?w\<lparr>ge := (ge ?w)\<lparr>ge_wg := ge_wg (ge ?w) - 1\<rparr>,
             trace := trace ?w @ [WgAdd Global (- 1)]\<rparr>)"
    by simp
  have upd: "(heap ?w)[0 := (heap ?w ! 0)\<lparr>dh_wg := 0\<rparr>] = [(heap ?w ! 0)\<lparr>dh_wg := 0\<rparr>]"
    by (subst hp) simp
  from 1 2 3 show ?thesis by (simp add: w upd)
qed

lemma run_no_panic:
  assumes "reachable w"
  shows "run i w \<noteq> Some (Inl p)"
proof (cases "i < length (goroutines w)")
  case False
  then show ?thesis by (simp add: run_def)
next
  case i: True
  from assms have inv: "invariant w" and m: "mem_inv [] w" by (simp_all add: reachable_invariant)
  show ?thesis
  proof (cases "goroutines w ! i")
    case (GoCall fn args)
    from run_call [OF inv m i GoCall] show ?thesis by auto
  next
    case (GoWatch h)
    with i show ?thesis by (simp add: run_def Let_def split: option.splits)
  next
    case (GoMark h)
    from inv have "inv_pool w" by (simp add: invariant_def)
    moreover from i GoMark have "GoMark h \<in> set (goroutines w)" by (metis nth_mem)
    ultimately have h: "h < length (heap w)" by (auto simp: inv_pool_def)
    with inv have c: "inv_cell w h" by (simp add: invariant_def)
    have "0 < length (filter (watcher_of h) (goroutines w))"
      by (rule length_filter_pos [OF i]) (simp add: GoMark)
    with c have "\<not> dh_done (heap w ! h)" by (auto simp: inv_cell_def)
    with i GoMark h show ?thesis by (simp add: run_def Let_def markDone_def)
  qed
qed

lemma handler_counters:
  assumes "handler l args w = Inr w'"
  shows "ge_wg (ge w') = ge_wg (ge w) \<and> map dh_wg (heap w') = map dh_wg (heap w) \<and>
         filter is_WgAdd (trace w') = filter is_WgAdd (trace w)"
proof (cases "\<exists>h e rest. args = ArgHandle h # ArgEvent e # rest")
  case False
  with assms show ?thesis by (simp add: handler_malformed)
next
  case True
  then obtain h e rest where a: "args = ArgHandle h # ArgEvent e # rest" by blast
  show ?thesis
  proof (cases "OnEvent l e")
    case None
    with assms a show ?thesis by (auto simp: handler_def observe_def)
  next
    case (Some err)
    with assms a have h: "h < length (heap w)"
      by (auto simp: handler_def and_then_def DispatchHandle_recordError_def observe_def Let_def
          split: if_splits)
    with assms a Some show ?thesis
      by (auto simp: handler_def and_then_def DispatchHandle_recordError_def
          GoEvent_recordError_def observe_def Let_def map_update map_update_same
          split: prod.splits)
  qed
qed

text \<open>
  C5. A started invocation of an asynchronous adapter in a reachable world runs the
  plain callback first (the call of OnEvent and, on failure, the two recordings) and
  then, whether OnEvent failed or not, takes one from the dispatcher's counter and one
  from the counter of the handle it was started for, once each, in that order; no other
  counter changes and the logs are what the plain callback left. The plain callback,
  which is all a synchronous adapter is, never changes a counter.
\<close>

theorem async_adapter_decrements_once:
  assumes "reachable w" and "i < length (goroutines w)" and "goroutines w ! i = GoCall fn args"
  shows "(\<exists>l h e w1 w'. fn = AsyncHandler l \<and> args = [ArgHandle h, ArgEvent e] \<and>
            h < length (heap w) \<and>
            handler l args (w\<lparr>goroutines := remove_nth i (goroutines w)\<rparr>) = Inr w1 \<and>
            trace w1 = trace w @ handler_obs h l e \<and>
            run i w = Some (Inr w') \<and>
            trace w' = trace w1 @ [WgAdd Global (- 1), WgAdd (OfHandle h) (- 1)] \<and>
            ge_wg (ge w') = ge_wg (ge w) - 1 \<and>
            dh_wg (heap w' ! h) = dh_wg (heap w ! h) - 1 \<and>
            (\<forall>k < length (heap w). k \<noteq> h \<longrightarrow> dh_wg (heap w' ! k) = dh_wg (heap w ! k)) \<and>
            global_log w' = global_log w1 \<and> handle_log h w' = handle_log h w1) \<and>
         (\<forall>l' args' v v'. handler l' args' v = Inr v' \<longrightarrow>
            ge_wg (ge v') = ge_wg (ge v) \<and> map dh_wg (heap v') = map dh_wg (heap v) \<and>
            filter is_WgAdd (trace v') = filter is_WgAdd (trace v))"
proof -
  from assms(1) have inv: "invariant w" and m: "mem_inv [] w" by (simp_all add: reachable_invariant)
  from run_call [OF inv m assms(2,3)] obtain l h e w1 where
    a: "fn = AsyncHandler l" "args = [ArgHandle h, ArgEvent e]" "h < length (heap w)"
      "handler l args (w\<lparr>goroutines := remove_nth i (goroutines w)\<rparr>) = Inr w1"
      "recorded [] h (failure_of l e) w w1" "trace w1 = trace w @ handler_obs h l e"
    and r: "run i w =
           Some (Inr (w1\<lparr>ge := (ge w1)\<lparr>ge_wg := ge_wg (ge w1) - 1\<rparr>,
                  heap := (heap w1)[h := (heap w1 ! h)\<lparr>dh_wg := dh_wg (heap w1 ! h) - 1\<rparr>],
                  trace := trace w1 @ [WgAdd Global (- 1), WgAdd (OfHandle h) (- 1)]\<rparr>))"
    by blast
  let ?w' = "w1\<lparr>ge := (ge w1)\<lparr>ge_wg := ge_wg (ge w1) - 1\<rparr>,
                  heap := (heap w1)[h := (heap w1 ! h)\<lparr>dh_wg := dh_wg (heap w1 ! h) - 1\<rparr>],
                  trace := trace w1 @ [WgAdd Global (- 1), WgAdd (OfHandle h) (- 1)]\<rparr>"
  from a(5) have q: "length (heap w1) = length (heap w)" "ge_wg (ge w1) = ge_wg (ge w)"
    "\<forall>k < length (heap w). dh_wg (heap w1 ! k) = dh_wg (heap w ! k)"
    by (simp_all add: recorded_def quiet_def)
  have 1: "trace ?w' = trace w1 @ [WgAdd Global (- 1), WgAdd (OfHandle h) (- 1)]"
    "ge_wg (ge ?w') = ge_wg (ge w) - 1" "dh_wg (heap ?w' ! h) = dh_wg (heap w ! h) - 1"
    "global_log ?w' = global_log w1" "handle_log h ?w' = handle_log h w1"
    using q a(3) by (simp_all add: global_log_def handle_log_def)
  have 2: "\<forall>k < length (heap w). k \<noteq> h \<longrightarrow> dh_wg (heap ?w' ! k) = dh_wg (heap w ! k)"
    using q by simp
  from a r 1 2 have "\<exists>l h e w1 w'. fn = AsyncHandler l \<and> args = [ArgHandle h, ArgEvent e] \<and>
            h < length (heap w) \<and>
            handler l args (w\<lparr>goroutines := remove_nth i (goroutines w)\<rparr>) = Inr w1 \<and>
            trace w1 = trace w @ handler_obs h l e \<and>
            run i w = Some (Inr w') \<and>
            trace w' = trace w1 @ [WgAdd Global (- 1), WgAdd (OfHandle h) (- 1)] \<and>
            ge_wg (ge w') = ge_wg (ge w) - 1 \<and>
            dh_wg (heap w' ! h) = dh_wg (heap w ! h) - 1 \<and>
            (\<forall>k < length (heap w). k \<noteq> h \<longrightarrow> dh_wg (heap w' ! k) = dh_wg (heap w ! k)) \<and>
            global_log w' = global_log w1 \<and> handle_log h w' = handle_log h w1"
    by blast
  then show ?thesis using handler_counters by blast
qed

theorem async_adapter_decrements_once_witness:
  "\<exists>w'. run 0 (dispatched [boomListener] (TestEvent ''x'')) = Some (Inr w') \<and>
     trace w' =
       [WgAdd Global 1, WgAdd (OfHandle 0) 1,
        Published ''test.event'' [ArgHandle 0, ArgEvent (TestEvent ''x'')],
        OnEventCalled 0 boomListener (TestEvent ''x''),
        ErrorRecorded (OfHandle 0) \<lparr>EventName = ''test.event'',
          ListenerType = ''*goevent.boomListener'', Err = ''boom''\<rparr>,
        ErrorRecorded Global \<lparr>EventName = ''test.event'',
          ListenerType = ''*goevent.boomListener'', Err = ''boom''\<rparr>,
        WgAdd Global (- 1), WgAdd (OfHandle 0) (- 1)] \<and>
     ge_wg (ge w') = 0 \<and> dh_wg (heap w' ! 0) = 0"
proof -
  let ?w = "dispatched [boomListener] (TestEvent ''x'')"
  have r: "reachable ?w" by (rule reachable_dispatched)
  have g: "0 < length (goroutines ?w)"
    "goroutines ?w ! 0 = GoCall (AsyncHandler boomListener) [ArgHandle 0, ArgEvent (TestEvent ''x'')]"
    by (simp_all add: eval_defs)
  have v: "ge_wg (ge ?w) = 1" "dh_wg (heap ?w ! 0) = 1"
    "trace ?w = [WgAdd Global 1, WgAdd (OfHandle 0) 1,
        Published ''test.event'' [ArgHandle 0, ArgEvent (TestEvent ''x'')]]"
    "handler_obs 0 boomListener (TestEvent ''x'') =
       [OnEventCalled 0 boomListener (TestEvent ''x''),
        ErrorRecorded (OfHandle 0) \<lparr>EventName = ''test.event'',
          ListenerType = ''*goevent.boomListener'', Err = ''boom''\<rparr>,
        ErrorRecorded Global \<lparr>EventName = ''test.event'',
          ListenerType = ''*goevent.boomListener'', Err = ''boom''\<rparr>]"
    by (simp_all add: handler_obs_def mkError_def eval_defs)
  from async_adapter_decrements_once [OF r g, THEN conjunct1]
  have "\<exists>w'. run 0 ?w = Some (Inr w') \<and>
      trace w' = trace ?w @ handler_obs 0 boomListener (TestEvent ''x'') @
        [WgAdd Global (- 1), WgAdd (OfHandle 0) (- 1)] \<and>
      ge_wg (ge w') = ge_wg (ge ?w) - 1 \<and> dh_wg (heap w' ! 0) = dh_wg (heap ?w ! 0) - 1"
    by (elim exE conjE) auto
  then show ?thesis unfolding v by simp
qed

lemma remove_nth_last: "remove_nth (length xs) (xs @ [x]) = xs"
  by (simp add: remove_nth_def)

lemma reachable_ran: "reachable w \<Longrightarrow> reachable (ran i w)"
  by (auto simp: ran_def split: option.splits sum.splits intro: r_step s_Run)

lemma step_done:
  assumes inv: "invariant w" and m: "mem_inv [] w" and s: "step w w'" and h: "h < length (heap w)"
  shows "h < length (heap w') \<and> (dh_done (heap w ! h) \<longrightarrow> dh_done (heap w' ! h)) \<and>
         (\<not> dh_done (heap w ! h) \<and> dh_done (heap w' ! h) \<longrightarrow>
            dh_wg (heap w ! h) = 0 \<and> trace w' = trace w @ [Closed h])"
  using s
proof cases
  case (s_Register ls)
  with h RegisterListener_frame [of ls w] show ?thesis by simp
next
  case (s_Dispatch e k)
  from inv have bus: "inv_bus w" and "inv_table w" "inv_count w" by (simp_all add: invariant_def)
  then have "0 \<le> asyncCount_of (ge_asyncListeners (ge w)) (Name e)" "0 \<le> ge_wg (ge w)"
    by (simp_all add: inv_table_def inv_count_def)
  from Dispatch_effect [OF bus this m] s_Dispatch h show ?thesis by auto
next
  case s_Clear
  from ClearErrors_effect(5) [OF m] h show ?thesis by (simp add: s_Clear quiet_def)
next
  case s_GetErrors
  from GetErrors_effect(6) [OF m] h show ?thesis unfolding s_GetErrors by auto
next
  case (s_HandleGetErrors k c)
  then have "k < length (heap w)" by (simp add: DispatchHandle_GetErrors_def split: if_splits)
  from DispatchHandle_GetErrors_effect [OF m this] s_HandleGetErrors h show ?thesis by auto
next
  case (s_Run i)
  then have i: "i < length (goroutines w)" by (rule run_index)
  show ?thesis
  proof (cases "goroutines w ! i")
    case (GoCall fn args)
    from run_call [OF inv m i GoCall] s_Run obtain l k e w1 where
      a: "k < length (heap w)" "recorded [] k (failure_of l e) w w1"
      and w': "w' = w1\<lparr>ge := (ge w1)\<lparr>ge_wg := ge_wg (ge w1) - 1\<rparr>,
                heap := (heap w1)[k := (heap w1 ! k)\<lparr>dh_wg := dh_wg (heap w1 ! k) - 1\<rparr>],
                trace := trace w1 @ [WgAdd Global (- 1), WgAdd (OfHandle k) (- 1)]\<rparr>"
      by auto
    from a(2) have q: "length (heap w1) = length (heap w)"
      "\<forall>j < length (heap w). dh_done (heap w1 ! j) = dh_done (heap w ! j)"
      by (simp_all add: recorded_def quiet_def)
    with h a(1) show ?thesis by (auto simp: w' nth_list_update)
  next
    case (GoWatch k)
    from run_watch(3) [OF i GoWatch s_Run] h show ?thesis by simp
  next
    case (GoMark k)
    note W = run_mark [OF i GoMark s_Run]
    from inv h have c: "inv_cell w h" by (simp add: invariant_def)
    have "k = h \<Longrightarrow> \<exists>g \<in> set (goroutines w). marker_of h g"
      using i GoMark by (metis marker_of.simps(1) nth_mem)
    with c have z: "k = h \<Longrightarrow> dh_wg (heap w ! h) = 0" by (auto simp: inv_cell_def)
    from W(1) h z show ?thesis by (auto simp: W(3) nth_list_update)
  qed
qed

lemma filter_one_nth: "length (filter P xs) = 1 \<Longrightarrow> \<exists>i < length xs. P (xs ! i)"
proof -
  assume "length (filter P xs) = 1"
  then have "filter P xs \<noteq> []" by auto
  then obtain x where "x \<in> set xs" "P x" by (auto simp: filter_empty_conv)
  then show ?thesis by (auto simp: in_set_conv_nth)
qed

lemma watcher_fires:
  assumes inv: "invariant w" and h: "h < length (heap w)" and n: "\<not> dh_done (heap w ! h)"
    and z: "dh_wg (heap w ! h) = 0"
  shows "\<exists>i w1. run i w = Some (Inr w1) \<and>
           (Done h w1 \<or> (\<exists>j w2. run j w1 = Some (Inr w2) \<and> Done h w2))"
proof -
  from inv h have "inv_cell w h" by (simp add: invariant_def)
  with n have "length (filter (watcher_of h) (goroutines w)) = 1" by (simp add: inv_cell_def)
  then obtain i where i: "i < length (goroutines w)" "watcher_of h (goroutines w ! i)"
    by (blast dest: filter_one_nth)
  let ?gs' = "remove_nth i (goroutines w)"
  let ?fired = "\<lambda>v. v\<lparr>heap := (heap w)[h := (heap w ! h)\<lparr>dh_done := True\<rparr>],
                        trace := trace w @ [Closed h]\<rparr>"
  from i(2) consider "goroutines w ! i = GoWatch h" | "goroutines w ! i = GoMark h"
    by (cases "goroutines w ! i") auto
  then show ?thesis
  proof cases
    case 1
    let ?w1 = "w\<lparr>goroutines := ?gs' @ [GoMark h]\<rparr>"
    have r1: "run i w = Some (Inr ?w1)"
      using i(1) 1 h z by (simp add: run_def Let_def DispatchHandle_Wait_def spawn_def)
    have r2: "run (length ?gs') ?w1 = Some (Inr (?fired (w\<lparr>goroutines := ?gs'\<rparr>)))"
      using h n by (simp add: run_def Let_def remove_nth_last markDone_def observe_def)
    have "Done h (?fired (w\<lparr>goroutines := ?gs'\<rparr>))" using h by (simp add: Done_def)
    with r1 r2 show ?thesis by blast
  next
    case 2
    have r1: "run i w = Some (Inr (?fired (w\<lparr>goroutines := ?gs'\<rparr>)))"
      using i(1) 2 h n by (simp add: run_def Let_def markDone_def observe_def)
    have "Done h (?fired (w\<lparr>goroutines := ?gs'\<rparr>))" using h by (simp add: Done_def)
    with r1 show ?thesis by blast
  qed
qed

text \<open>
  C2. For every handle of a reachable world: its channel has been closed once when it is
  closed and never when it is open (the observations hold at most one closing of it); it
  is closed only in worlds where the handle's counter is zero, and the step that closes
  it starts from a world where the counter is already zero; once closed it stays closed
  in every later step, and every receive from it returns and leaves the world as it is,
  whatever the number of receivers. While it is open and the counter is zero, the
  watcher can run, and running it closes the channel.
\<close>

theorem Done_fires_once:
  assumes "reachable w" and "h < length (heap w)"
  shows "length (filter (closed_of h) (trace w)) = (if Done h w then 1 else 0) \<and>
         (Done h w \<longrightarrow> dh_wg (heap w ! h) = 0 \<and> receive_Done h w = Some w) \<and>
         (\<forall>w'. step w w' \<longrightarrow>
            (Done h w \<longrightarrow> Done h w') \<and>
            (\<not> Done h w \<and> Done h w' \<longrightarrow>
               dh_wg (heap w ! h) = 0 \<and> trace w' = trace w @ [Closed h])) \<and>
         (\<not> Done h w \<and> dh_wg (heap w ! h) = 0 \<longrightarrow>
            (\<exists>i w1. run i w = Some (Inr w1) \<and>
               (Done h w1 \<or> (\<exists>j w2. run j w1 = Some (Inr w2) \<and> Done h w2))))"
proof -
  from assms(1) have inv: "invariant w" and m: "mem_inv [] w" by (simp_all add: reachable_invariant)
  from assms(1) have t: "inv_trace w" by (simp add: reachable_obs)
  from inv assms(2) have c: "inv_cell w h" by (simp add: invariant_def)
  have D: "Done h w = dh_done (heap w ! h)" using assms(2) by (simp add: Done_def)
  have 1: "length (filter (closed_of h) (trace w)) = (if Done h w then 1 else 0)"
    using t assms(2) by (simp add: inv_trace_def D)
  have 2: "Done h w \<longrightarrow> dh_wg (heap w ! h) = 0 \<and> receive_Done h w = Some w"
    using c by (auto simp: inv_cell_def D receive_Done_def)
  have 3: "(Done h w \<longrightarrow> Done h w') \<and>
           (\<not> Done h w \<and> Done h w' \<longrightarrow> dh_wg (heap w ! h) = 0 \<and> trace w' = trace w @ [Closed h])"
    if "step w w'" for w'
    using step_done [OF inv m that assms(2)] by (simp add: Done_def assms(2))
  have 4: "\<not> Done h w \<and> dh_wg (heap w ! h) = 0 \<longrightarrow>
            (\<exists>i w1. run i w = Some (Inr w1) \<and>
               (Done h w1 \<or> (\<exists>j w2. run j w1 = Some (Inr w2) \<and> Done h w2)))"
    using watcher_fires [OF inv assms(2)] by (simp add: D)
  from 1 2 3 4 show ?thesis by blast
qed

theorem Done_fires_once_witness:
  "\<not> Done 0 (dispatched [testAsyncListener] (TestEvent ''done test'')) \<and>
   filter (closed_of 0) (trace (dispatched [testAsyncListener] (TestEvent ''done test''))) = [] \<and>
   Done 0 (ran 0 (ran 0 (ran 0 (dispatched [testAsyncListener] (TestEvent ''done test''))))) \<and>
   length (filter (closed_of 0)
     (trace (ran 0 (ran 0 (ran 0 (dispatched [testAsyncListener] (TestEvent ''done test''))))))) = 1 \<and>
   dh_wg (heap (ran 0 (ran 0 (ran 0 (dispatched [testAsyncListener] (TestEvent ''done test''))))) ! 0) = 0 \<and>
   receive_Done 0 (ran 0 (ran 0 (ran 0 (dispatched [testAsyncListener] (TestEvent ''done test''))))) =
     Some (ran 0 (ran 0 (ran 0 (dispatched [testAsyncListener] (TestEvent ''done test'')))))"
proof -
  let ?a = "dispatched [testAsyncListener] (TestEvent ''done test'')"
  let ?d = "ran 0 (ran 0 (ran 0 ?a))"
  have ra: "reachable ?a" by (rule reachable_dispatched)
  then have rd: "reachable ?d" by (intro reachable_ran)
  have v: "0 < length (heap ?a)" "\<not> Done 0 ?a"
    by (simp_all add: eval_defs)
  have u: "0 < length (heap ?d)" "Done 0 ?d"
    by (simp_all add: ran_def eval_defs)
  from Done_fires_once [OF ra v(1)] v(2)
  have 1: "filter (closed_of 0) (trace ?a) = []" by simp
  from Done_fires_once [OF rd u(1)] u(2)
  have 2: "length (filter (closed_of 0) (trace ?d)) = 1" "dh_wg (heap ?d ! 0) = 0"
    "receive_Done 0 ?d = Some ?d"
    by simp_all
  from v(2) u(2) 1 2 show ?thesis by simp
qed


lemma steps_mem:
  assumes "steps w w2" and "invariant w" and "mem_inv extra w"
  shows "invariant w2 \<and> mem_inv extra w2 \<and>
         (\<forall>r \<in> set extra. read_slice r (arrays w2) = read_slice r (arrays w))"
  using assms
proof (induction rule: steps.induct)
  case (steps_refl w)
  then show ?case by simp
next
  case (steps_step w w1 w2)
  then have 1: "invariant w1" "mem_inv extra w1"
    "\<forall>r \<in> set extra. read_slice r (arrays w1) = read_slice r (arrays w)"
    by simp_all
  from invariant_step [OF 1(1,2) steps_step.hyps(2)] mem_step [OF 1(1,2) steps_step.hyps(2)] 1(3)
  show ?case by simp
qed

lemma assign_slice_other:
  assumes ok: "mem_ok A (c # ss)" and a: "assign_slice c i x A = Inr A'"
  shows "\<forall>r \<in> set ss. read_slice r A' = read_slice r A"
proof
  fix r assume r: "r \<in> set ss"
  from ok have "s_array c \<notin> s_array ` set ss" by (simp add: mem_ok_def)
  with r have "s_array r \<noteq> s_array c" by (metis imageI)
  moreover from a have "A' = A[s_array c := (A ! s_array c)[i := x]]"
    by (simp add: assign_slice_def split: if_splits)
  ultimately show "read_slice r A' = read_slice r A" by (simp add: read_slice_other)
qed

text \<open>
  C7. \<^verbatim>\<open>GetErrors\<close> on the dispatcher and on a handle return a new slice that holds the
  elements of the log in the log's order, and leave the log as it is. The slice shares
  no cell with any log: whatever the program does afterwards (recording errors, clearing
  the dispatcher's log, dispatching, further calls of \<^verbatim>\<open>GetErrors\<close>), the slice still reads
  as it did when it was returned; and an assignment to an element of the returned slice
  changes neither the dispatcher's log nor any handle's log.
\<close>

theorem GetErrors_snapshot:
  assumes "reachable w"
  shows "read_slice (fst (GetErrors w)) (arrays (snd (GetErrors w))) = global_log w \<and>
         global_log (snd (GetErrors w)) = global_log w \<and>
         (\<forall>w2. steps (snd (GetErrors w)) w2 \<longrightarrow>
            read_slice (fst (GetErrors w)) (arrays w2) = global_log w) \<and>
         (\<forall>i x A'. assign_slice (fst (GetErrors w)) i x (arrays (snd (GetErrors w))) = Inr A' \<longrightarrow>
            global_log ((snd (GetErrors w))\<lparr>arrays := A'\<rparr>) = global_log w \<and>
            (\<forall>k < length (heap w). handle_log k ((snd (GetErrors w))\<lparr>arrays := A'\<rparr>) = handle_log k w)) \<and>
         (\<forall>h < length (heap w). \<exists>c w1. DispatchHandle_GetErrors h w = Inr (c, w1) \<and>
            read_slice c (arrays w1) = handle_log h w \<and> handle_log h w1 = handle_log h w \<and>
            (\<forall>w2. steps w1 w2 \<longrightarrow> read_slice c (arrays w2) = handle_log h w) \<and>
            (\<forall>i x A'. assign_slice c i x (arrays w1) = Inr A' \<longrightarrow>
               global_log (w1\<lparr>arrays := A'\<rparr>) = global_log w \<and>
               (\<forall>k < length (heap w). handle_log k (w1\<lparr>arrays := A'\<rparr>) = handle_log k w)))"
proof -
  from assms have inv: "invariant w" and m: "mem_inv [] w" by (simp_all add: reachable_invariant)
  let ?c = "fst (GetErrors w)" and ?w1 = "snd (GetErrors w)"
  note G = GetErrors_effect [OF m]
  from G(6) obtain A where A: "?w1 = w\<lparr>arrays := A\<rparr>" by blast
  have inv1: "invariant ?w1" using inv by (simp add: A invariant_arrays)
  have m1: "mem_inv [?c] ?w1" using G(1) by simp
  have 1: "read_slice ?c (arrays w2) = global_log w" if "steps ?w1 w2" for w2
    using steps_mem [OF that inv1 m1] G(2) by simp
  have 2: "global_log (?w1\<lparr>arrays := A'\<rparr>) = global_log w \<and>
           (\<forall>k < length (heap w). handle_log k (?w1\<lparr>arrays := A'\<rparr>) = handle_log k w)"
    if "assign_slice ?c i x (arrays ?w1) = Inr A'" for i x A'
  proof -
    from m1 have "mem_ok (arrays ?w1) (?c # logs ?w1)" by (simp add: mem_inv_def)
    from assign_slice_other [OF this that]
    have "\<forall>r \<in> set (logs ?w1). read_slice r A' = read_slice r (arrays ?w1)" .
    then have "global_log (?w1\<lparr>arrays := A'\<rparr>) = global_log ?w1"
      "\<forall>k < length (heap ?w1). handle_log k (?w1\<lparr>arrays := A'\<rparr>) = handle_log k ?w1"
      by (simp_all add: logs_def global_log_def handle_log_def)
    with G(4,5) show ?thesis by (simp add: A)
  qed
  have 3: "\<exists>c w1. DispatchHandle_GetErrors h w = Inr (c, w1) \<and>
            read_slice c (arrays w1) = handle_log h w \<and> handle_log h w1 = handle_log h w \<and>
            (\<forall>w2. steps w1 w2 \<longrightarrow> read_slice c (arrays w2) = handle_log h w) \<and>
            (\<forall>i x A'. assign_slice c i x (arrays w1) = Inr A' \<longrightarrow>
               global_log (w1\<lparr>arrays := A'\<rparr>) = global_log w \<and>
               (\<forall>k < length (heap w). handle_log k (w1\<lparr>arrays := A'\<rparr>) = handle_log k w))"
    if h: "h < length (heap w)" for h
  proof -
    from DispatchHandle_GetErrors_effect [OF m h] obtain c B where
      H: "DispatchHandle_GetErrors h w = Inr (c, w\<lparr>arrays := B\<rparr>)"
        "mem_inv [c] (w\<lparr>arrays := B\<rparr>)" "read_slice c B = handle_log h w"
        "global_log (w\<lparr>arrays := B\<rparr>) = global_log w"
        "\<forall>k < length (heap w). handle_log k (w\<lparr>arrays := B\<rparr>) = handle_log k w"
      by blast
    let ?v = "w\<lparr>arrays := B\<rparr>"
    have invv: "invariant ?v" using inv by (simp add: invariant_arrays)
    have a: "read_slice c (arrays w2) = handle_log h w" if "steps ?v w2" for w2
      using steps_mem [OF that invv H(2)] H(3) by simp
    have b: "global_log (?v\<lparr>arrays := A'\<rparr>) = global_log w \<and>
           (\<forall>k < length (heap w). handle_log k (?v\<lparr>arrays := A'\<rparr>) = handle_log k w)"
      if "assign_slice c i x (arrays ?v) = Inr A'" for i x A'
    proof -
      from H(2) have "mem_ok (arrays ?v) (c # logs ?v)" by (simp add: mem_inv_def)
      from assign_slice_other [OF this that]
      have "\<forall>r \<in> set (logs ?v). read_slice r A' = read_slice r (arrays ?v)" .
      then have "global_log (?v\<lparr>arrays := A'\<rparr>) = global_log ?v"
        "\<forall>k < length (heap ?v). handle_log k (?v\<lparr>arrays := A'\<rparr>) = handle_log k ?v"
        by (simp_all add: logs_def global_log_def handle_log_def)
      with H(4,5) show ?thesis by simp
    qed
    from H(1,3,5) h a b show ?thesis by auto
  qed
  from G(2,4) 1 2 3 show ?thesis by blast
qed


lemma steps_ran: "steps w (ran i w)"
  by (auto simp: ran_def split: option.splits sum.splits
      intro: steps_refl steps_step [OF steps_refl] s_Run)

text \<open>A snapshot taken after a dispatch to a failing synchronous and a failing asynchronous
  listener; then the asynchronous listener runs and the dispatcher's log is cleared.\<close>

theorem GetErrors_snapshot_witness:
  "read_slice (fst (GetErrors (dispatched [testErrorListener, boomListener] (TestEvent ''x''))))
     (arrays (ClearErrors (ran 0
        (snd (GetErrors (dispatched [testErrorListener, boomListener] (TestEvent ''x''))))))) =
     [Some \<lparr>EventName = ''test.event'', ListenerType = ''*goevent.testErrorListener'',
            Err = ''test error''\<rparr>] \<and>
   global_log (ClearErrors (ran 0
        (snd (GetErrors (dispatched [testErrorListener, boomListener] (TestEvent ''x'')))))) = [] \<and>
   handle_log 0 (ClearErrors (ran 0
        (snd (GetErrors (dispatched [testErrorListener, boomListener] (TestEvent ''x'')))))) =
     [Some \<lparr>EventName = ''test.event'', ListenerType = ''*goevent.testErrorListener'',
            Err = ''test error''\<rparr>,
      Some \<lparr>EventName = ''test.event'', ListenerType = ''*goevent.boomListener'',
            Err = ''boom''\<rparr>]"
proof -
  let ?a = "dispatched [testErrorListener, boomListener] (TestEvent ''x'')"
  let ?b = "snd (GetErrors ?a)"
  let ?d = "ClearErrors (ran 0 ?b)"
  have r: "reachable ?a" by (rule reachable_dispatched)
  have s: "steps ?b ?d" by (rule steps_step [OF steps_ran s_Clear])
  have v: "global_log ?a =
     [Some \<lparr>EventName = ''test.event'', ListenerType = ''*goevent.testErrorListener'',
            Err = ''test error''\<rparr>]"
    by (simp add: eval_defs)
  have u: "global_log ?d = []"
    "handle_log 0 ?d =
     [Some \<lparr>EventName = ''test.event'', ListenerType = ''*goevent.testErrorListener'',
            Err = ''test error''\<rparr>,
      Some \<lparr>EventName = ''test.event'', ListenerType = ''*goevent.boomListener'',
            Err = ''boom''\<rparr>]"
    by (simp_all add: ran_def eval_defs)
  from GetErrors_snapshot [OF r]
  have "\<forall>w2. steps ?b w2 \<longrightarrow> read_slice (fst (GetErrors ?a)) (arrays w2) = global_log ?a"
    by (elim conjE)
  from this [rule_format, OF s] v u show ?thesis by (simp only:)
qed

lemmas conc_defs = Dispatch_under_def Dispatch_enter_def deliver_def dispatched_under_def

lemma conc_reachable_Register: "conc_reachable (RegisterListener ls New)"
  by (rule reachable_conc [OF reachable_Register])

text \<open>The position after an operation of the caller.\<close>

lemma next_position:
  assumes "Dispatch_step e h n pos w = Inr (pos', w1)"
  shows "pos = AtAddGlobal \<Longrightarrow> pos' = (if 0 < n then AtAddHandle else AtPublish)"
    and "pos = AtAddHandle \<Longrightarrow> pos' = AtPublish"
    and "pos = AtPublish \<Longrightarrow> pos' = InPublish (subscribers (Name e) w)"
    and "pos = InPublish (eh # ehs) \<Longrightarrow> pos' = InPublish ehs"
    and "pos = InPublish [] \<Longrightarrow> pos' = AtGo"
    and "pos = AtGo \<Longrightarrow> pos' = AtReturn"
  using assms by (auto simp: and_then_def subscribers_def split: if_splits sum.splits)

lemma own_obs_filters:
  shows "filter is_increment (own_obs e h n pos) =
           (if pos = AtAddGlobal \<and> 0 < n then [WgAdd Global n]
            else if pos = AtAddHandle \<and> 0 < n then [WgAdd (OfHandle h) n] else [])"
    and "filter is_publication (own_obs e h n pos) =
           (if pos = AtPublish then [Published (Name e) [ArgHandle h, ArgEvent e]] else [])"
proof -
  have H: "filter is_increment (handler_obs h l e) = []"
    "filter is_publication (handler_obs h l e) = []" for l
    by (simp_all add: handler_obs_def split: option.splits)
  have "filter is_increment (own_obs e h n pos) =
           (if pos = AtAddGlobal \<and> 0 < n then [WgAdd Global n]
            else if pos = AtAddHandle \<and> 0 < n then [WgAdd (OfHandle h) n] else []) \<and>
        filter is_publication (own_obs e h n pos) =
           (if pos = AtPublish then [Published (Name e) [ArgHandle h, ArgEvent e]] else [])"
  proof (cases pos)
    case (InPublish ehs)
    then show ?thesis by (cases ehs) (simp_all add: H)
  qed simp_all
  then show "filter is_increment (own_obs e h n pos) =
           (if pos = AtAddGlobal \<and> 0 < n then [WgAdd Global n]
            else if pos = AtAddHandle \<and> 0 < n then [WgAdd (OfHandle h) n] else [])"
    and "filter is_publication (own_obs e h n pos) =
           (if pos = AtPublish then [Published (Name e) [ArgHandle h, ArgEvent e]] else [])"
    by blast+
qed

lemma own_step_unique:
  assumes "good e h n pos w" and "pos \<noteq> AtReturn"
    and "Dispatch_step e h n pos w = Inr (pos', w1)"
  shows "trace w1 = trace w @ own_obs e h n pos"
    and "goroutines w1 = goroutines w @ own_spawn e h pos"
    and "length (heap w1) = length (heap w)"
    and "ge_bus (ge w1) = ge_bus (ge w)"
    and "ge_asyncListeners (ge w1) = ge_asyncListeners (ge w)"
    and "\<forall>k < length (heap w). dh_done (heap w1 ! k) = dh_done (heap w ! k)"
    and "dh_wg (heap w1 ! h) = dh_wg (heap w ! h) + (if pos = AtAddHandle then n else 0)"
    and "global_log w1 = global_log w @ arrived Global (own_obs e h n pos)"
    and "\<forall>k < length (heap w). handle_log k w1 =
           handle_log k w @ arrived (OfHandle k) (own_obs e h n pos)"
  using own_step [OF assms(1,2)] assms(3) by auto

text \<open>The observations of a call of Dispatch, from a position to the return: the
  additions that are still to be made come first and in their order, then the
  publication; nothing else adds a positive number to a counter.\<close>

lemma Dispatch_run_trace:
  assumes "Dispatch_run e h n ts pos w = Some (Inr w')" and "good e h n pos w"
  shows "\<exists>d. trace w' = trace w @ d \<and>
           (if before_publish pos then
              \<exists>d1 d2. d = d1 @ Published (Name e) [ArgHandle h, ArgEvent e] # d2 \<and>
                filter is_increment d1 = pending_adds h n pos \<and>
                filter is_publication d1 = [] \<and>
                filter is_increment d2 = [] \<and> filter is_publication d2 = []
            else filter is_increment d = [] \<and> filter is_publication d = [])"
  using assms
proof (induction rule: Dispatch_run_induct)
  case return
  show ?case by simp
next
  case (own pos w pos' w1)
  note U = own_step_unique [OF own(1,2,3)]
  note N = next_position [OF own(3)]
  note F = own_obs_filters [of e h n pos]
  let ?pub = "Published (Name e) [ArgHandle h, ArgEvent e]"
  from own(5) obtain d where d: "trace w' = trace w1 @ d"
    and sh: "if before_publish pos' then
              \<exists>d1 d2. d = d1 @ ?pub # d2 \<and>
                filter is_increment d1 = pending_adds h n pos' \<and>
                filter is_publication d1 = [] \<and>
                filter is_increment d2 = [] \<and> filter is_publication d2 = []
            else filter is_increment d = [] \<and> filter is_publication d = []"
    by blast
  have tr: "trace w' = trace w @ (own_obs e h n pos @ d)" by (simp add: d U(1))
  from own(1) have pk: "position_ok e n pos" unfolding good_def by blast
  have "if before_publish pos then
              \<exists>d1 d2. own_obs e h n pos @ d = d1 @ ?pub # d2 \<and>
                filter is_increment d1 = pending_adds h n pos \<and>
                filter is_publication d1 = [] \<and>
                filter is_increment d2 = [] \<and> filter is_publication d2 = []
            else filter is_increment (own_obs e h n pos @ d) = [] \<and>
                 filter is_publication (own_obs e h n pos @ d) = []"
  proof (cases pos)
    case AtAddGlobal
    show ?thesis
    proof (cases "0 < n")
      case True
      with N(1) AtAddGlobal have p': "pos' = AtAddHandle" by simp
      from sh obtain d1 d2 where "d = d1 @ ?pub # d2"
        "filter is_increment d1 = [WgAdd (OfHandle h) n]" "filter is_publication d1 = []"
        "filter is_increment d2 = []" "filter is_publication d2 = []"
        by (auto simp: p')
      then have "own_obs e h n pos @ d = (WgAdd Global n # d1) @ ?pub # d2 \<and>
          filter is_increment (WgAdd Global n # d1) = pending_adds h n pos \<and>
          filter is_publication (WgAdd Global n # d1) = [] \<and>
          filter is_increment d2 = [] \<and> filter is_publication d2 = []"
        using True by (simp add: AtAddGlobal)
      then show ?thesis unfolding AtAddGlobal by (simp only: before_publish.simps if_True) blast
    next
      case False
      with N(1) AtAddGlobal have p': "pos' = AtPublish" by simp
      from sh obtain d1 d2 where "d = d1 @ ?pub # d2"
        "filter is_increment d1 = []" "filter is_publication d1 = []"
        "filter is_increment d2 = []" "filter is_publication d2 = []"
        by (auto simp: p')
      then have "own_obs e h n pos @ d = d1 @ ?pub # d2 \<and>
          filter is_increment d1 = pending_adds h n pos \<and>
          filter is_publication d1 = [] \<and>
          filter is_increment d2 = [] \<and> filter is_publication d2 = []"
        using False by (simp add: AtAddGlobal)
      then show ?thesis unfolding AtAddGlobal by (simp only: before_publish.simps if_True) blast
    qed
  next
    case AtAddHandle
    with N(2) have p': "pos' = AtPublish" by simp
    from pk have np: "0 < n" by (simp add: AtAddHandle)
    from sh obtain d1 d2 where "d = d1 @ ?pub # d2"
      "filter is_increment d1 = []" "filter is_publication d1 = []"
      "filter is_increment d2 = []" "filter is_publication d2 = []"
      by (auto simp: p')
    then have "own_obs e h n pos @ d = (WgAdd (OfHandle h) n # d1) @ ?pub # d2 \<and>
        filter is_increment (WgAdd (OfHandle h) n # d1) = pending_adds h n pos \<and>
        filter is_publication (WgAdd (OfHandle h) n # d1) = [] \<and>
        filter is_increment d2 = [] \<and> filter is_publication d2 = []"
      using np by (simp add: AtAddHandle)
    then show ?thesis unfolding AtAddHandle by (simp only: before_publish.simps if_True) blast
  next
    case AtPublish
    with N(3) have p': "pos' = InPublish (subscribers (Name e) w)" by simp
    from sh have "filter is_increment d = []" "filter is_publication d = []"
      by (simp_all add: p')
    then have "own_obs e h n pos @ d = [] @ ?pub # d \<and>
        filter is_increment [] = pending_adds h n pos \<and>
        filter is_publication [] = [] \<and>
        filter is_increment d = [] \<and> filter is_publication d = []"
      by (simp add: AtPublish)
    then show ?thesis unfolding AtPublish by (simp only: before_publish.simps if_True) blast
  next
    case (InPublish ehs)
    have "\<not> before_publish pos'"
      using N(4,5) InPublish by (cases ehs) simp_all
    with sh have "filter is_increment d = []" "filter is_publication d = []" by simp_all
    then show ?thesis using F by (simp add: InPublish)
  next
    case AtGo
    with N(6) have p': "pos' = AtReturn" by simp
    from sh have "filter is_increment d = []" "filter is_publication d = []"
      by (simp_all add: p')
    then show ?thesis by (simp add: AtGo)
  next
    case AtReturn
    with own(2) show ?thesis by simp
  qed
  with tr show ?case by blast
next
  case (other pos w i w1)
  let ?pub = "Published (Name e) [ArgHandle h, ArgEvent e]"
  let ?x = "gor_obs (goroutines w ! i)"
  note rn = good_runnable [OF other(1)]
  note E = run_effect [OF rn good_mem [OF other(1)] other(2)]
  from rn E(1) have "gor_ok (length (heap w)) (goroutines w ! i)"
    by (simp add: runnable_def inv_pool_def)
  note O = gor_obs_ok [OF this]
  from other(4) obtain d where d: "trace w' = trace w1 @ d"
    and sh: "if before_publish pos then
              \<exists>d1 d2. d = d1 @ ?pub # d2 \<and>
                filter is_increment d1 = pending_adds h n pos \<and>
                filter is_publication d1 = [] \<and>
                filter is_increment d2 = [] \<and> filter is_publication d2 = []
            else filter is_increment d = [] \<and> filter is_publication d = []"
    by blast
  have tr: "trace w' = trace w @ (?x @ d)" by (simp add: d E(2))
  have "if before_publish pos then
              \<exists>d1 d2. ?x @ d = d1 @ ?pub # d2 \<and>
                filter is_increment d1 = pending_adds h n pos \<and>
                filter is_publication d1 = [] \<and>
                filter is_increment d2 = [] \<and> filter is_publication d2 = []
            else filter is_increment (?x @ d) = [] \<and> filter is_publication (?x @ d) = []"
  proof (cases "before_publish pos")
    case True
    with sh obtain d1 d2 where "d = d1 @ ?pub # d2"
      "filter is_increment d1 = pending_adds h n pos" "filter is_publication d1 = []"
      "filter is_increment d2 = []" "filter is_publication d2 = []"
      by auto
    then have "?x @ d = (?x @ d1) @ ?pub # d2 \<and>
        filter is_increment (?x @ d1) = pending_adds h n pos \<and>
        filter is_publication (?x @ d1) = [] \<and>
        filter is_increment d2 = [] \<and> filter is_publication d2 = []"
      by (simp add: O(3,4))
    then show ?thesis unfolding if_P [OF True] by blast
  next
    case False
    with sh show ?thesis by (simp add: O(3,4))
  qed
  with tr show ?case by blast
qed

text \<open>
  C4. In every call of Dispatch, whatever the started goroutines do in the meantime: the
  call reads the count \<open>n\<close> of asynchronous listeners of the event's name, which is the
  number of asynchronous subscriptions on that topic. Of all that is observed between the
  call and its return, what comes before the publication holds exactly two additions of
  a positive number to a counter when \<open>n\<close> is positive, \<open>n\<close> to the dispatcher's counter and
  then \<open>n\<close> to the new handle's counter, and none when \<open>n\<close> is zero; after the publication
  nothing adds a positive number to a counter, and the event is published once.
\<close>

theorem Dispatch_adds_before_publish:
  assumes "conc_reachable w" and "Dispatch_under ts e w = Some (Inr (h, w'))"
  shows "asyncCount_of (ge_asyncListeners (ge w)) (Name e) =
           int (length (asyncSubs (Name e) (ge_bus (ge w)))) \<and>
         (\<exists>d1 d2. trace w' = trace w @ d1 @ Published (Name e) [ArgHandle h, ArgEvent e] # d2 \<and>
            filter is_increment d1 =
              (if 0 < asyncCount_of (ge_asyncListeners (ge w)) (Name e)
               then [WgAdd Global (asyncCount_of (ge_asyncListeners (ge w)) (Name e)),
                     WgAdd (OfHandle h) (asyncCount_of (ge_asyncListeners (ge w)) (Name e))]
               else []) \<and>
            filter is_publication d1 = [] \<and>
            filter is_increment d2 = [] \<and> filter is_publication d2 = [])"
proof -
  let ?n = "asyncCount_of (ge_asyncListeners (ge w)) (Name e)"
  from conc_reachable_invariant [OF assms(1)]
  have I: "invariant w" "mem_inv [] w" "inv_trace w" "inv_logs w" "inv_arrival w" by blast+
  from I(1) have 1: "?n = int (length (asyncSubs (Name e) (ge_bus (ge w))))"
    by (simp add: invariant_def inv_table_def)
  from Dispatch_enter_good [OF I, of e] obtain w1 where
    en: "Dispatch_enter e w = (length (heap w), ?n, w1)"
    and G: "good e (length (heap w)) ?n AtAddGlobal w1" and tr: "trace w1 = trace w"
    by blast
  from assms(2) en have r: "Dispatch_run e (length (heap w)) ?n ts AtAddGlobal w1 = Some (Inr w')"
    and h: "h = length (heap w)"
    by (auto simp: Dispatch_under_def split: option.splits sum.splits)
  from Dispatch_run_trace [OF r G] obtain d1 d2 where
    d: "trace w' = trace w1 @ d1 @ Published (Name e) [ArgHandle (length (heap w)), ArgEvent e] # d2"
      "filter is_increment d1 = pending_adds (length (heap w)) ?n AtAddGlobal"
      "filter is_publication d1 = []" "filter is_increment d2 = []" "filter is_publication d2 = []"
    by auto
  have 2: "\<exists>d1 d2. trace w' = trace w @ d1 @ Published (Name e) [ArgHandle h, ArgEvent e] # d2 \<and>
            filter is_increment d1 =
              (if 0 < ?n then [WgAdd Global ?n, WgAdd (OfHandle h) ?n] else []) \<and>
            filter is_publication d1 = [] \<and>
            filter is_increment d2 = [] \<and> filter is_publication d2 = []"
    by (rule exI [of _ d1], rule exI [of _ d2]) (use d tr h in simp)
  from 1 2 show ?thesis ..
qed

lemma dispatched_under_eq:
  "Dispatch_under ts e (RegisterListener ls New) = Some (Inr (h, w')) \<Longrightarrow>
   dispatched_under ts ls e = w'"
  by (simp add: dispatched_under_def)

text \<open>
  A dispatch to \<^verbatim>\<open>testSyncListener\<close> and \<^verbatim>\<open>testAsyncListener\<close> in which the goroutine of the
  asynchronous listener runs as soon as the publication has started it, before the call
  returns: at the return both counters are back at zero.
\<close>

theorem Dispatch_adds_before_publish_witness:
  "Dispatch_under [Own, Own, Own, Own, Own, Other 0, Own, Own] (TestEvent ''multi test'')
     (RegisterListener [testSyncListener, testAsyncListener] New) =
     Some (Inr (0, dispatched_under [Own, Own, Own, Own, Own, Other 0, Own, Own]
                     [testSyncListener, testAsyncListener] (TestEvent ''multi test''))) \<and>
   trace (dispatched_under [Own, Own, Own, Own, Own, Other 0, Own, Own]
            [testSyncListener, testAsyncListener] (TestEvent ''multi test'')) =
     [WgAdd Global 1, WgAdd (OfHandle 0) 1,
      Published ''test.event'' [ArgHandle 0, ArgEvent (TestEvent ''multi test'')],
      OnEventCalled 0 testSyncListener (TestEvent ''multi test''),
      OnEventCalled 0 testAsyncListener (TestEvent ''multi test''),
      WgAdd Global (- 1), WgAdd (OfHandle 0) (- 1)] \<and>
   dh_wg (heap (dispatched_under [Own, Own, Own, Own, Own, Other 0, Own, Own]
            [testSyncListener, testAsyncListener] (TestEvent ''multi test'')) ! 0) = 0 \<and>
   (\<exists>d1 d2.
      trace (dispatched_under [Own, Own, Own, Own, Own, Other 0, Own, Own]
               [testSyncListener, testAsyncListener] (TestEvent ''multi test'')) =
        d1 @ Published ''test.event'' [ArgHandle 0, ArgEvent (TestEvent ''multi test'')] # d2 \<and>
      filter is_increment d1 = [WgAdd Global 1, WgAdd (OfHandle 0) 1] \<and>
      filter is_publication d1 = [] \<and>
      filter is_increment d2 = [] \<and> filter is_publication d2 = [])"
proof -
  let ?ts = "[Own, Own, Own, Own, Own, Other 0, Own, Own]"
  let ?ls = "[testSyncListener, testAsyncListener]"
  let ?e = "TestEvent ''multi test''"
  let ?reg = "RegisterListener ?ls New"
  let ?w = "dispatched_under ?ts ?ls ?e"
  have "\<exists>w'. Dispatch_under ?ts ?e ?reg = Some (Inr (0, w'))"
    by (simp add: conc_defs eval_defs)
  then have D: "Dispatch_under ?ts ?e ?reg = Some (Inr (0, ?w))"
    by (auto simp: dispatched_under_def)
  have v: "trace ?w =
     [WgAdd Global 1, WgAdd (OfHandle 0) 1,
      Published ''test.event'' [ArgHandle 0, ArgEvent ?e],
      OnEventCalled 0 testSyncListener ?e, OnEventCalled 0 testAsyncListener ?e,
      WgAdd Global (- 1), WgAdd (OfHandle 0) (- 1)]"
    "dh_wg (heap ?w ! 0) = 0"
    by (simp_all add: conc_defs eval_defs)
  have c: "asyncCount_of (ge_asyncListeners (ge ?reg)) ''test.event'' = 1" "trace ?reg = []"
    "Name ?e = ''test.event''"
    by (simp_all add: eval_defs)
  from Dispatch_adds_before_publish [OF conc_reachable_Register D]
  have "\<exists>d1 d2. trace ?w = d1 @ Published ''test.event'' [ArgHandle 0, ArgEvent ?e] # d2 \<and>
      filter is_increment d1 = [WgAdd Global 1, WgAdd (OfHandle 0) 1] \<and>
      filter is_publication d1 = [] \<and>
      filter is_increment d2 = [] \<and> filter is_publication d2 = []"
    by (simp add: c del: RegisterListener.simps)
  with D v show ?thesis by (simp only:)
qed

lemma Dispatch_run_counter:
  assumes "Dispatch_run e h n ts pos w = Some (Inr w')" and "good e h n pos w" and "n = 0"
  shows "dh_wg (heap w ! h) = 0 \<longrightarrow> dh_wg (heap w' ! h) = 0"
  using assms(1,2)
proof (induction rule: Dispatch_run_induct)
  case return
  show ?case by simp
next
  case (own pos w pos' w1)
  from own_step_unique(7) [OF own(1,2,3)] assms(3) own(5) show ?case by simp
next
  case (other pos w i w1)
  note rn = good_runnable [OF other(1)]
  note E = run_effect [OF rn good_mem [OF other(1)] other(2)]
  from other(1) have h: "h < length (heap w)" unfolding good_def by blast
  show ?case
  proof
    assume z: "dh_wg (heap w ! h) = 0"
    have "\<not> call_of h (goroutines w ! i)"
    proof
      assume "call_of h (goroutines w ! i)"
      moreover have "goroutines w ! i \<in> set (goroutines w)" using E(1) by simp
      ultimately have "0 < dh_wg (heap w ! h)" using rn h unfolding runnable_def by blast
      with z show False by simp
    qed
    with E(10) h z have "dh_wg (heap w1 ! h) = 0" by simp
    with other(4) show "dh_wg (heap w' ! h) = 0" by simp
  qed
qed

text \<open>
  C1 (as amended). When the count of asynchronous listeners of the event's name is zero,
  then under every schedule the handle that Dispatch returns has its counter at zero, so
  \<^verbatim>\<open>Wait\<close> on it returns at once. The completion channel may still be open at that moment:
  Dispatch only starts the watcher goroutine, just before it returns. Either the watcher
  has already run and the channel is closed, or the watcher can run (its wait does not
  block), and once it has run, its wait and then its \<^verbatim>\<open>markDone\<close>, the channel is closed.
\<close>

theorem Dispatch_zero_async:
  assumes "conc_reachable w" and "asyncCount_of (ge_asyncListeners (ge w)) (Name e) = 0"
    and "Dispatch_under ts e w = Some (Inr (h, w'))"
  shows "DispatchHandle_Wait h w' = Some w' \<and>
         (Done h w' \<or>
          (\<exists>i w1. run i w' = Some (Inr w1) \<and>
             (Done h w1 \<or> (\<exists>j w2. run j w1 = Some (Inr w2) \<and> Done h w2))))"
proof -
  from conc_reachable_invariant [OF assms(1)]
  have I: "invariant w" "mem_inv [] w" "inv_trace w" "inv_logs w" "inv_arrival w" by blast+
  from Dispatch_enter_good [OF I, of e] assms(2) obtain w1 where
    en: "Dispatch_enter e w = (length (heap w), 0, w1)"
    and G: "good e (length (heap w)) 0 AtAddGlobal w1"
    and z: "dh_wg (heap w1 ! length (heap w)) = 0"
    by auto
  from assms(3) en have r: "Dispatch_run e (length (heap w)) 0 ts AtAddGlobal w1 = Some (Inr w')"
    and h: "h = length (heap w)"
    by (auto simp: Dispatch_under_def split: option.splits sum.splits)
  from Dispatch_run_counter [OF r G] z h have c: "dh_wg (heap w' ! h) = 0" by simp
  from Dispatch_run_good [OF r G] h have inv: "invariant w'" and hl: "h < length (heap w')"
    by (simp_all add: good_def)
  from c hl have 1: "DispatchHandle_Wait h w' = Some w'" by (simp add: DispatchHandle_Wait_def)
  have 2: "Done h w' \<or>
          (\<exists>i w1. run i w' = Some (Inr w1) \<and>
             (Done h w1 \<or> (\<exists>j w2. run j w1 = Some (Inr w2) \<and> Done h w2)))"
  proof (cases "dh_done (heap w' ! h)")
    case True
    with hl show ?thesis by (simp add: Done_def)
  next
    case False
    from watcher_fires [OF inv hl False c] show ?thesis ..
  qed
  from 1 2 show ?thesis ..
qed

text \<open>
  The test \<^verbatim>\<open>TestSyncListener\<close> under the schedule in which the watcher runs before
  Dispatch returns: the wait does not block, and the channel is already closed.
\<close>

theorem Dispatch_zero_async_witness:
  "Dispatch_under [Own, Own, Own, Own, Own, Other 0, Other 0] (TestEvent ''sync test'')
     (RegisterListener [testSyncListener] New) =
     Some (Inr (0, dispatched_under [Own, Own, Own, Own, Own, Other 0, Other 0]
                     [testSyncListener] (TestEvent ''sync test''))) \<and>
   Done 0 (dispatched_under [Own, Own, Own, Own, Own, Other 0, Other 0]
             [testSyncListener] (TestEvent ''sync test'')) \<and>
   DispatchHandle_Wait 0
     (dispatched_under [Own, Own, Own, Own, Own, Other 0, Other 0]
        [testSyncListener] (TestEvent ''sync test'')) =
     Some (dispatched_under [Own, Own, Own, Own, Own, Other 0, Other 0]
        [testSyncListener] (TestEvent ''sync test''))"
proof -
  let ?ts = "[Own, Own, Own, Own, Own, Other 0, Other 0]"
  let ?e = "TestEvent ''sync test''"
  let ?reg = "RegisterListener [testSyncListener] New"
  let ?w = "dispatched_under ?ts [testSyncListener] ?e"
  have "\<exists>w'. Dispatch_under ?ts ?e ?reg = Some (Inr (0, w'))"
    by (simp add: conc_defs eval_defs)
  then have D: "Dispatch_under ?ts ?e ?reg = Some (Inr (0, ?w))"
    by (auto simp: dispatched_under_def)
  have c: "asyncCount_of (ge_asyncListeners (ge ?reg)) (Name ?e) = 0"
    by (simp add: eval_defs)
  have v: "Done 0 ?w" by (simp add: conc_defs eval_defs)
  from Dispatch_zero_async [OF conc_reachable_Register c D]
  have "DispatchHandle_Wait 0 ?w = Some ?w" ..
  with D v show ?thesis by (simp only:)
qed

text \<open>
  The claim as it was stated fails on the test \<^verbatim>\<open>TestSyncListener\<close>, one synchronous
  listener and no asynchronous one, under the schedule in which no started goroutine runs
  before the return. When Dispatch returns, the handle's wait does not block, and the
  completion channel is still open: the watcher has been started and has not run.
\<close>

theorem Dispatch_zero_async_counterexample:
  "asyncCount_of (ge_asyncListeners (ge (RegisterListener [testSyncListener] New)))
     (Name (TestEvent ''sync test'')) = 0 \<and>
   Dispatch_under [Own, Own, Own, Own, Own] (TestEvent ''sync test'')
     (RegisterListener [testSyncListener] New) =
     Some (Dispatch (TestEvent ''sync test'') (RegisterListener [testSyncListener] New)) \<and>
   \<not> isl (Dispatch (TestEvent ''sync test'') (RegisterListener [testSyncListener] New)) \<and>
   fst (projr (Dispatch (TestEvent ''sync test'') (RegisterListener [testSyncListener] New))) = 0 \<and>
   DispatchHandle_Wait 0 (dispatched [testSyncListener] (TestEvent ''sync test'')) =
     Some (dispatched [testSyncListener] (TestEvent ''sync test'')) \<and>
   \<not> Done 0 (dispatched [testSyncListener] (TestEvent ''sync test'')) \<and>
   goroutines (dispatched [testSyncListener] (TestEvent ''sync test'')) = [GoWatch 0]"
  by (simp add: conc_defs eval_defs)

lemma own_serve:
  assumes "good e h n pos w" and "pos \<noteq> AtReturn"
    and "Dispatch_step e h n pos w = Inr (pos', w1)"
  shows "sync_failures e (to_serve e pos w) =
           arrived (OfHandle h) (own_obs e h n pos) @ sync_failures e (to_serve e pos' w1)"
    and "arrived Global (own_obs e h n pos) = arrived (OfHandle h) (own_obs e h n pos)"
proof -
  note U = own_step_unique [OF assms]
  note N = next_position [OF assms(3)]
  have sb: "subscribers (Name e) w1 = subscribers (Name e) w" by (simp add: subscribers_def U(4))
  have "sync_failures e (to_serve e pos w) =
           arrived (OfHandle h) (own_obs e h n pos) @ sync_failures e (to_serve e pos' w1) \<and>
        arrived Global (own_obs e h n pos) = arrived (OfHandle h) (own_obs e h n pos)"
  proof (cases pos)
    case AtAddGlobal
    with N(1) sb show ?thesis by (simp add: arrived_def)
  next
    case AtAddHandle
    with N(2) sb show ?thesis by (simp add: arrived_def)
  next
    case AtPublish
    with N(3) show ?thesis by (simp add: arrived_def)
  next
    case (InPublish ehs)
    show ?thesis
    proof (cases ehs)
      case Nil
      with N(5) InPublish show ?thesis by (simp add: arrived_def sync_Nil)
    next
      case (Cons eh ehs')
      with N(4) InPublish have "pos' = InPublish ehs'" by simp
      then show ?thesis
        by (simp add: InPublish Cons sync_Cons handler_obs_arrived arrived_nil)
    qed
  next
    case AtGo
    with N(6) show ?thesis by (simp add: arrived_def sync_Nil)
  next
    case AtReturn
    with assms(2) show ?thesis by simp
  qed
  then show "sync_failures e (to_serve e pos w) =
           arrived (OfHandle h) (own_obs e h n pos) @ sync_failures e (to_serve e pos' w1)"
    and "arrived Global (own_obs e h n pos) = arrived (OfHandle h) (own_obs e h n pos)"
    by blast+
qed

text \<open>The error logs, from a position of a call of Dispatch to its return: both grow, and
  what they gain holds the failures of the synchronous listeners still to be served, in
  the order of their subscriptions.\<close>

lemma Dispatch_run_logs:
  assumes "Dispatch_run e h n ts pos w = Some (Inr w')" and "good e h n pos w"
  shows "\<exists>xs ys. handle_log h w' = handle_log h w @ xs \<and> global_log w' = global_log w @ ys \<and>
           subseq (sync_failures e (to_serve e pos w)) xs \<and>
           subseq (sync_failures e (to_serve e pos w)) ys"
  using assms
proof (induction rule: Dispatch_run_induct)
  case return
  show ?case by (simp add: sync_Nil)
next
  case (own pos w pos' w1)
  note U = own_step_unique [OF own(1,2,3)]
  note S = own_serve [OF own(1,2,3)]
  from own(1) have h: "h < length (heap w)" unfolding good_def by blast
  let ?A = "arrived (OfHandle h) (own_obs e h n pos)"
  from own(5) obtain xs ys where
    x: "handle_log h w' = handle_log h w1 @ xs" "global_log w' = global_log w1 @ ys"
      "subseq (sync_failures e (to_serve e pos' w1)) xs"
      "subseq (sync_failures e (to_serve e pos' w1)) ys"
    by blast
  have 1: "handle_log h w' = handle_log h w @ (?A @ xs)" using U(9) h x(1) by simp
  have 2: "global_log w' = global_log w @ (?A @ ys)" using U(8) x(2) by (simp add: S(2))
  have 3: "subseq (sync_failures e (to_serve e pos w)) (?A @ xs)"
    "subseq (sync_failures e (to_serve e pos w)) (?A @ ys)"
    unfolding S(1) using x(3,4) by (auto intro: list_emb_append_mono)
  from 1 2 3 show ?case by blast
next
  case (other pos w i w1)
  note rn = good_runnable [OF other(1)]
  note m = good_mem [OF other(1)]
  note E = run_effect [OF rn m other(2)]
  note L = run_logs [OF rn m other(2)]
  from other(1) have h: "h < length (heap w)" unfolding good_def by blast
  have sv: "to_serve e pos w1 = to_serve e pos w"
    by (cases pos) (simp_all add: subscribers_def E(5))
  from other(4) obtain xs ys where
    x: "handle_log h w' = handle_log h w1 @ xs" "global_log w' = global_log w1 @ ys"
      "subseq (sync_failures e (to_serve e pos w)) xs"
      "subseq (sync_failures e (to_serve e pos w)) ys"
    unfolding sv by blast
  let ?B = "arrived (OfHandle h) (gor_obs (goroutines w ! i))"
  let ?C = "arrived Global (gor_obs (goroutines w ! i))"
  have 1: "handle_log h w' = handle_log h w @ (?B @ xs)" using L(2) h x(1) by simp
  have 2: "global_log w' = global_log w @ (?C @ ys)" using L(1) x(2) by simp
  have 3: "subseq (sync_failures e (to_serve e pos w)) (?B @ xs)"
    "subseq (sync_failures e (to_serve e pos w)) (?C @ ys)"
    using x(3,4) by (auto intro: list_emb_prefix)
  from 1 2 3 show ?case by blast
qed

lemma conc_run_no_panic:
  assumes "conc_reachable w"
  shows "run i w \<noteq> Some (Inl p)"
proof -
  from conc_reachable_invariant [OF assms] have "invariant w" "mem_inv [] w" by blast+
  then show ?thesis using run_no_panic_gen [of w 0 0 0 "[]" i p] by blast
qed

text \<open>
  C3. A failure of a listener's OnEvent is never a failure of the call that led to it.
  In every world that the program reaches, with goroutines running concurrently with the
  calls: Dispatch does not panic under any schedule, and it returns a handle; no started
  goroutine panics; RegisterListener leads to a world of the program again, and a wait
  blocks or returns and changes nothing. Instead, each failing invocation appends one
  EventError, made of the event name the listener is registered for (which is the name of
  the event published), the listener's type and the cause, to the log of the handle it was
  invoked with and to the dispatcher's log: a synchronous listener inline, an asynchronous
  one when its goroutine runs. When a call of Dispatch returns, under whatever schedule,
  the failures of the synchronous listeners of the event are in the log of its handle and
  among what the dispatcher's log has gained, in the order of the subscriptions; failures
  of asynchronous listeners that have run in the meantime may stand between them.
\<close>

theorem listener_failure_recorded:
  assumes "conc_reachable w"
  shows "(\<forall>ts p. Dispatch_under ts e w \<noteq> Some (Inl p)) \<and>
         (\<exists>w'. Dispatch e w = Inr (length (heap w), w')) \<and>
         (\<forall>ts h w'. Dispatch_under ts e w = Some (Inr (h, w')) \<longrightarrow>
            subseq (sync_failures e (subscribers (Name e) w)) (handle_log h w') \<and>
            (\<exists>ys. global_log w' = global_log w @ ys \<and>
               subseq (sync_failures e (subscribers (Name e) w)) ys)) \<and>
         (\<forall>eh \<in> set (subscribers (Name e) w).
            ListenerEventName (listener_of (callBack eh)) = Name e) \<and>
         (\<forall>i p. run i w \<noteq> Some (Inl p)) \<and>
         (\<forall>i fn args. i < length (goroutines w) \<and> goroutines w ! i = GoCall fn args \<longrightarrow>
            (\<exists>l h e' w'. fn = AsyncHandler l \<and> args = [ArgHandle h, ArgEvent e'] \<and>
               ListenerEventName l = Name e' \<and> run i w = Some (Inr w') \<and>
               handle_log h w' = handle_log h w @ failure_of l e' \<and>
               global_log w' = global_log w @ failure_of l e')) \<and>
         (\<forall>l h e'. h < length (heap w) \<longrightarrow>
            (\<exists>w'. handler l [ArgHandle h, ArgEvent e'] w = Inr w' \<and>
               handle_log h w' = handle_log h w @ failure_of l e' \<and>
               global_log w' = global_log w @ failure_of l e')) \<and>
         (\<forall>l e' err. OnEvent l e' = Some err \<longrightarrow>
            failure_of l e' =
              [Some \<lparr>EventName = ListenerEventName l, ListenerType = TypeName l, Err = err\<rparr>]) \<and>
         (\<forall>ls. conc_reachable (RegisterListener ls w)) \<and>
         (\<forall>h. DispatchHandle_Wait h w = None \<or> DispatchHandle_Wait h w = Some w) \<and>
         (GoEvent_Wait w = None \<or> GoEvent_Wait w = Some w)"
proof -
  let ?n = "asyncCount_of (ge_asyncListeners (ge w)) (Name e)"
  let ?F = "sync_failures e (subscribers (Name e) w)"
  from conc_reachable_invariant [OF assms]
  have I: "invariant w" "mem_inv [] w" "inv_trace w" "inv_logs w" "inv_arrival w" by blast+
  note inv = I(1) and m = I(2)
  from inv have bus: "inv_bus w" by (simp add: invariant_def)
  from Dispatch_enter_good [OF I, of e] obtain w1 where
    en: "Dispatch_enter e w = (length (heap w), ?n, w1)"
    and G: "good e (length (heap w)) ?n AtAddGlobal w1"
    and e1: "ge w1 = ge w" "global_log w1 = global_log w" "handle_log (length (heap w)) w1 = []"
    by blast
  have 1: "\<forall>ts p. Dispatch_under ts e w \<noteq> Some (Inl p)"
    using Dispatch_run_no_panic [OF G]
    by (auto simp: Dispatch_under_def en split: option.splits sum.splits)
  have 2: "\<exists>w'. Dispatch e w = Inr (length (heap w), w')"
  proof (cases "Dispatch e w")
    case (Inl p)
    with Dispatch_alone [of w e] 1 show ?thesis by metis
  next
    case (Inr r)
    with Dispatch_alone [of w e] obtain ts where
      "Dispatch_under ts e w = Some (Inr (fst r, snd r))"
      by (metis prod.collapse)
    from Dispatch_under_good(1) [OF I this] Inr show ?thesis by (cases r) simp
  qed
  have 3: "subseq ?F (handle_log h w') \<and> (\<exists>ys. global_log w' = global_log w @ ys \<and> subseq ?F ys)"
    if D: "Dispatch_under ts e w = Some (Inr (h, w'))" for ts h w'
  proof -
    from D en have r: "Dispatch_run e (length (heap w)) ?n ts AtAddGlobal w1 = Some (Inr w')"
      and h: "h = length (heap w)"
      by (auto simp: Dispatch_under_def split: option.splits sum.splits)
    have sv: "to_serve e AtAddGlobal w1 = subscribers (Name e) w"
      by (simp add: subscribers_def e1(1))
    from Dispatch_run_logs [OF r G] show ?thesis
      unfolding sv h e1 by auto
  qed
  have 4: "\<forall>eh \<in> set (subscribers (Name e) w).
            ListenerEventName (listener_of (callBack eh)) = Name e"
  proof
    fix eh assume "eh \<in> set (subscribers (Name e) w)"
    with bus have "sub_ok eh" "topic eh = Name e" by (auto simp: subscribers_def inv_bus_def)
    then show "ListenerEventName (listener_of (callBack eh)) = Name e"
      by (cases "callBack eh") (simp_all add: sub_ok_def)
  qed
  have 5: "\<forall>i p. run i w \<noteq> Some (Inl p)" using conc_run_no_panic [OF assms] by blast
  have 6: "\<exists>l h e' w'. fn = AsyncHandler l \<and> args = [ArgHandle h, ArgEvent e'] \<and>
               ListenerEventName l = Name e' \<and> run i w = Some (Inr w') \<and>
               handle_log h w' = handle_log h w @ failure_of l e' \<and>
               global_log w' = global_log w @ failure_of l e'"
    if i: "i < length (goroutines w)" and g: "goroutines w ! i = GoCall fn args" for i fn args
  proof -
    from run_call [OF inv m i g] obtain l h e' w1 where
      a: "fn = AsyncHandler l" "args = [ArgHandle h, ArgEvent e']" "h < length (heap w)"
        "ListenerEventName l = Name e'" "recorded [] h (failure_of l e') w w1"
      and r: "run i w =
             Some (Inr (w1\<lparr>ge := (ge w1)\<lparr>ge_wg := ge_wg (ge w1) - 1\<rparr>,
                    heap := (heap w1)[h := (heap w1 ! h)\<lparr>dh_wg := dh_wg (heap w1 ! h) - 1\<rparr>],
                    trace := trace w1 @ [WgAdd Global (- 1), WgAdd (OfHandle h) (- 1)]\<rparr>))"
      by blast
    let ?w' = "w1\<lparr>ge := (ge w1)\<lparr>ge_wg := ge_wg (ge w1) - 1\<rparr>,
                    heap := (heap w1)[h := (heap w1 ! h)\<lparr>dh_wg := dh_wg (heap w1 ! h) - 1\<rparr>],
                    trace := trace w1 @ [WgAdd Global (- 1), WgAdd (OfHandle h) (- 1)]\<rparr>"
    from a(5) have l1: "length (heap w1) = length (heap w)"
      and g1: "global_log w1 = global_log w @ failure_of l e'"
      and h1: "handle_log h w1 = handle_log h w @ failure_of l e'"
      using a(3) by (simp_all add: recorded_def quiet_def)
    have "global_log ?w' = global_log w1" by (simp add: global_log_def)
    moreover have "handle_log h ?w' = handle_log h w1"
      using a(3) l1 by (simp add: handle_log_def)
    ultimately show ?thesis using a r g1 h1 by auto
  qed
  have 7: "\<exists>w'. handler l [ArgHandle h, ArgEvent e'] w = Inr w' \<and>
               handle_log h w' = handle_log h w @ failure_of l e' \<and>
               global_log w' = global_log w @ failure_of l e'"
    if "h < length (heap w)" for l h e'
    using handler_effect [OF m that, of l e' "[]"] that by (auto simp: recorded_def)
  have 8: "\<forall>l e' err. OnEvent l e' = Some err \<longrightarrow>
            failure_of l e' =
              [Some \<lparr>EventName = ListenerEventName l, ListenerType = TypeName l, Err = err\<rparr>]"
    by (simp add: failure_of_def mkError_def)
  have 9: "\<forall>ls. conc_reachable (RegisterListener ls w)"
    using assms by (blast intro: cr_step cs_step s_Register)
  have 10: "\<forall>h. DispatchHandle_Wait h w = None \<or> DispatchHandle_Wait h w = Some w"
    "GoEvent_Wait w = None \<or> GoEvent_Wait w = Some w"
    by (simp_all add: DispatchHandle_Wait_def GoEvent_Wait_def)
  from 1 2 3 4 5 6 7 8 9 10 show ?thesis by blast
qed

text \<open>
  A failing asynchronous listener subscribed before a failing synchronous one, under the
  schedule in which the goroutine of the asynchronous listener runs as soon as the
  publication has started it: when Dispatch returns, both failures are in both logs, the
  one of the asynchronous listener first.
\<close>

theorem listener_failure_recorded_witness:
  "Dispatch_under [Own, Own, Own, Own, Other 0, Own, Own, Own] (TestEvent ''x'')
     (RegisterListener [boomListener, testErrorListener] New) =
     Some (Inr (0, dispatched_under [Own, Own, Own, Own, Other 0, Own, Own, Own]
                     [boomListener, testErrorListener] (TestEvent ''x''))) \<and>
   handle_log 0 (dispatched_under [Own, Own, Own, Own, Other 0, Own, Own, Own]
                   [boomListener, testErrorListener] (TestEvent ''x'')) =
     [Some \<lparr>EventName = ''test.event'', ListenerType = ''*goevent.boomListener'',
            Err = ''boom''\<rparr>,
      Some \<lparr>EventName = ''test.event'', ListenerType = ''*goevent.testErrorListener'',
            Err = ''test error''\<rparr>] \<and>
   global_log (dispatched_under [Own, Own, Own, Own, Other 0, Own, Own, Own]
                   [boomListener, testErrorListener] (TestEvent ''x'')) =
     [Some \<lparr>EventName = ''test.event'', ListenerType = ''*goevent.boomListener'',
            Err = ''boom''\<rparr>,
      Some \<lparr>EventName = ''test.event'', ListenerType = ''*goevent.testErrorListener'',
            Err = ''test error''\<rparr>] \<and>
   subseq
     [Some \<lparr>EventName = ''test.event'', ListenerType = ''*goevent.testErrorListener'',
            Err = ''test error''\<rparr>]
     (handle_log 0 (dispatched_under [Own, Own, Own, Own, Other 0, Own, Own, Own]
                   [boomListener, testErrorListener] (TestEvent ''x''))) \<and>
   dh_wg (heap (dispatched_under [Own, Own, Own, Own, Other 0, Own, Own, Own]
                   [boomListener, testErrorListener] (TestEvent ''x'')) ! 0) = 0"
proof -
  let ?ts = "[Own, Own, Own, Own, Other 0, Own, Own, Own]"
  let ?ls = "[boomListener, testErrorListener]"
  let ?e = "TestEvent ''x''"
  let ?reg = "RegisterListener ?ls New"
  let ?w = "dispatched_under ?ts ?ls ?e"
  have "\<exists>w'. Dispatch_under ?ts ?e ?reg = Some (Inr (0, w'))"
    by (simp add: conc_defs eval_defs)
  then have D: "Dispatch_under ?ts ?e ?reg = Some (Inr (0, ?w))"
    by (auto simp: dispatched_under_def)
  have v: "handle_log 0 ?w =
     [Some \<lparr>EventName = ''test.event'', ListenerType = ''*goevent.boomListener'',
            Err = ''boom''\<rparr>,
      Some \<lparr>EventName = ''test.event'', ListenerType = ''*goevent.testErrorListener'',
            Err = ''test error''\<rparr>]"
    "global_log ?w =
     [Some \<lparr>EventName = ''test.event'', ListenerType = ''*goevent.boomListener'',
            Err = ''boom''\<rparr>,
      Some \<lparr>EventName = ''test.event'', ListenerType = ''*goevent.testErrorListener'',
            Err = ''test error''\<rparr>]"
    "dh_wg (heap ?w ! 0) = 0"
    by (simp_all add: conc_defs eval_defs)
  have s: "sync_failures ?e (subscribers (Name ?e) ?reg) =
     [Some \<lparr>EventName = ''test.event'', ListenerType = ''*goevent.testErrorListener'',
            Err = ''test error''\<rparr>]"
    by (simp add: sync_failures_def subscribers_def failure_of_def mkError_def eval_defs)
  from listener_failure_recorded [OF conc_reachable_Register, of ?e ?ls]
  have "\<forall>ts h w'. Dispatch_under ts ?e ?reg = Some (Inr (h, w')) \<longrightarrow>
      subseq (sync_failures ?e (subscribers (Name ?e) ?reg)) (handle_log h w') \<and>
      (\<exists>ys. global_log w' = global_log ?reg @ ys \<and>
         subseq (sync_failures ?e (subscribers (Name ?e) ?reg)) ys)"
    by (elim conjE)
  from this [rule_format, OF D]
  have "subseq (sync_failures ?e (subscribers (Name ?e) ?reg)) (handle_log 0 ?w)" ..
  then have "subseq
     [Some \<lparr>EventName = ''test.event'', ListenerType = ''*goevent.testErrorListener'',
            Err = ''test error''\<rparr>] (handle_log 0 ?w)"
    by (simp only: s)
  with D v show ?thesis by (simp only:)
qed













end
